(* ===== verification/Prelude.thy ===== *)
theory Prelude
  imports Main "HOL-Library.Word" "HOL-Library.Monad_Syntax" "HOL-Library.AList"
    "HOL-Library.Multiset"
begin

text \<open>
  Shared vocabulary of the development.

  \<^item> Go's machine integers: \<open>u16\<close>, \<open>u32\<close>, \<open>u64\<close> are words; a signed 64-bit value is an
    \<open>int\<close> whose additions go through \<open>wrap64\<close>.
  \<^item> A Go slice is a list; an access out of range panics, which is the value \<open>None\<close> of the
    option monad (\<open>slice_get\<close>, \<open>slice_set\<close>).
  \<^item> A Go map is an association list without repeated keys (\<open>map_of\<close>, \<open>AList.update\<close>,
    \<open>AList.delete\<close>), so that its length and its keys compute. Go leaves the order in which
    \<open>range\<close> visits a map open: where the code ranges over a map, the model takes the order as
    an argument, a permutation of the keys (\<open>visits\<close>).
  \<^item> \<open>sort.Search\<close> of the Go standard library, as the binary search it is.
\<close>

named_theorems go_simps \<open>evaluation rules for slices, maps and words\<close>

type_synonym u16 = "16 word"
type_synonym u32 = "32 word"
type_synonym u64 = "64 word"
type_synonym ('k, 'v) gomap = "('k \<times> 'v) list"

section \<open>Signed 64-bit values\<close>

definition wrap64 :: "int \<Rightarrow> int" where
  "wrap64 x = (x + 2 ^ 63) mod 2 ^ 64 - 2 ^ 63"

lemma wrap64_id: "- (2 ^ 63) \<le> x \<Longrightarrow> x < 2 ^ 63 \<Longrightarrow> wrap64 x = x"
  by (simp add: wrap64_def)

lemma wrap64_range: "- (2 ^ 63) \<le> wrap64 x \<and> wrap64 x < 2 ^ 63"
  using pos_mod_bound [of "2 ^ 64 :: int" "x + 2 ^ 63"]
    pos_mod_sign [of "2 ^ 64 :: int" "x + 2 ^ 63"]
  by (simp add: wrap64_def)

text \<open>A loop counter below its limit does not wrap when it is incremented.\<close>

lemma unat_succ: "i < k \<Longrightarrow> unat (i + 1) = Suc (unat (i :: u64))"
proof -
  assume "i < k"
  then have "Suc (unat i) < 2 ^ 64"
    using unsigned_less [where ?'a = nat, of k] by (simp add: word_less_nat_alt)
  then show ?thesis by (simp add: unat_word_ariths)
qed

section \<open>Slices\<close>

definition slice_get :: "'a list \<Rightarrow> nat \<Rightarrow> 'a option" where
  "slice_get xs i = (if i < length xs then Some (xs ! i) else None)"

definition slice_set :: "'a list \<Rightarrow> nat \<Rightarrow> 'a \<Rightarrow> 'a list option" where
  "slice_set xs i x = (if i < length xs then Some (xs[i := x]) else None)"

lemma slice_get_in [go_simps]: "i < length xs \<Longrightarrow> slice_get xs i = Some (xs ! i)"
  by (simp add: slice_get_def)

lemma slice_get_out [go_simps]: "length xs \<le> i \<Longrightarrow> slice_get xs i = None"
  by (simp add: slice_get_def)

lemma slice_set_in [go_simps]: "i < length xs \<Longrightarrow> slice_set xs i x = Some (xs[i := x])"
  by (simp add: slice_set_def)

lemma slice_set_out [go_simps]: "length xs \<le> i \<Longrightarrow> slice_set xs i x = None"
  by (simp add: slice_set_def)

section \<open>Maps\<close>

definition map_ok :: "('k, 'v) gomap \<Rightarrow> bool" where
  "map_ok mp \<longleftrightarrow> distinct (map fst mp)"

lemma map_ok_Nil [simp, intro]: "map_ok []"
  by (simp add: map_ok_def)

lemma map_ok_update [intro]: "map_ok mp \<Longrightarrow> map_ok (AList.update k v mp)"
  by (simp add: map_ok_def distinct_update)

lemma map_ok_delete [intro]: "map_ok mp \<Longrightarrow> map_ok (AList.delete k mp)"
  by (simp add: map_ok_def distinct_delete)

lemma map_of_update [simp, go_simps]:
  "map_of (AList.update k v mp) = (map_of mp)(k \<mapsto> v)"
  by (rule update_conv')

lemma map_of_delete [simp, go_simps]:
  "map_of (AList.delete k mp) = (map_of mp)(k := None)"
  by (rule delete_conv')

lemma keys_dom: "set (map fst mp) = dom (map_of mp)"
  by (simp add: dom_map_of_conv_image_fst)

text \<open>An order in which \<open>range\<close> may visit the keys of a map.\<close>

definition visits :: "(string list \<Rightarrow> string list) \<Rightarrow> bool" where
  "visits ord \<longleftrightarrow> (\<forall>xs. mset (ord xs) = mset xs)"

lemma visits_set: "visits ord \<Longrightarrow> set (ord xs) = set xs"
  by (metis visits_def set_mset_mset)

lemma visits_distinct: "visits ord \<Longrightarrow> distinct (ord xs) = distinct xs"
  by (metis visits_def mset_eq_imp_distinct_iff)

lemma visits_id: "visits id" "visits (\<lambda>xs. xs)"
  by (simp_all add: visits_def)

section \<open>sort.Search\<close>

text \<open>
  \<open>sort.Search(n, f)\<close>: \<open>i, j := 0, n; for i < j { h := int(uint(i+j) >> 1);
  if !f(h) { i = h + 1 } else { j = h } }; return i\<close>.
\<close>

function search_from :: "(nat \<Rightarrow> bool) \<Rightarrow> nat \<Rightarrow> nat \<Rightarrow> nat" where
  "search_from f i j =
     (if i < j
      then (let h = (i + j) div 2 in if \<not> f h then search_from f (h + 1) j else search_from f i h)
      else i)"
  by pat_completeness auto
termination
  by (relation "measure (\<lambda>(f, i, j). j - i)") auto

declare search_from.simps [simp del]

definition sort_search :: "nat \<Rightarrow> (nat \<Rightarrow> bool) \<Rightarrow> nat" where
  "sort_search n f = search_from f 0 n"

lemma search_from_bounds: "i \<le> j \<Longrightarrow> i \<le> search_from f i j \<and> search_from f i j \<le> j"
proof (induction f i j rule: search_from.induct)
  case (1 f i j)
  show ?case
  proof (cases "i < j")
    case True
    let ?h = "(i + j) div 2"
    have h: "i \<le> ?h" "?h < j" using True by auto
    show ?thesis
    proof (cases "f ?h")
      case True
      with \<open>i < j\<close> h "1.IH"(2) show ?thesis
        by (auto simp: search_from.simps [of f i j] Let_def)
    next
      case False
      with \<open>i < j\<close> h "1.IH"(1) show ?thesis
        by (auto simp: search_from.simps [of f i j] Let_def)
    qed
  next
    case False
    with "1.prems" have "i = j" by simp
    then show ?thesis by (simp add: search_from.simps [of f j j])
  qed
qed

text \<open>The predicate only matters below \<open>n\<close>, where it has to be monotone.\<close>

lemma search_from_least:
  "\<forall>a b. a \<le> b \<longrightarrow> b < n \<longrightarrow> f a \<longrightarrow> f b \<Longrightarrow> i \<le> j \<Longrightarrow> j \<le> n \<Longrightarrow>
   \<forall>k < i. \<not> f k \<Longrightarrow> \<forall>k. j \<le> k \<longrightarrow> k < n \<longrightarrow> f k \<Longrightarrow>
   (\<forall>k < search_from f i j. \<not> f k) \<and> (\<forall>k. search_from f i j \<le> k \<longrightarrow> k < n \<longrightarrow> f k)"
proof (induction f i j rule: search_from.induct)
  case (1 f i j)
  show ?case
  proof (cases "i < j")
    case True
    let ?h = "(i + j) div 2"
    have h: "i \<le> ?h" "?h < j" "?h \<le> n" "?h + 1 \<le> j" "?h < n" using True "1.prems"(3) by auto
    show ?thesis
    proof (cases "f ?h")
      case fh: True
      have up: "\<forall>k. ?h \<le> k \<longrightarrow> k < n \<longrightarrow> f k"
      proof (intro allI impI)
        fix k assume "?h \<le> k" and "k < n"
        then show "f k" using fh by (rule "1.prems"(1) [rule_format])
      qed
      have nn: "\<not> \<not> f ?h" using fh by simp
      have run: "search_from f i j = search_from f i ?h"
        using True fh by (simp add: search_from.simps [of f i j] Let_def)
      show ?thesis unfolding run
        by (rule "1.IH"(2) [OF True refl nn "1.prems"(1) h(1,3) "1.prems"(4) up])
    next
      case fh: False
      have "\<forall>k < ?h + 1. \<not> f k"
      proof (intro allI impI notI)
        fix k assume "k < ?h + 1" and "f k"
        then have "k \<le> ?h" by simp
        then have "f ?h" using h(5) \<open>f k\<close> by (rule "1.prems"(1) [rule_format])
        with fh show False by contradiction
      qed
      note down = this
      have run: "search_from f i j = search_from f (?h + 1) j"
        using True fh by (simp add: search_from.simps [of f i j] Let_def)
      show ?thesis unfolding run
        by (rule "1.IH"(1) [OF True refl fh "1.prems"(1) h(4) "1.prems"(3) down "1.prems"(5)])
    qed
  next
    case False
    then have run: "search_from f i j = i" by (simp add: search_from.simps [of f i j])
    have "i = j" using False "1.prems"(2) by simp
    then show ?thesis unfolding run using "1.prems"(4,5) by simp
  qed
qed

lemma sort_search_least:
  assumes "\<forall>a b. a \<le> b \<longrightarrow> b < n \<longrightarrow> f a \<longrightarrow> f b"
  shows "sort_search n f \<le> n" and "\<And>k. k < sort_search n f \<Longrightarrow> \<not> f k"
    and "\<And>k. sort_search n f \<le> k \<Longrightarrow> k < n \<Longrightarrow> f k"
  using search_from_bounds [of 0 n f] search_from_least [of n f 0 n, OF assms] by (auto simp: sort_search_def)

section \<open>Locks and statistics\<close>

text \<open>A call that locks a mutex which is not reentrant returns, or never does because its caller holds
  the mutex already.\<close>

datatype 'a locking = Returns 'a | Deadlock

text \<open>
  The values in the \<open>map[string]interface{}\<close> of a \<open>Stats\<close> method. A floating-point result is
  kept as the code's expression: the integer it converts and the integers it divides by, in
  order.
\<close>

datatype stat = StatBool bool | StatInt int | StatString string | StatDiv int "int list"

end
