(* ===== verification/Options.thy ===== *)
theory Options
  imports Prelude
begin

text \<open>
  \<open>store/store.go\<close>: the options shared by the two store implementations. A \<open>time.Duration\<close>
  is an \<open>int\<close> of nanoseconds; of the callback \<open>OnEvicted\<close> the record keeps whether it is set,
  because the stores only call it: the calls themselves are logged by the operations.
\<close>

datatype CacheType = LRU | LRU2 | OtherType string

record Options =
  MaxBytes :: int
  BucketCount :: u16
  CapPerBucket :: u16
  Level2Cap :: u16
  CleanupInterval :: int
  OnEvicted :: bool

definition minute :: int where
  "minute = 60000000000"

definition NewOptions :: Options where
  "NewOptions = \<lparr>MaxBytes = 8192, BucketCount = 16, CapPerBucket = 512, Level2Cap = 256,
     CleanupInterval = minute, OnEvicted = False\<rparr>"

end
