(* ===== verification/Lru.thy ===== *)
theory Lru
  imports Options
begin

text \<open>
  The least-recently-used store \<open>lruCache\<close> of \<open>store/lru.go\<close>. Its \<open>container/list\<close> is a list
  of element addresses, front to back, with a heap of entries (\<open>elems\<close>): an element that was
  removed keeps its entry, and \<open>MoveToBack\<close> of it does nothing, as in Go. \<open>Clear\<close> however calls
  \<open>list.Init\<close>, which forgets the elements without telling them: they still name the list as
  theirs (\<open>orphans\<close>), and \<open>MoveToBack\<close> of such an element links it into the ring of the new
  ones. What results is not a list any more, which is the value \<open>None\<close> here. \<open>items\<close> maps a key
  to its element, \<open>expires\<close> to its expiry. \<open>Value.Len\<close> is the argument \<open>vlen\<close>. A clock reading
  is an argument; \<open>ord\<close> is the order in which \<open>range\<close> visits a map. The calls of the eviction
  callback are logged in \<open>calls\<close>. \<open>Get\<close> is two critical sections and, on an expired entry, a
  spawned \<open>Delete\<close>: these are separate steps here (\<open>lru_Get_read\<close>, \<open>lru_Get_promote\<close>,
  \<open>lru_Delete\<close>), composed by \<open>lru_Get\<close>.
\<close>

section \<open>State\<close>

record 'v lruCache =
  list :: "nat list"
  orphans :: "nat list"
  elems :: "nat \<rightharpoonup> string \<times> 'v"
  next_elem :: nat
  items :: "(string, nat) gomap"
  expires :: "(string, int) gomap"
  maxBytes :: int
  usedBytes :: int
  cb_set :: bool
  calls :: "(string \<times> 'v) list"
  cleanupEvery :: int
  closeCh_closed :: bool

definition deref :: "'v lruCache \<Rightarrow> nat \<Rightarrow> string \<times> 'v" where
  "deref c e = the (elems c e)"

definition newLRUCache :: "Options \<Rightarrow> 'v lruCache" where
  "newLRUCache opts = \<lparr>list = [], orphans = [], elems = Map.empty, next_elem = 0, items = [], expires = [],
     maxBytes = MaxBytes opts, usedBytes = 0, cb_set = OnEvicted opts, calls = [],
     cleanupEvery = (if CleanupInterval opts \<le> 0 then minute else CleanupInterval opts),
     closeCh_closed = False\<rparr>"

section \<open>Operations\<close>

definition MoveToBack :: "'v lruCache \<Rightarrow> nat \<Rightarrow> 'v lruCache option" where
  "MoveToBack c e =
     (if e \<in> set (list c) then Some (c\<lparr>list := remove1 e (list c) @ [e]\<rparr>)
      else if e \<in> set (orphans c) then None else Some c)"

definition removeElement :: "('v \<Rightarrow> int) \<Rightarrow> 'v lruCache \<Rightarrow> nat \<Rightarrow> 'v lruCache" where
  "removeElement vlen c e =
     (let entry = deref c e;
          c = c\<lparr>list := remove1 e (list c)\<rparr>;
          c = c\<lparr>items := AList.delete (fst entry) (items c)\<rparr>;
          c = c\<lparr>expires := AList.delete (fst entry) (expires c)\<rparr>;
          c = c\<lparr>usedBytes := usedBytes c - (int (length (fst entry)) + vlen (snd entry))\<rparr>
      in if cb_set c then c\<lparr>calls := calls c @ [entry]\<rparr> else c)"

text \<open>\<open>evict\<close>: the expired keys in the order \<open>range\<close> gives, then the front while over budget.\<close>

fun evict_expired :: "('v \<Rightarrow> int) \<Rightarrow> int \<Rightarrow> string list \<Rightarrow> 'v lruCache \<Rightarrow> 'v lruCache" where
  "evict_expired vlen now [] c = c"
| "evict_expired vlen now (key # ks) c =
     evict_expired vlen now ks
       (case map_of (expires c) key of
          Some expTime \<Rightarrow>
            if expTime < now then
              (case map_of (items c) key of Some e \<Rightarrow> removeElement vlen c e | None \<Rightarrow> c)
            else c
        | None \<Rightarrow> c)"

lemma list_removeElement [simp]: "list (removeElement vlen c e) = remove1 e (list c)"
  by (simp add: removeElement_def Let_def)

function evict_size :: "('v \<Rightarrow> int) \<Rightarrow> 'v lruCache \<Rightarrow> 'v lruCache" where
  "evict_size vlen c =
     (if maxBytes c > 0 \<and> usedBytes c > maxBytes c \<and> length (list c) > 0
      then evict_size vlen (removeElement vlen c (hd (list c)))
      else c)"
  by pat_completeness auto
termination
  by (relation "measure (\<lambda>(vlen, c). length (list c))") (auto simp: length_remove1 neq_Nil_conv)

declare evict_size.simps [simp del]

definition evict :: "('v \<Rightarrow> int) \<Rightarrow> int \<Rightarrow> (string list \<Rightarrow> string list) \<Rightarrow> 'v lruCache \<Rightarrow> 'v lruCache" where
  "evict vlen now ord c = evict_size vlen (evict_expired vlen now (ord (map fst (expires c))) c)"

text \<open>\<open>Get\<close>, first critical section: what was found.\<close>

datatype 'v get_result = Miss | Expired | Hit nat 'v

definition lru_Get_read :: "'v lruCache \<Rightarrow> string \<Rightarrow> int \<Rightarrow> 'v get_result" where
  "lru_Get_read c key now = (case map_of (items c) key of
     None \<Rightarrow> Miss
   | Some e \<Rightarrow>
       if (case map_of (expires c) key of Some expTime \<Rightarrow> expTime < now | None \<Rightarrow> False) then Expired
       else Hit e (snd (deref c e)))"

definition lru_Get_promote :: "'v lruCache \<Rightarrow> string \<Rightarrow> nat \<Rightarrow> 'v lruCache option" where
  "lru_Get_promote c key e = (if map_of (items c) key \<noteq> None then MoveToBack c e else Some c)"

definition lru_Delete :: "('v \<Rightarrow> int) \<Rightarrow> 'v lruCache \<Rightarrow> string \<Rightarrow> 'v lruCache \<times> bool" where
  "lru_Delete vlen c key = (case map_of (items c) key of
     Some e \<Rightarrow> (removeElement vlen c e, True)
   | None \<Rightarrow> (c, False))"

text \<open>
  \<open>Get\<close> without interference: the store, the reply, and the key whose \<open>Delete\<close> it spawned.
\<close>

definition lru_Get :: "'v lruCache \<Rightarrow> string \<Rightarrow> int \<Rightarrow>
    ('v lruCache \<times> ('v option \<times> bool) \<times> string option) option" where
  "lru_Get c key now = (case lru_Get_read c key now of
     Miss \<Rightarrow> Some (c, (None, False), None)
   | Expired \<Rightarrow> Some (c, (None, False), Some key)
   | Hit e v \<Rightarrow> do { c \<leftarrow> lru_Get_promote c key e; Some (c, (Some v, True), None) })"

text \<open>
  \<open>SetWithExpiration\<close> reads the clock for the expiry (\<open>now\<close>) and \<open>evict\<close> reads it again
  (\<open>now'\<close>). A nil value deletes the key.
\<close>

definition lru_SetWithExpiration :: "('v \<Rightarrow> int) \<Rightarrow> int \<Rightarrow> int \<Rightarrow> (string list \<Rightarrow> string list) \<Rightarrow>
    'v lruCache \<Rightarrow> string \<Rightarrow> 'v option \<Rightarrow> int \<Rightarrow> 'v lruCache option" where
  "lru_SetWithExpiration vlen now now' ord c key value expiration = (case value of
     None \<Rightarrow> Some (fst (lru_Delete vlen c key))
   | Some value \<Rightarrow>
       (let c = (if expiration > 0 then c\<lparr>expires := AList.update key (now + expiration) (expires c)\<rparr>
                 else c\<lparr>expires := AList.delete key (expires c)\<rparr>)
        in case map_of (items c) key of
             Some e \<Rightarrow>
               (let old = deref c e;
                    c = c\<lparr>usedBytes := usedBytes c + (vlen value - vlen (snd old))\<rparr>;
                    c = c\<lparr>elems := (elems c)(e \<mapsto> (fst old, value))\<rparr>
                in MoveToBack c e)
           | None \<Rightarrow>
               (let e = next_elem c;
                    c = c\<lparr>elems := (elems c)(e \<mapsto> (key, value)), next_elem := e + 1\<rparr>;
                    c = c\<lparr>list := list c @ [e]\<rparr>;
                    c = c\<lparr>items := AList.update key e (items c)\<rparr>;
                    c = c\<lparr>usedBytes := usedBytes c + (int (length key) + vlen value)\<rparr>
                in Some (evict vlen now' ord c))))"

definition lru_Set :: "('v \<Rightarrow> int) \<Rightarrow> int \<Rightarrow> int \<Rightarrow> (string list \<Rightarrow> string list) \<Rightarrow>
    'v lruCache \<Rightarrow> string \<Rightarrow> 'v option \<Rightarrow> 'v lruCache option" where
  "lru_Set vlen now now' ord c key value = lru_SetWithExpiration vlen now now' ord c key value 0"

text \<open>One tick of \<open>cleanupLoop\<close>; after \<open>Close\<close> the loop has returned.\<close>

definition lru_tick :: "('v \<Rightarrow> int) \<Rightarrow> int \<Rightarrow> (string list \<Rightarrow> string list) \<Rightarrow> 'v lruCache \<Rightarrow> 'v lruCache" where
  "lru_tick vlen now ord c = (if closeCh_closed c then c else evict vlen now ord c)"

text \<open>\<open>ord\<close> also gives the order in which \<open>Clear\<close> and \<open>Keys\<close> visit \<open>items\<close>.\<close>

definition lru_Clear :: "(string list \<Rightarrow> string list) \<Rightarrow> 'v lruCache \<Rightarrow> 'v lruCache" where
  "lru_Clear ord c =
     (let c = (if cb_set c
               then c\<lparr>calls := calls c @ map (\<lambda>k. deref c (the (map_of (items c) k))) (ord (map fst (items c)))\<rparr>
               else c)
      in c\<lparr>orphans := orphans c @ list c, list := [], items := [], expires := [], usedBytes := 0\<rparr>)"

definition lru_Keys :: "(string list \<Rightarrow> string list) \<Rightarrow> 'v lruCache \<Rightarrow> string list" where
  "lru_Keys ord c = ord (map fst (items c))"

definition lru_GetValue :: "'v lruCache \<Rightarrow> string \<Rightarrow> int \<Rightarrow> 'v option \<times> bool" where
  "lru_GetValue c key now = (case map_of (items c) key of
     None \<Rightarrow> (None, False)
   | Some e \<Rightarrow>
       if (case map_of (expires c) key of Some expTime \<Rightarrow> expTime < now | None \<Rightarrow> False) then (None, False)
       else (Some (snd (deref c e)), True))"

definition lru_Len :: "'v lruCache \<Rightarrow> nat" where
  "lru_Len c = length (list c)"

text \<open>\<open>Close\<close> closes a channel; closing it twice panics.\<close>

definition lru_Close :: "'v lruCache \<Rightarrow> 'v lruCache option" where
  "lru_Close c = (if closeCh_closed c then None else Some (c\<lparr>closeCh_closed := True\<rparr>))"

section \<open>Well-formedness\<close>

definition key_of :: "'v lruCache \<Rightarrow> nat \<Rightarrow> string" where
  "key_of c e = fst (deref c e)"

definition entry_size :: "('v \<Rightarrow> int) \<Rightarrow> string \<times> 'v \<Rightarrow> int" where
  "entry_size vlen kv = int (length (fst kv)) + vlen (snd kv)"

text \<open>The entries from the least to the most recently used.\<close>

definition contents :: "'v lruCache \<Rightarrow> (string \<times> 'v) list" where
  "contents c = map (deref c) (list c)"

definition total_size :: "('v \<Rightarrow> int) \<Rightarrow> (string \<times> 'v) list \<Rightarrow> int" where
  "total_size vlen kvs = sum_list (map (entry_size vlen) kvs)"

definition lru_shape :: "'v lruCache \<Rightarrow> bool" where
  "lru_shape c \<longleftrightarrow> distinct (list c) \<and> (\<forall>e \<in> set (list c) \<union> set (orphans c). e < next_elem c) \<and>
     set (list c) \<inter> set (orphans c) = {} \<and> map_ok (items c) \<and> map_ok (expires c) \<and>
     (\<forall>k e. map_of (items c) k = Some e \<longleftrightarrow> e \<in> set (list c) \<and> key_of c e = k)"

definition lru_wf :: "('v \<Rightarrow> int) \<Rightarrow> 'v lruCache \<Rightarrow> bool" where
  "lru_wf vlen c \<longleftrightarrow> lru_shape c \<and> dom (map_of (expires c)) \<subseteq> dom (map_of (items c)) \<and>
     usedBytes c = total_size vlen (contents c)"

end
