(* ===== verification/LruSpec.thy ===== *)
theory LruSpec
  imports Lru
begin

text \<open>
  What the operations of \<open>lruCache\<close> do to its contents, a list of entries from the least to the
  most recently used: lookups and deletions by key, the eviction as a filter followed by a
  \<open>shrink\<close> from the front, the byte count as the sum of the sizes.
\<close>

section \<open>Association lists of entries\<close>

definition drop_key :: "string \<Rightarrow> (string \<times> 'v) list \<Rightarrow> (string \<times> 'v) list" where
  "drop_key k kvs = filter (\<lambda>x. fst x \<noteq> k) kvs"

lemma drop_key_None: "map_of kvs k = None \<Longrightarrow> drop_key k kvs = kvs"
  by (auto simp: drop_key_def map_of_eq_None_iff image_iff intro!: filter_True)

lemma map_of_drop_key [simp]: "map_of (drop_key k kvs) = (map_of kvs)(k := None)"
  by (induction kvs) (auto simp: drop_key_def fun_eq_iff)

lemma total_size_drop:
  "distinct (map fst kvs) \<Longrightarrow> map_of kvs k = Some v \<Longrightarrow>
   total_size vlen (drop_key k kvs) = total_size vlen kvs - entry_size vlen (k, v)"
proof (induction kvs)
  case (Cons x kvs)
  show ?case
  proof (cases "fst x = k")
    case True
    then have "map_of kvs k = None" using Cons.prems(1) by (auto simp: map_of_eq_None_iff)
    from drop_key_None [OF this] have "drop_key k (x # kvs) = kvs" using True by (simp add: drop_key_def)
    then show ?thesis using Cons.prems(2) True by (cases x) (auto simp: total_size_def)
  next
    case False
    then have "drop_key k (x # kvs) = x # drop_key k kvs" by (simp add: drop_key_def)
    then show ?thesis using Cons False by (cases x) (auto simp: total_size_def)
  qed
qed simp

section \<open>Shape\<close>

lemma shape_items:
  assumes "lru_shape c"
  shows "map_of (items c) k = Some e \<longleftrightarrow> e \<in> set (list c) \<and> key_of c e = k"
  using assms by (simp add: lru_shape_def)

lemma key_of_inj: "lru_shape c \<Longrightarrow> inj_on (key_of c) (set (list c))"
  by (rule inj_onI) (metis shape_items option.inject)

lemma contents_keys: "map fst (contents c) = map (key_of c) (list c)"
  by (simp add: contents_def key_of_def)

lemma contents_distinct: "lru_shape c \<Longrightarrow> distinct (map fst (contents c))"
  unfolding contents_keys distinct_map by (simp add: key_of_inj) (simp add: lru_shape_def)

lemma contents_lookup:
  assumes "lru_shape c"
  shows "map_of (contents c) k = map_option (\<lambda>e. snd (deref c e)) (map_of (items c) k)"
proof (cases "map_of (items c) k")
  case None
  have "k \<notin> fst ` set (contents c)"
  proof
    assume "k \<in> fst ` set (contents c)"
    then obtain e where "e \<in> set (list c)" "key_of c e = k" by (auto simp: contents_def key_of_def)
    with None shape_items [OF assms, of k e] show False by simp
  qed
  then have "map_of (contents c) k = None" unfolding map_of_eq_None_iff .
  then show ?thesis using None by simp
next
  case (Some e)
  then have e: "e \<in> set (list c)" "key_of c e = k" using shape_items [OF assms] by auto
  then have "deref c e \<in> set (contents c)" by (simp add: contents_def)
  moreover have "deref c e = (k, snd (deref c e))" using e(2) by (simp add: key_of_def prod_eq_iff)
  ultimately have "(k, snd (deref c e)) \<in> set (contents c)" by simp
  with contents_distinct [OF assms] have "map_of (contents c) k = Some (snd (deref c e))"
    by (rule map_of_is_SomeI)
  then show ?thesis using Some by simp
qed

lemma items_dom: "lru_shape c \<Longrightarrow> dom (map_of (items c)) = fst ` set (contents c)"
proof -
  assume "lru_shape c"
  then have "dom (map_of (contents c)) = dom (map_of (items c))" by (simp add: dom_def contents_lookup)
  then show ?thesis by (simp add: dom_map_of_conv_image_fst)
qed

lemma shape_bound: "lru_shape c \<Longrightarrow> e \<in> set (list c) \<Longrightarrow> e < next_elem c"
  by (auto simp: lru_shape_def)

section \<open>removeElement\<close>

lemma removeElement_frame [simp]:
  "elems (removeElement vlen c e) = elems c" "orphans (removeElement vlen c e) = orphans c"
  "next_elem (removeElement vlen c e) = next_elem c" "maxBytes (removeElement vlen c e) = maxBytes c"
  "cb_set (removeElement vlen c e) = cb_set c" "closeCh_closed (removeElement vlen c e) = closeCh_closed c"
  "items (removeElement vlen c e) = AList.delete (key_of c e) (items c)"
  "expires (removeElement vlen c e) = AList.delete (key_of c e) (expires c)"
  "deref (removeElement vlen c e) = deref c" "key_of (removeElement vlen c e) = key_of c"
  "calls (removeElement vlen c e) = calls c @ (if cb_set c then [deref c e] else [])"
  by (auto simp: removeElement_def Let_def deref_def key_of_def fun_eq_iff)

lemma removeElement_used:
  "usedBytes (removeElement vlen c e) = usedBytes c - entry_size vlen (deref c e)"
  by (simp add: removeElement_def Let_def entry_size_def)

lemma removeElement_contents:
  assumes "lru_shape c" and "e \<in> set (list c)"
  shows "contents (removeElement vlen c e) = drop_key (key_of c e) (contents c)"
proof -
  have "remove1 e (list c) = filter (\<lambda>x. x \<noteq> e) (list c)"
    using assms(1) by (simp add: lru_shape_def distinct_remove1_removeAll removeAll_filter_not_eq eq_commute)
  also have "\<dots> = filter (\<lambda>x. key_of c x \<noteq> key_of c e) (list c)"
    using key_of_inj [OF assms(1)] assms(2) by (intro filter_cong refl) (auto dest: inj_onD)
  finally show ?thesis
    by (simp add: contents_def drop_key_def filter_map comp_def key_of_def)
qed

lemma removeElement_shape:
  assumes sh: "lru_shape c" and e: "e \<in> set (list c)"
  shows "lru_shape (removeElement vlen c e)"
proof -
  have d: "distinct (list c)" using sh by (simp add: lru_shape_def)
  have "map_of (items (removeElement vlen c e)) k = Some x \<longleftrightarrow>
      x \<in> set (remove1 e (list c)) \<and> key_of c x = k" for k x
    using shape_items [OF sh, of k x] key_of_inj [OF sh] e d
    by (auto dest: inj_onD)
  then show ?thesis
    using sh d unfolding lru_shape_def by (auto dest: notin_set_remove1)
qed

lemma removeElement_wf:
  assumes wf: "lru_wf vlen c" and e: "e \<in> set (list c)"
  shows "lru_wf vlen (removeElement vlen c e)"
proof -
  have sh: "lru_shape c" using wf by (simp add: lru_wf_def)
  have "map_of (contents c) (key_of c e) = Some (snd (deref c e))"
    using contents_lookup [OF sh] shape_items [OF sh, of "key_of c e" e] e by simp
  from total_size_drop [OF contents_distinct [OF sh] this, of vlen]
  have "total_size vlen (contents (removeElement vlen c e)) = usedBytes (removeElement vlen c e)"
    using wf by (simp add: removeElement_contents [OF sh e] removeElement_used lru_wf_def key_of_def)
  then show ?thesis
    using wf removeElement_shape [OF sh e, of vlen] by (auto simp: lru_wf_def)
qed

section \<open>Eviction\<close>

definition expired :: "(string \<Rightarrow> int option) \<Rightarrow> int \<Rightarrow> string \<Rightarrow> bool" where
  "expired ex now k = (case ex k of Some expTime \<Rightarrow> expTime < now | None \<Rightarrow> False)"

text \<open>The longest suffix that fits the budget (a budget of 0 is no budget).\<close>

fun shrink :: "('v \<Rightarrow> int) \<Rightarrow> int \<Rightarrow> (string \<times> 'v) list \<Rightarrow> (string \<times> 'v) list" where
  "shrink vlen mx [] = []"
| "shrink vlen mx (x # xs) = (if mx > 0 \<and> total_size vlen (x # xs) > mx then shrink vlen mx xs else x # xs)"

lemma shrink_fits: "0 < mx \<Longrightarrow> total_size vlen (shrink vlen mx xs) \<le> mx"
  by (induction xs) (auto simp: total_size_def)

lemma shrink_suffix: "\<exists>gone. xs = gone @ shrink vlen mx xs"
proof (induction xs)
  case (Cons x xs)
  then obtain gone where "xs = gone @ shrink vlen mx xs" by blast
  then have "x # xs = (x # gone) @ shrink vlen mx xs" by simp
  then show ?case by (metis append_Nil shrink.simps(2))
qed simp

lemma shrink_maximal:
  "xs = gone @ x # shrink vlen mx xs \<Longrightarrow> 0 < mx \<and> mx < total_size vlen (x # shrink vlen mx xs)"
proof (induction xs arbitrary: gone)
  case (Cons y ys)
  show ?case
  proof (cases "mx > 0 \<and> total_size vlen (y # ys) > mx")
    case True
    then have s: "shrink vlen mx (y # ys) = shrink vlen mx ys" by simp
    show ?thesis
    proof (cases gone)
      case Nil
      with Cons.prems s have "ys = shrink vlen mx ys" "x = y" by auto
      then show ?thesis using True s by metis
    next
      case (Cons g gs)
      with Cons.prems s have "ys = gs @ x # shrink vlen mx ys" by (metis append_Cons list.inject)
      from Cons.IH [OF this] s show ?thesis by simp
    qed
  next
    case False
    then have "shrink vlen mx (y # ys) = y # ys" by auto
    with Cons.prems have "y # ys = gone @ x # y # ys" by simp
    then have "length (y # ys) = length (gone @ x # y # ys)" by (rule arg_cong)
    then show ?thesis by simp
  qed
qed simp

lemma shrink_keep: "mx \<le> 0 \<or> total_size vlen xs \<le> mx \<Longrightarrow> shrink vlen mx xs = xs"
  by (cases xs) auto

lemma drop_key_filter: "drop_key k (filter P kvs) = filter (\<lambda>x. P x \<and> fst x \<noteq> k) kvs"
  by (simp add: drop_key_def)

definition evicting :: "('v \<Rightarrow> int) \<Rightarrow> 'v lruCache \<Rightarrow> 'v lruCache \<Rightarrow> bool" where
  "evicting vlen c c' \<longleftrightarrow> lru_wf vlen c' \<and> deref c' = deref c \<and> orphans c' = orphans c \<and>
     next_elem c' = next_elem c \<and> maxBytes c' = maxBytes c \<and> cb_set c' = cb_set c \<and>
     closeCh_closed c' = closeCh_closed c \<and>
     (\<forall>k. map_of (expires c') k = (if k \<in> fst ` set (contents c') then map_of (expires c) k else None)) \<and>
     (cb_set c \<longrightarrow> mset (calls c') + mset (contents c') = mset (calls c) + mset (contents c)) \<and>
     (\<not> cb_set c \<longrightarrow> calls c' = calls c)"

lemma wf_expires: "lru_wf vlen c \<Longrightarrow> map_of (expires c) k \<noteq> None \<Longrightarrow> k \<in> fst ` set (contents c)"
  using items_dom [of c] by (auto simp: lru_wf_def)

lemma evicting_refl: "lru_wf vlen c \<Longrightarrow> evicting vlen c c"
  using wf_expires [of vlen c] unfolding evicting_def by fastforce

lemma mset_drop_key:
  "distinct (map fst kvs) \<Longrightarrow> map_of kvs k = Some v \<Longrightarrow> add_mset (k, v) (mset (drop_key k kvs)) = mset kvs"
proof (induction kvs)
  case (Cons x kvs)
  show ?case
  proof (cases "fst x = k")
    case True
    then have "map_of kvs k = None" using Cons.prems(1) by (auto simp: map_of_eq_None_iff)
    from drop_key_None [OF this] have "drop_key k (x # kvs) = kvs" using True by (simp add: drop_key_def)
    then show ?thesis using Cons.prems(2) True by (cases x) auto
  next
    case False
    then have "drop_key k (x # kvs) = x # drop_key k kvs" by (simp add: drop_key_def)
    then show ?thesis using Cons False by (cases x) (auto simp: add_mset_commute)
  qed
qed simp

lemma removeElement_evicting:
  assumes wf: "lru_wf vlen c" and e: "e \<in> set (list c)"
  shows "evicting vlen c (removeElement vlen c e)"
proof -
  have sh: "lru_shape c" using wf by (simp add: lru_wf_def)
  have v: "map_of (contents c) (key_of c e) = Some (snd (deref c e))"
    using contents_lookup [OF sh] shape_items [OF sh, of "key_of c e" e] e by simp
  have "add_mset (deref c e) (mset (contents (removeElement vlen c e))) = mset (contents c)"
    using mset_drop_key [OF contents_distinct [OF sh] v]
    by (simp add: removeElement_contents [OF sh e] key_of_def)
  moreover have "map_of (expires (removeElement vlen c e)) k =
      (if k \<in> fst ` set (contents (removeElement vlen c e)) then map_of (expires c) k else None)" for k
    using wf_expires [OF wf, of k]
    by (cases "map_of (expires c) k") (auto simp: removeElement_contents [OF sh e] drop_key_def image_iff)
  ultimately show ?thesis
    using removeElement_wf [OF wf e] by (auto simp: evicting_def)
qed

lemma evicting_trans:
  assumes "evicting vlen c1 c2" and "evicting vlen c2 c3"
    and "fst ` set (contents c3) \<subseteq> fst ` set (contents c2)"
  shows "evicting vlen c1 c3"
  using assms unfolding evicting_def by (auto simp: subset_iff)

lemma filter_evicting:
  assumes "evicting vlen c c1" and "contents c1 = filter P (contents c)"
  shows "filter (\<lambda>x. Q (fst x) (expired (map_of (expires c1)) now (fst x))) (contents c1) =
    filter (\<lambda>x. P x \<and> Q (fst x) (expired (map_of (expires c)) now (fst x))) (contents c)"
proof -
  have "expired (map_of (expires c1)) now (fst x) = expired (map_of (expires c)) now (fst x)" if "x \<in> set (contents c1)" for x
    using assms(1) that by (simp add: evicting_def expired_def)
  then have "filter (\<lambda>x. Q (fst x) (expired (map_of (expires c1)) now (fst x))) (contents c1) =
      filter (\<lambda>x. Q (fst x) (expired (map_of (expires c)) now (fst x))) (contents c1)"
    by (intro filter_cong refl) simp
  then show ?thesis using assms(2) by simp
qed

text \<open>The visit of one key: the loop body of the walk over the expired keys.\<close>

lemma evict_expired_one:
  assumes wf: "lru_wf vlen c" and c1_def: "c1 = (case map_of (expires c) key of
      Some expTime \<Rightarrow> if expTime < now then
          (case map_of (items c) key of Some e \<Rightarrow> removeElement vlen c e | None \<Rightarrow> c) else c
    | None \<Rightarrow> c)"
  shows "evicting vlen c c1 \<and>
    contents c1 = filter (\<lambda>x. \<not> (fst x = key \<and> expired (map_of (expires c)) now (fst x))) (contents c)"
proof (cases "expired (map_of (expires c)) now key")
  case True
  have sh: "lru_shape c" using wf by (simp add: lru_wf_def)
  from True obtain t where t: "map_of (expires c) key = Some t" "t < now"
    by (auto simp: expired_def split: option.splits)
  then obtain e where e: "map_of (items c) key = Some e"
    using wf by (auto simp: lru_wf_def)
  then have el: "e \<in> set (list c)" "key_of c e = key" using shape_items [OF sh] by auto
  have "contents c1 = drop_key key (contents c)"
    using t e removeElement_contents [OF sh el(1), of vlen] el(2) by (simp add: c1_def)
  moreover have "drop_key key (contents c) =
      filter (\<lambda>x. \<not> (fst x = key \<and> expired (map_of (expires c)) now (fst x))) (contents c)"
    using True unfolding drop_key_def by (intro filter_cong refl) auto
  ultimately show ?thesis
    using t e removeElement_evicting [OF wf el(1)] by (simp add: c1_def)
next
  case False
  then have "c1 = c" by (auto simp: c1_def expired_def split: option.splits)
  moreover have "filter (\<lambda>x. \<not> (fst x = key \<and> expired (map_of (expires c)) now (fst x))) (contents c) = contents c"
    using False by (intro filter_True) auto
  ultimately show ?thesis using evicting_refl [OF wf] by simp
qed

lemma evict_expired_result:
  "lru_wf vlen c \<Longrightarrow> evicting vlen c (evict_expired vlen now ks c) \<and>
     contents (evict_expired vlen now ks c) =
       filter (\<lambda>x. \<not> (fst x \<in> set ks \<and> expired (map_of (expires c)) now (fst x))) (contents c)"
proof (induction ks arbitrary: c)
  case Nil
  then show ?case by (simp add: evicting_refl)
next
  case (Cons key ks)
  define c1 where "c1 = (case map_of (expires c) key of
      Some expTime \<Rightarrow> if expTime < now then
          (case map_of (items c) key of Some e \<Rightarrow> removeElement vlen c e | None \<Rightarrow> c) else c
    | None \<Rightarrow> c)"
  have c1: "evicting vlen c c1 \<and>
      contents c1 = filter (\<lambda>x. \<not> (fst x = key \<and> expired (map_of (expires c)) now (fst x))) (contents c)"
    by (rule evict_expired_one [OF Cons.prems c1_def])
  then have "lru_wf vlen c1" by (simp add: evicting_def)
  note IH = Cons.IH [OF this]
  have run: "evict_expired vlen now (key # ks) c = evict_expired vlen now ks c1"
    by (simp add: c1_def)
  have "contents (evict_expired vlen now ks c1) = filter (\<lambda>x. \<not> (fst x = key \<and> expired (map_of (expires c)) now (fst x)) \<and>
        \<not> (fst x \<in> set ks \<and> expired (map_of (expires c)) now (fst x))) (contents c)"
    using IH filter_evicting [OF conjunct1 [OF c1] conjunct2 [OF c1], where Q = "\<lambda>k x. \<not> (k \<in> set ks \<and> x)"]
    by simp
  then have "contents (evict_expired vlen now ks c1) =
      filter (\<lambda>x. \<not> (fst x \<in> set (key # ks) \<and> expired (map_of (expires c)) now (fst x))) (contents c)"
    by (simp) (intro filter_cong refl, auto)
  moreover have "evicting vlen c (evict_expired vlen now ks c1)"
    by (rule evicting_trans [OF conjunct1 [OF c1] conjunct1 [OF IH]]) (use IH in auto)
  ultimately show ?case unfolding run by simp
qed

lemma evict_size_result:
  "lru_wf vlen c \<Longrightarrow> evicting vlen c (evict_size vlen c) \<and>
     contents (evict_size vlen c) = shrink vlen (maxBytes c) (contents c)"
proof (induction vlen c rule: evict_size.induct)
  case (1 vlen c)
  have sh: "lru_shape c" and used: "usedBytes c = total_size vlen (contents c)"
    using "1.prems" by (simp_all add: lru_wf_def)
  show ?case
  proof (cases "maxBytes c > 0 \<and> usedBytes c > maxBytes c \<and> length (list c) > 0")
    case True
    then obtain e es where es: "list c = e # es" by (cases "list c") auto
    let ?c1 = "removeElement vlen c e"
    have el: "e \<in> set (list c)" by (simp add: es)
    have c1: "evicting vlen c ?c1" by (rule removeElement_evicting [OF "1.prems" el])
    then have "lru_wf vlen ?c1" by (simp add: evicting_def)
    note IH = "1.IH" [OF True, unfolded es list.sel, OF this]
    have run: "evict_size vlen c = evict_size vlen ?c1"
      using True by (subst evict_size.simps) (simp add: es)
    have "contents c = deref c e # contents ?c1"
      by (simp add: contents_def es)
    moreover from this have "shrink vlen (maxBytes c) (contents c) = shrink vlen (maxBytes c) (contents ?c1)"
      using True used by simp
    moreover have "evicting vlen c (evict_size vlen ?c1)"
      using IH shrink_suffix [of "contents ?c1" vlen "maxBytes ?c1"]
      by (intro evicting_trans [OF c1 conjunct1 [OF IH]]) (metis Un_iff image_mono set_append subsetI)
    ultimately show ?thesis using IH run by simp
  next
    case False
    then have run: "evict_size vlen c = c" by (subst evict_size.simps) auto
    have "maxBytes c \<le> 0 \<or> total_size vlen (contents c) \<le> maxBytes c \<or> contents c = []"
      using False used by (auto simp: contents_def)
    then have "shrink vlen (maxBytes c) (contents c) = contents c"
      using shrink_keep by fastforce
    with run evicting_refl [OF "1.prems"] show ?thesis by simp
  qed
qed

lemma evict_result:
  assumes wf: "lru_wf vlen c" and ord: "visits ord"
  shows "evicting vlen c (evict vlen now ord c)"
    and "contents (evict vlen now ord c) =
      shrink vlen (maxBytes c) (filter (\<lambda>x. \<not> expired (map_of (expires c)) now (fst x)) (contents c))"
proof -
  let ?ks = "ord (map fst (expires c))"
  let ?c1 = "evict_expired vlen now ?ks c"
  note r1 = evict_expired_result [OF wf, of now ?ks]
  then have wf1: "lru_wf vlen ?c1" by (simp add: evicting_def)
  note r2 = evict_size_result [OF wf1]
  have "fst ` set (contents (evict_size vlen ?c1)) \<subseteq> fst ` set (contents ?c1)"
    using r2 shrink_suffix [of "contents ?c1" vlen "maxBytes ?c1"] by (metis Un_iff image_mono set_append subsetI)
  from evicting_trans [OF conjunct1 [OF r1] conjunct1 [OF r2] this]
  show "evicting vlen c (evict vlen now ord c)" by (simp add: evict_def)
  have "k \<in> set ?ks" if "expired (map_of (expires c)) now k" for k
    using that visits_set [OF ord] keys_dom [of "expires c"] by (auto simp: expired_def split: option.splits)
  then have "contents ?c1 = filter (\<lambda>x. \<not> expired (map_of (expires c)) now (fst x)) (contents c)"
    using r1 by (metis (no_types, lifting) filter_cong)
  moreover have "maxBytes ?c1 = maxBytes c" using r1 by (simp add: evicting_def)
  ultimately show "contents (evict vlen now ord c) =
      shrink vlen (maxBytes c) (filter (\<lambda>x. \<not> expired (map_of (expires c)) now (fst x)) (contents c))"
    using r2 by (simp add: evict_def)
qed

section \<open>Delete, Get, Set\<close>

lemma wf_shape: "lru_wf vlen c \<Longrightarrow> lru_shape c"
  by (simp add: lru_wf_def)

lemma lru_Delete_effect:
  assumes wf: "lru_wf vlen c"
  shows "evicting vlen c (fst (lru_Delete vlen c key))"
    and "contents (fst (lru_Delete vlen c key)) = drop_key key (contents c)"
    and "snd (lru_Delete vlen c key) \<longleftrightarrow> map_of (contents c) key \<noteq> None"
proof -
  note sh = wf_shape [OF wf]
  have "evicting vlen c (fst (lru_Delete vlen c key)) \<and>
    contents (fst (lru_Delete vlen c key)) = drop_key key (contents c) \<and>
    (snd (lru_Delete vlen c key) \<longleftrightarrow> map_of (contents c) key \<noteq> None)"
  proof (cases "map_of (items c) key")
    case None
    then have "map_of (contents c) key = None" using contents_lookup [OF sh] by simp
    with None show ?thesis by (simp add: lru_Delete_def evicting_refl [OF wf] drop_key_None)
  next
    case (Some e)
    then have e: "e \<in> set (list c)" "key_of c e = key" using shape_items [OF sh] by auto
    from Some contents_lookup [OF sh] have "map_of (contents c) key \<noteq> None" by simp
    with Some e show ?thesis
      using removeElement_evicting [OF wf e(1)] removeElement_contents [OF sh e(1), of vlen]
      by (simp add: lru_Delete_def)
  qed
  then show "evicting vlen c (fst (lru_Delete vlen c key))"
    and "contents (fst (lru_Delete vlen c key)) = drop_key key (contents c)"
    and "snd (lru_Delete vlen c key) \<longleftrightarrow> map_of (contents c) key \<noteq> None" by auto
qed

lemma move_shape:
  assumes "lru_shape c" and "e \<in> set (list c)"
  shows "lru_shape (c\<lparr>list := remove1 e (list c) @ [e]\<rparr>)"
  using assms unfolding lru_shape_def by (auto simp: key_of_def deref_def)

lemma move_contents:
  assumes sh: "lru_shape c" and e: "e \<in> set (list c)"
  shows "contents (c\<lparr>list := remove1 e (list c) @ [e]\<rparr>) =
    drop_key (key_of c e) (contents c) @ [deref c e]"
  using removeElement_contents [OF sh e]
  by (simp add: contents_def deref_def) (simp add: contents_def deref_def [abs_def])

lemma total_size_append: "total_size vlen (xs @ ys) = total_size vlen xs + total_size vlen ys"
  by (simp add: total_size_def)

lemma deref_key: "deref c e = (key_of c e, snd (deref c e))"
  by (simp add: key_of_def)

lemma move_wf:
  assumes wf: "lru_wf vlen c" and e: "e \<in> set (list c)"
  shows "lru_wf vlen (c\<lparr>list := remove1 e (list c) @ [e]\<rparr>)"
proof -
  note sh = wf_shape [OF wf]
  have v: "map_of (contents c) (key_of c e) = Some (snd (deref c e))"
    using contents_lookup [OF sh] shape_items [OF sh, of "key_of c e" e] e by simp
  have "total_size vlen (contents (c\<lparr>list := remove1 e (list c) @ [e]\<rparr>)) = total_size vlen (contents c)"
    unfolding move_contents [OF sh e] total_size_append total_size_drop [OF contents_distinct [OF sh] v]
    using deref_key [of c e] by (simp add: total_size_def)
  with wf move_shape [OF sh e] show ?thesis by (simp add: lru_wf_def)
qed

text \<open>What \<open>Get\<close> finds, and where a hit moves the entry.\<close>

definition lru_find :: "'v lruCache \<Rightarrow> string \<Rightarrow> int \<Rightarrow> 'v option" where
  "lru_find c key now = (if expired (map_of (expires c)) now key then None else map_of (contents c) key)"

lemma read_cases:
  assumes "lru_shape c"
  shows "lru_Get_read c key now = (case map_of (items c) key of
      None \<Rightarrow> Miss
    | Some e \<Rightarrow> if expired (map_of (expires c)) now key then Expired else Hit e (snd (deref c e)))"
  by (simp add: lru_Get_read_def expired_def cong: option.case_cong)

lemma lru_Get_effect:
  assumes wf: "lru_wf vlen c"
  obtains c' where "lru_Get c key now = Some (c',
      (case lru_find c key now of Some v \<Rightarrow> (Some v, True) | None \<Rightarrow> (None, False)),
      if expired (map_of (expires c)) now key then Some key else None)"
    "lru_wf vlen c'" "expires c' = expires c" "items c' = items c" "calls c' = calls c"
    "maxBytes c' = maxBytes c"
    "contents c' = (case lru_find c key now of
        Some v \<Rightarrow> drop_key key (contents c) @ [(key, v)] | None \<Rightarrow> contents c)"
proof (cases "map_of (items c) key")
  case None
  note sh = wf_shape [OF wf]
  have "map_of (contents c) key = None" using None contents_lookup [OF sh] by simp
  moreover have "\<not> expired (map_of (expires c)) now key"
    using None wf by (auto simp: lru_wf_def expired_def split: option.splits)
  ultimately show ?thesis
    using None wf by (intro that [of c]) (simp_all add: lru_Get_def read_cases [OF sh] lru_find_def)
next
  case (Some e)
  note sh = wf_shape [OF wf]
  have e: "e \<in> set (list c)" "key_of c e = key" using shape_items [OF sh] Some by auto
  have v: "map_of (contents c) key = Some (snd (deref c e))" using Some contents_lookup [OF sh] by simp
  show ?thesis
  proof (cases "expired (map_of (expires c)) now key")
    case True
    then show ?thesis
      using Some v wf by (intro that [of c]) (simp_all add: lru_Get_def read_cases [OF sh] lru_find_def)
  next
    case False
    have "deref c e = (key, snd (deref c e))" using deref_key [of c e] e(2) by simp
    then show ?thesis
      using False Some v e move_wf [OF wf e(1)] move_contents [OF sh e(1)]
      by (intro that [of "c\<lparr>list := remove1 e (list c) @ [e]\<rparr>"])
        (simp_all add: lru_Get_def read_cases [OF sh] lru_find_def lru_Get_promote_def MoveToBack_def)
  qed
qed

text \<open>\<open>SetWithExpiration\<close> of a value: the expiry table before eviction, then the two paths.\<close>

definition new_expires :: "'v lruCache \<Rightarrow> string \<Rightarrow> int \<Rightarrow> int \<Rightarrow> string \<Rightarrow> int option" where
  "new_expires c key now d = (map_of (expires c))(key := if 0 < d then Some (now + d) else None)"

definition set_contents :: "('v \<Rightarrow> int) \<Rightarrow> int \<Rightarrow> int \<Rightarrow> 'v lruCache \<Rightarrow> string \<Rightarrow> 'v \<Rightarrow> int \<Rightarrow> (string \<times> 'v) list" where
  "set_contents vlen now now' c key v d =
     (if map_of (contents c) key \<noteq> None then drop_key key (contents c) @ [(key, v)]
      else shrink vlen (maxBytes c)
        (filter (\<lambda>x. \<not> expired (new_expires c key now d) now' (fst x)) (contents c @ [(key, v)])))"

lemma put_expires_wf:
  assumes "lru_shape c"
  shows "lru_shape (c\<lparr>expires := AList.update k t (expires c)\<rparr>)"
    and "lru_shape (c\<lparr>expires := AList.delete k (expires c)\<rparr>)"
  using assms by (auto simp: lru_shape_def key_of_def deref_def)

lemma write_elem:
  assumes sh: "lru_shape c" and e: "e \<in> set (list c)" and k: "k = key_of c e"
    and c'_def: "c' = c\<lparr>usedBytes := u, elems := (elems c)(e \<mapsto> (k, v))\<rparr>"
  shows "lru_shape c'" and "key_of c' = key_of c" and "deref c' e = (k, v)"
    and "drop_key k (contents c') = drop_key k (contents c)"
proof -
  show ke: "key_of c' = key_of c" by (auto simp: c'_def key_of_def deref_def fun_eq_iff k)
  then show "lru_shape c'" using sh unfolding lru_shape_def by (simp add: c'_def)
  show "deref c' e = (k, v)" by (simp add: c'_def deref_def)
  have "deref c' x = deref c x" if "key_of c x \<noteq> k" for x
    using that k by (auto simp: c'_def deref_def)
  then have "filter (\<lambda>x. fst x \<noteq> k) (map (deref c') xs) = filter (\<lambda>x. fst x \<noteq> k) (map (deref c) xs)" for xs
    using fun_cong [OF ke] by (induction xs) (auto simp: key_of_def)
  then show "drop_key k (contents c') = drop_key k (contents c)"
    by (simp add: drop_key_def contents_def) (simp add: c'_def)
qed

lemma lru_Set_update:
  assumes wf: "lru_wf vlen c" and ord: "visits ord" and old: "map_of (contents c) key \<noteq> None"
  obtains c' where "lru_SetWithExpiration vlen now now' ord c key (Some v) d = Some c'"
    "lru_wf vlen c'" "maxBytes c' = maxBytes c" "cb_set c' = cb_set c"
    "closeCh_closed c' = closeCh_closed c"
    "contents c' = set_contents vlen now now' c key v d"
    "map_of (expires c') = new_expires c key now d"
    "calls c' = calls c"
proof -
  note sh = wf_shape [OF wf]
  obtain e where it: "map_of (items c) key = Some e"
    using old contents_lookup [OF sh, of key] by auto
  then have e: "e \<in> set (list c)" "key_of c e = key" using shape_items [OF sh] by auto
  have v: "map_of (contents c) key = Some (snd (deref c e))" using it contents_lookup [OF sh] by simp
  let ?c1 = "if 0 < d then c\<lparr>expires := AList.update key (now + d) (expires c)\<rparr>
             else c\<lparr>expires := AList.delete key (expires c)\<rparr>"
  let ?c2 = "?c1\<lparr>usedBytes := usedBytes c + (vlen v - vlen (snd (deref c e))),
      elems := (elems ?c1)(e \<mapsto> (key, v))\<rparr>"
  let ?c3 = "?c2\<lparr>list := remove1 e (list ?c2) @ [e]\<rparr>"
  have c1: "lru_shape ?c1" "list ?c1 = list c" "key_of ?c1 = key_of c" "contents ?c1 = contents c"
    "items ?c1 = items c" "deref ?c1 = deref c" "map_of (expires ?c1) = new_expires c key now d"
    "elems ?c1 = elems c" "usedBytes ?c1 = usedBytes c"
    using put_expires_wf [OF sh] e
    by (auto simp: key_of_def deref_def contents_def new_expires_def fun_eq_iff)
  have "e \<in> set (list ?c1)" "key = key_of ?c1 e" using e by (simp_all only: c1)
  note w = write_elem [OF c1(1) this refl]
  have c2: "e \<in> set (list ?c2)" using e by auto
  have run: "lru_SetWithExpiration vlen now now' ord c key (Some v) d = Some ?c3"
    using it e by (simp add: lru_SetWithExpiration_def Let_def MoveToBack_def deref_def key_of_def)
  have cont: "contents ?c3 = drop_key key (contents c) @ [(key, v)]"
    using move_contents [OF w(1) c2] w(2-4) c1(3,4) e(2) by simp
  have "total_size vlen (contents ?c3) = usedBytes c + (vlen v - vlen (snd (deref c e)))"
    using total_size_drop [OF contents_distinct [OF sh] v, of vlen] wf
    unfolding cont by (simp add: total_size_append lru_wf_def) (simp add: total_size_def entry_size_def)
  then have "lru_wf vlen ?c3"
    using move_shape [OF w(1) c2] wf old it c1(5,7)
    by (auto simp: lru_wf_def new_expires_def split: if_splits)
  moreover have "map_of (expires ?c3) = new_expires c key now d" using c1(7) by simp
  ultimately show ?thesis
    using run cont old by (intro that [of ?c3]) (simp_all add: set_contents_def)
qed

definition push_elem :: "'v lruCache \<Rightarrow> string \<Rightarrow> 'v \<Rightarrow> int \<Rightarrow> 'v lruCache" where
  "push_elem c key v u = c\<lparr>elems := (elems c)(next_elem c \<mapsto> (key, v)), next_elem := next_elem c + 1,
     list := list c @ [next_elem c], items := AList.update key (next_elem c) (items c), usedBytes := u\<rparr>"

lemma push_elem_shape:
  assumes sh: "lru_shape c" and new: "map_of (items c) key = None"
  shows "contents (push_elem c key v u) = contents c @ [(key, v)]" and "lru_shape (push_elem c key v u)"
proof -
  let ?c = "push_elem c key v u"
  have old: "deref ?c e = deref c e" if "e \<in> set (list c)" for e
    using shape_bound [OF sh that] by (simp add: push_elem_def deref_def)
  have nw: "deref ?c (next_elem c) = (key, v)" by (simp add: push_elem_def deref_def)
  have ls: "list ?c = list c @ [next_elem c]" by (simp add: push_elem_def)
  show "contents ?c = contents c @ [(key, v)]" using old nw by (simp add: contents_def ls)
  have "map_of (items ?c) k = Some e \<longleftrightarrow> e \<in> set (list ?c) \<and> key_of ?c e = k" for k e
  proof (cases "e = next_elem c")
    case True
    have "map_of (items c) k \<noteq> Some e" using shape_items [OF sh] shape_bound [OF sh, of e] True by auto
    then show ?thesis using True nw by (auto simp: push_elem_def key_of_def)
  next
    case False
    then have "e \<in> set (list ?c) \<and> key_of ?c e = k \<longleftrightarrow> map_of (items c) k = Some e"
      using shape_items [OF sh, of k e] old by (auto simp: ls key_of_def)
    then show ?thesis using False new by (auto simp: push_elem_def)
  qed
  moreover have "next_elem c \<notin> set (list c)" "next_elem c \<notin> set (orphans c)"
    using sh by (auto simp: lru_shape_def)
  ultimately show "lru_shape ?c"
    using sh unfolding lru_shape_def by (auto simp: push_elem_def less_Suc_eq)
qed

lemma lru_Set_insert:
  assumes wf: "lru_wf vlen c" and ord: "visits ord" and new: "map_of (contents c) key = None"
  obtains c' where "lru_SetWithExpiration vlen now now' ord c key (Some v) d = Some c'"
    "lru_wf vlen c'" "maxBytes c' = maxBytes c" "cb_set c' = cb_set c"
    "closeCh_closed c' = closeCh_closed c"
    "contents c' = set_contents vlen now now' c key v d"
    "\<And>k. k \<in> fst ` set (contents c') \<Longrightarrow> map_of (expires c') k = new_expires c key now d k"
    "cb_set c \<Longrightarrow> mset (calls c') + mset (contents c') = add_mset (key, v) (mset (calls c) + mset (contents c))"
proof -
  note sh = wf_shape [OF wf]
  have it: "map_of (items c) key = None" using new contents_lookup [OF sh, of key] by simp
  let ?c1 = "if 0 < d then c\<lparr>expires := AList.update key (now + d) (expires c)\<rparr>
             else c\<lparr>expires := AList.delete key (expires c)\<rparr>"
  have c1: "lru_shape ?c1" "items ?c1 = items c" "contents ?c1 = contents c" "usedBytes ?c1 = usedBytes c"
    "maxBytes ?c1 = maxBytes c" "cb_set ?c1 = cb_set c" "calls ?c1 = calls c"
    "closeCh_closed ?c1 = closeCh_closed c" "map_of (expires ?c1) = new_expires c key now d"
    using put_expires_wf [OF sh] by (auto simp: contents_def deref_def new_expires_def fun_eq_iff)
  let ?c2 = "push_elem ?c1 key v (usedBytes ?c1 + (int (length key) + vlen v))"
  have it1: "map_of (items ?c1) key = None" using it c1(2) by simp
  have run: "lru_SetWithExpiration vlen now now' ord c key (Some v) d = Some (evict vlen now' ord ?c2)"
    using it by (simp add: lru_SetWithExpiration_def Let_def push_elem_def)
  note p = push_elem_shape [OF c1(1) it1, of v "usedBytes ?c1 + (int (length key) + vlen v)"]
  have f: "expires ?c2 = expires ?c1" "maxBytes ?c2 = maxBytes c" "cb_set ?c2 = cb_set c"
    "calls ?c2 = calls c" "closeCh_closed ?c2 = closeCh_closed c"
    "map_of (items ?c2) = (map_of (items c))(key \<mapsto> next_elem ?c1)"
    using c1 by (simp_all add: push_elem_def)
  have "usedBytes ?c2 = total_size vlen (contents ?c2)"
    using wf c1 p(1)
    by (simp add: total_size_append lru_wf_def push_elem_def) (simp add: total_size_def entry_size_def)
  then have wf2: "lru_wf vlen ?c2"
    using p(2) f(1,6) c1(9) wf by (auto simp: lru_wf_def new_expires_def split: if_splits)
  note ev = evict_result [OF wf2 ord, of now']
  have cont: "contents (evict vlen now' ord ?c2) = set_contents vlen now now' c key v d"
    unfolding ev(2) p(1) f c1(3,9) using new by (simp add: set_contents_def)
  from ev(1) show ?thesis
    unfolding evicting_def f p(1) c1(3,9)
    by (intro that [OF run]) (use cont in \<open>auto simp: add.commute\<close>)
qed

lemma lru_Set_effect:
  assumes wf: "lru_wf vlen c" and ord: "visits ord"
  obtains c' where "lru_SetWithExpiration vlen now now' ord c key (Some v) d = Some c'"
    "lru_wf vlen c'" "maxBytes c' = maxBytes c" "cb_set c' = cb_set c"
    "closeCh_closed c' = closeCh_closed c"
    "contents c' = set_contents vlen now now' c key v d"
    "\<And>k. k \<in> fst ` set (contents c') \<Longrightarrow> map_of (expires c') k = new_expires c key now d k"
proof (cases "map_of (contents c) key = None")
  case True
  show ?thesis by (rule lru_Set_insert [OF wf ord True, of now now' v d]) (rule that)
next
  case False
  show ?thesis
    by (rule lru_Set_update [OF wf ord False, of now now' v d]) (rule that, assumption+, erule fun_cong)
qed

section \<open>Clear, Keys, GetValue, Len, the cleanup tick\<close>

lemma lru_Clear_effect:
  assumes wf: "lru_wf vlen c"
  shows "lru_wf vlen (lru_Clear ord c)" and "contents (lru_Clear ord c) = []"
    and "maxBytes (lru_Clear ord c) = maxBytes c" and "closeCh_closed (lru_Clear ord c) = closeCh_closed c"
    and "expires (lru_Clear ord c) = []"
  using wf by (auto simp: lru_wf_def lru_shape_def lru_Clear_def Let_def contents_def total_size_def)

text \<open>\<open>Clear\<close> reports every entry once.\<close>

lemma shape_entries:
  assumes sh: "lru_shape c"
  shows "mset (map (\<lambda>k. deref c (the (map_of (items c) k))) (map fst (items c))) = mset (contents c)"
proof -
  have d: "distinct (map fst (items c))" using sh by (simp add: lru_shape_def map_ok_def)
  have "the (map_of (items c) (fst x)) = snd x" if "x \<in> set (items c)" for x
    using d that by (cases x) simp
  then have "map (\<lambda>k. deref c (the (map_of (items c) k))) (map fst (items c)) = map (deref c) (map snd (items c))"
    by simp
  moreover have "mset (map snd (items c)) = mset (list c)"
  proof (rule set_eq_iff_mset_eq_distinct [THEN iffD1])
    have "inj_on snd (set (items c))"
    proof (rule inj_onI)
      fix x y assume xy: "x \<in> set (items c)" "y \<in> set (items c)" "snd x = snd y"
      have "map_of (items c) (fst z) = Some (snd z)" if "z \<in> set (items c)" for z
        using that by (intro map_of_is_SomeI [OF d]) simp
      with xy have "map_of (items c) (fst x) = Some (snd x)" "map_of (items c) (fst y) = Some (snd y)" by blast+
      then have "key_of c (snd x) = fst x" "key_of c (snd y) = fst y" using shape_items [OF sh] by auto
      then show "x = y" using xy(3) by (simp add: prod_eq_iff)
    qed
    moreover have "distinct (items c)" using d by (simp add: distinct_map)
    ultimately show "distinct (map snd (items c))" by (simp add: distinct_map)
    show "distinct (list c)" using sh by (simp add: lru_shape_def)
    show "set (map snd (items c)) = set (list c)"
    proof (intro set_eqI iffI)
      fix e assume "e \<in> set (map snd (items c))"
      then obtain k where "(k, e) \<in> set (items c)" by auto
      then have "map_of (items c) k = Some e" using d by simp
      then show "e \<in> set (list c)" using shape_items [OF sh] by simp
    next
      fix e assume "e \<in> set (list c)"
      then have "map_of (items c) (key_of c e) = Some e" using shape_items [OF sh] by simp
      then show "e \<in> set (map snd (items c))" by (force dest: map_of_SomeD)
    qed
  qed
  ultimately show ?thesis unfolding contents_def by (metis mset_map)
qed

lemma lru_Clear_calls:
  assumes wf: "lru_wf vlen c" and ord: "visits ord" and cb: "cb_set c"
  shows "mset (calls (lru_Clear ord c)) = mset (calls c) + mset (contents c)"
proof -
  have "mset (ord (map fst (items c))) = mset (map fst (items c))" using ord by (simp add: visits_def)
  then have "mset (map (\<lambda>k. deref c (the (map_of (items c) k))) (ord (map fst (items c)))) = mset (contents c)"
    using shape_entries [OF wf_shape [OF wf]] by (metis mset_map)
  with cb show ?thesis by (simp add: lru_Clear_def Let_def)
qed

lemma lru_Keys_value:
  assumes "lru_shape c" and "visits ord"
  shows "distinct (lru_Keys ord c)" and "set (lru_Keys ord c) = fst ` set (contents c)"
  using assms items_dom [OF assms(1)] keys_dom [of "items c"]
  by (simp_all add: lru_Keys_def visits_set visits_distinct lru_shape_def map_ok_def)

lemma lru_Len_value: "lru_Len c = length (contents c)"
  by (simp add: lru_Len_def contents_def)

lemma lru_GetValue_value:
  assumes "lru_shape c"
  shows "lru_GetValue c key now = (case lru_find c key now of Some v \<Rightarrow> (Some v, True) | None \<Rightarrow> (None, False))"
  using contents_lookup [OF assms, of key]
  by (auto simp: lru_GetValue_def lru_find_def expired_def split: option.split)

lemma lru_tick_effect:
  assumes wf: "lru_wf vlen c" and ord: "visits ord"
  shows "evicting vlen c (lru_tick vlen now ord c)"
    and "contents (lru_tick vlen now ord c) = (if closeCh_closed c then contents c else
      shrink vlen (maxBytes c) (filter (\<lambda>x. \<not> expired (map_of (expires c)) now (fst x)) (contents c)))"
  using evict_result [OF assms] evicting_refl [OF wf] by (simp_all add: lru_tick_def)

end
