(* ===== verification/LruRuns.thy ===== *)
theory LruRuns
  imports LruSpec
begin

text \<open>
  The concurrent runs of \<open>lruCache\<close>. Its operations hold the lock \<open>mu\<close>, except that \<open>Get\<close> releases the
  read lock before it takes the write lock to move the entry, and that an expired \<open>Get\<close> spawns
  a \<open>Delete\<close>. A state is the store together with the \<open>Get\<close>s that are between their two
  critical sections (key and element) and the spawned deletions not yet run; each step is one
  critical section. The flag \<open>quiet\<close> restricts \<open>Clear\<close> to moments where no \<open>Get\<close> is in between.
\<close>

record 'v lru_sys =
  store :: "'v lruCache"
  readers :: "(string \<times> nat) list"
  deleters :: "string list"

inductive lru_step :: "('v \<Rightarrow> int) \<Rightarrow> bool \<Rightarrow> 'v lru_sys \<Rightarrow> 'v lru_sys \<Rightarrow> bool"
  for vlen :: "'v \<Rightarrow> int" and quiet :: bool
where
  read: "lru_Get_read (store s) key now = Hit e v \<Longrightarrow>
    lru_step vlen quiet s (s\<lparr>readers := (key, e) # readers s\<rparr>)"
| read_expired: "lru_Get_read (store s) key now = Expired \<Longrightarrow>
    lru_step vlen quiet s (s\<lparr>deleters := key # deleters s\<rparr>)"
| promote: "(key, e) \<in> set (readers s) \<Longrightarrow> lru_Get_promote (store s) key e = Some c \<Longrightarrow>
    lru_step vlen quiet s (s\<lparr>store := c, readers := remove1 (key, e) (readers s)\<rparr>)"
| spawned: "key \<in> set (deleters s) \<Longrightarrow>
    lru_step vlen quiet s (s\<lparr>store := fst (lru_Delete vlen (store s) key), deleters := remove1 key (deleters s)\<rparr>)"
| set_key: "visits ord \<Longrightarrow> lru_SetWithExpiration vlen now now' ord (store s) key val d = Some c \<Longrightarrow>
    lru_step vlen quiet s (s\<lparr>store := c\<rparr>)"
| delete_key: "lru_step vlen quiet s (s\<lparr>store := fst (lru_Delete vlen (store s) key)\<rparr>)"
| clear: "(quiet \<Longrightarrow> readers s = []) \<Longrightarrow> visits ord \<Longrightarrow>
    lru_step vlen quiet s (s\<lparr>store := lru_Clear ord (store s)\<rparr>)"
| tick: "visits ord \<Longrightarrow> lru_step vlen quiet s (s\<lparr>store := lru_tick vlen now ord (store s)\<rparr>)"
| close: "lru_Close (store s) = Some c \<Longrightarrow> lru_step vlen quiet s (s\<lparr>store := c\<rparr>)"

definition lru_start :: "Options \<Rightarrow> 'v lru_sys" where
  "lru_start opts = \<lparr>store = newLRUCache opts, readers = [], deleters = []\<rparr>"

definition lru_run :: "('v \<Rightarrow> int) \<Rightarrow> bool \<Rightarrow> Options \<Rightarrow> 'v lru_sys \<Rightarrow> bool" where
  "lru_run vlen quiet opts = (lru_step vlen quiet)\<^sup>*\<^sup>* (lru_start opts)"

lemma wf_newLRUCache: "lru_wf vlen (newLRUCache opts)"
  by (simp add: newLRUCache_def lru_wf_def lru_shape_def contents_def total_size_def)

lemma maxBytes_newLRUCache: "maxBytes (newLRUCache opts) = MaxBytes opts"
  by (simp add: newLRUCache_def)

lemma promote_cases:
  assumes "lru_Get_promote c key e = Some c'"
  shows "c' = c \<or> e \<in> set (list c) \<and> c' = c\<lparr>list := remove1 e (list c) @ [e]\<rparr>"
  using assms by (auto simp: lru_Get_promote_def MoveToBack_def split: if_splits)

lemma promote_wf: "lru_wf vlen c \<Longrightarrow> lru_Get_promote c key e = Some c' \<Longrightarrow> lru_wf vlen c'"
  by (drule promote_cases) (auto intro: move_wf)

lemma evict_expired_frame:
  "orphans (evict_expired vlen now ks c) = orphans c \<and> next_elem (evict_expired vlen now ks c) = next_elem c"
  by (induction ks arbitrary: c) (auto split: option.split)

lemma evict_size_frame: "orphans (evict_size vlen c) = orphans c \<and> next_elem (evict_size vlen c) = next_elem c"
proof (induction vlen c rule: evict_size.induct)
  case (1 vlen c)
  then show ?case by (simp add: evict_size.simps [of vlen c])
qed

lemma close_frame [simp]:
  "contents (c\<lparr>closeCh_closed := b\<rparr>) = contents c" "lru_shape (c\<lparr>closeCh_closed := b\<rparr>) = lru_shape c"
  by (simp_all add: contents_def deref_def [abs_def] lru_shape_def key_of_def)

lemma set_wf:
  assumes "lru_wf vlen c" and "visits ord" and "lru_SetWithExpiration vlen now now' ord c key val d = Some c'"
  shows "lru_wf vlen c' \<and> orphans c' = orphans c \<and> next_elem c \<le> next_elem c' \<and> maxBytes c' = maxBytes c"
proof -
  have fr: "orphans c' = orphans c \<and> next_elem c \<le> next_elem c'"
    using assms(3)
    by (auto simp: lru_SetWithExpiration_def Let_def MoveToBack_def lru_Delete_def evict_def
        evict_expired_frame evict_size_frame split: option.splits if_splits)
  have "lru_wf vlen c' \<and> maxBytes c' = maxBytes c"
  proof (cases val)
    case None
    then show ?thesis
      using assms lru_Delete_effect(1) [OF assms(1), of key]
      by (auto simp: lru_SetWithExpiration_def evicting_def)
  next
    case (Some v)
    show ?thesis
      by (rule lru_Set_effect [OF assms(1,2), of now now' key v d]) (use assms(3) Some in auto)
  qed
  with fr show ?thesis by blast
qed

lemma step_wf:
  assumes "lru_step vlen quiet s t" and wf: "lru_wf vlen (store s)"
  shows "lru_wf vlen (store t) \<and> maxBytes (store t) = maxBytes (store s)"
  using assms(1)
proof cases
  case (promote key e c)
  then show ?thesis using promote_wf [OF wf] promote_cases by fastforce
next
  case (set_key ord now now' key val d c)
  then show ?thesis using set_wf [OF wf] by simp
next
  case (spawned key)
  then show ?thesis using lru_Delete_effect(1) [OF wf, of key] by (simp add: evicting_def)
next
  case (delete_key key)
  then show ?thesis using lru_Delete_effect(1) [OF wf, of key] by (simp add: evicting_def)
next
  case (clear ord)
  then show ?thesis using lru_Clear_effect [OF wf] by simp
next
  case (tick ord now)
  then show ?thesis using lru_tick_effect(1) [OF wf, of ord now] by (simp add: evicting_def)
next
  case (close c)
  then have "t = s\<lparr>store := store s\<lparr>closeCh_closed := True\<rparr>\<rparr>" by (auto simp: lru_Close_def split: if_splits)
  then show ?thesis using wf by (simp add: lru_wf_def)
qed (use wf in simp_all)

lemma run_wf: "lru_run vlen quiet opts s \<Longrightarrow> lru_wf vlen (store s) \<and> maxBytes (store s) = MaxBytes opts"
  unfolding lru_run_def
proof (induction rule: rtranclp_induct)
  case base
  then show ?case using wf_newLRUCache by (auto simp: lru_start_def maxBytes_newLRUCache)
next
  case (step s t)
  then show ?case using step_wf by fastforce
qed

definition readers_ok :: "'v lru_sys \<Rightarrow> bool" where
  "readers_ok s \<longleftrightarrow> (\<forall>(key, e) \<in> set (readers s). e < next_elem (store s) \<and> e \<notin> set (orphans (store s)))"

lemma step_readers:
  assumes "lru_step vlen True s t" and wf: "lru_wf vlen (store s)" and ok: "readers_ok s"
  shows "readers_ok t"
  using assms(1)
proof cases
  case (read key now e v)
  note sh = wf_shape [OF wf]
  have "e \<in> set (list (store s))"
    using read(2) shape_items [OF sh, of key] by (auto simp: read_cases [OF sh] split: option.splits if_splits)
  then have "e < next_elem (store s)" "e \<notin> set (orphans (store s))" using sh by (auto simp: lru_shape_def)
  then show ?thesis using ok read by (auto simp: readers_ok_def)
next
  case (promote key e c)
  then have "next_elem c = next_elem (store s)" "orphans c = orphans (store s)"
    by (auto dest!: promote_cases)
  then show ?thesis using promote ok set_remove1_subset [of "(key, e)" "readers s"]
    by (auto simp: readers_ok_def)
next
  case (set_key ord now now' key val d c)
  then show ?thesis using set_wf [OF wf set_key(2,3)] ok by (fastforce simp: readers_ok_def)
next
  case (spawned key)
  then show ?thesis using lru_Delete_effect(1) [OF wf, of key] ok by (auto simp: evicting_def readers_ok_def)
next
  case (delete_key key)
  then show ?thesis using lru_Delete_effect(1) [OF wf, of key] ok by (auto simp: evicting_def readers_ok_def)
next
  case (clear ord)
  then show ?thesis by (simp add: readers_ok_def)
next
  case (tick ord now)
  then show ?thesis using lru_tick_effect(1) [OF wf, of ord now] ok by (auto simp: evicting_def readers_ok_def)
next
  case (close c)
  then show ?thesis using ok by (auto simp: lru_Close_def readers_ok_def split: if_splits)
qed (use ok in \<open>auto simp: readers_ok_def\<close>)

lemma run_readers: "lru_run vlen True opts s \<Longrightarrow> readers_ok s"
  unfolding lru_run_def
proof (induction rule: rtranclp_induct)
  case base
  then show ?case by (simp add: lru_start_def readers_ok_def)
next
  case (step s t)
  then show ?case using step_readers run_wf [of vlen True opts s] unfolding lru_run_def by blast
qed

lemma promote_total: "readers_ok s \<Longrightarrow> (key, e) \<in> set (readers s) \<Longrightarrow> lru_Get_promote (store s) key e \<noteq> None"
  by (auto simp: readers_ok_def lru_Get_promote_def MoveToBack_def)

end
