(* ===== verification/LruProps.thy ===== *)
theory LruProps
  imports LruRuns
begin

text \<open>
  The properties of \<open>lruCache\<close>: the invariant of all its concurrent runs, the eviction policy,
  what a \<open>Get\<close> finds after a \<open>Set\<close>, the callback, and three behaviours of the code that its
  comments do not announce.
\<close>

section \<open>Runs\<close>

lemma run_start: "lru_run vlen quiet opts (lru_start opts)"
  by (simp add: lru_run_def)

lemma run_step: "lru_run vlen quiet opts s \<Longrightarrow> lru_step vlen quiet s t \<Longrightarrow> lru_run vlen quiet opts t"
  by (simp add: lru_run_def rtranclp.rtrancl_into_rtrancl)

lemmas lru_eval = lru_SetWithExpiration_def evict_def evict_size.simps deref_def removeElement_def
  Let_def newLRUCache_def NewOptions_def MoveToBack_def

definition small_opts :: Options where
  "small_opts = NewOptions\<lparr>MaxBytes := 8\<rparr>"

text \<open>The store after \<open>Set("k", 3)\<close> on an empty store of 8 bytes, sizes being the values.\<close>

definition one_entry :: "int \<Rightarrow> (string, int) gomap \<Rightarrow> nat list \<Rightarrow> nat list \<Rightarrow> int lruCache" where
  "one_entry v ex es orph = \<lparr>list = es, orphans = orph, elems = Map.empty(0 \<mapsto> (''k'', v)), next_elem = 1,
     items = (if es = [] then [] else [(''k'', 0)]), expires = ex, maxBytes = 8,
     usedBytes = (if es = [] then 0 else 1 + v),
     cb_set = False, calls = [], cleanupEvery = minute, closeCh_closed = False\<rparr>"

lemma first_set:
  "lru_SetWithExpiration id 0 0 id (newLRUCache small_opts) ''k'' (Some 3) d =
    Some (one_entry 3 (if 0 < d then [(''k'', d)] else []) [0] [])"
  by (simp add: lru_eval small_opts_def one_entry_def)

lemma run_first:
  "lru_run id quiet small_opts
     \<lparr>store = one_entry 3 (if 0 < d then [(''k'', d)] else []) [0] [], readers = [], deleters = []\<rparr>"
proof -
  have "lru_step id quiet (lru_start small_opts) ((lru_start small_opts)
      \<lparr>store := one_entry 3 (if 0 < d then [(''k'', d)] else []) [0] []\<rparr>)"
    by (rule lru_step.set_key [OF visits_id(1), where now = 0 and now' = 0 and key = "''k''" and val = "Some 3" and d = d])
      (simp only: lru_start_def lru_sys.simps first_set)
  from run_step [OF run_start this] show ?thesis by (simp add: lru_start_def)
qed



section \<open>Eviction\<close>

text \<open>C27: Setting a new key in a store with a byte budget evicts the expired entries and then, from
  the least recently used end, exactly as many entries as needed: afterwards the budget holds, and
  keeping one entry more would break it.\<close>
theorem lru_Set_evicts:
  assumes "lru_wf vlen c" and "visits ord" and "map_of (contents c) key = None" and "0 < maxBytes c"
    and "lru_SetWithExpiration vlen now now' ord c key (Some v) d = Some c'"
  shows "usedBytes c' \<le> maxBytes c' \<and>
    (\<exists>gone. filter (\<lambda>x. \<not> expired (new_expires c key now d) now' (fst x)) (contents c @ [(key, v)]) =
        gone @ contents c' \<and>
      (gone \<noteq> [] \<longrightarrow> maxBytes c < total_size vlen (last gone # contents c')))"
proof -
  let ?xs = "filter (\<lambda>x. \<not> expired (new_expires c key now d) now' (fst x)) (contents c @ [(key, v)])"
  have c': "lru_wf vlen c'" "maxBytes c' = maxBytes c" "contents c' = shrink vlen (maxBytes c) ?xs"
    by (rule lru_Set_effect [OF assms(1,2), of now now' key v d],
        use assms(3,5) in \<open>simp add: set_contents_def\<close>)+
  have "usedBytes c' \<le> maxBytes c'"
    using c' shrink_fits [OF assms(4), of vlen ?xs] by (simp add: lru_wf_def)
  moreover obtain gone where gone: "?xs = gone @ contents c'"
    using shrink_suffix [of ?xs vlen "maxBytes c"] c'(3) by metis
  moreover have "maxBytes c < total_size vlen (last gone # contents c')" if "gone \<noteq> []"
  proof -
    have "?xs = butlast gone @ last gone # shrink vlen (maxBytes c) ?xs"
      using gone that c'(3) by (metis append.assoc append_Cons append_Nil append_butlast_last_id)
    from shrink_maximal [OF this] show ?thesis using c'(3) by simp
  qed
  ultimately show ?thesis by blast
qed

lemma visits_rev: "visits rev"
  by (simp add: visits_def)

lemma one_entry_wf: "lru_wf id (one_entry 3 [] [0] [])"
  using run_wf [OF run_first [of True 0]] by simp

lemma one_entry_contents: "contents (one_entry v ex [0] orph) = [(''k'', v)]"
  by (simp add: contents_def deref_def one_entry_def)

definition after_second :: "int lruCache" where
  "after_second = \<lparr>list = [1], orphans = [], elems = Map.empty(0 \<mapsto> (''k'', 3), 1 \<mapsto> (''j'', 6)),
     next_elem = 2, items = [(''j'', 1)], expires = [], maxBytes = 8, usedBytes = 7, cb_set = False,
     calls = [], cleanupEvery = minute, closeCh_closed = False\<rparr>"

lemma second_set:
  "lru_SetWithExpiration id 0 0 rev (one_entry 3 [] [0] []) ''j'' (Some 6) 0 = Some after_second"
  by (simp add: lru_eval one_entry_def after_second_def)

theorem lru_Set_evicts_witness: "usedBytes after_second \<le> maxBytes after_second"
proof -
  have "map_of (contents (one_entry 3 [] [0] [])) ''j'' = None" "0 < maxBytes (one_entry 3 [] [0] [])"
    by (simp_all add: one_entry_contents) (simp add: one_entry_def)
  from lru_Set_evicts [OF one_entry_wf visits_rev this second_set] show ?thesis by blast
qed

text \<open>A value that fits the budget and has not expired is found by the next Get of its key, and the
  hit makes it the most recently used entry.\<close>
theorem lru_Set_Get:
  assumes "lru_wf vlen c" and "visits ord"
    and "maxBytes c \<le> 0 \<or> entry_size vlen (key, v) \<le> maxBytes c"
    and "d \<le> 0 \<or> now' \<le> now + d" and "d \<le> 0 \<or> now'' \<le> now + d"
    and "lru_SetWithExpiration vlen now now' ord c key (Some v) d = Some c'"
  shows "\<exists>c''. lru_Get c' key now'' = Some (c'', (Some v, True), None) \<and> last (contents c'') = (key, v)"
proof -
  have c': "lru_wf vlen c'" "contents c' = set_contents vlen now now' c key v d"
    "\<And>k. k \<in> fst ` set (contents c') \<Longrightarrow> map_of (expires c') k = new_expires c key now d k"
    by (rule lru_Set_effect [OF assms(1,2), of now now' key v d], use assms(6) in simp)+
  have fresh: "\<not> expired (new_expires c key now d) t key" if "d \<le> 0 \<or> t \<le> now + d" for t
    using that by (auto simp: expired_def new_expires_def)
  have "\<exists>ys. contents c' = ys @ [(key, v)]"
  proof (cases "map_of (contents c) key = None")
    case True
    have keep: "\<exists>ys. shrink vlen mx (xs @ [(key, v)]) = ys @ [(key, v)]"
      if "mx \<le> 0 \<or> entry_size vlen (key, v) \<le> mx" for mx xs
      using that by (induction xs) (auto simp: total_size_def)
    show ?thesis
      using True keep [OF assms(3)] fresh [OF assms(4)] by (simp add: c'(2) set_contents_def)
  qed (simp add: c'(2) set_contents_def)
  then obtain ys where ys: "contents c' = ys @ [(key, v)]" by blast
  have "(key, v) \<in> set (contents c')" by (simp add: ys)
  then have "map_of (contents c') key = Some v"
    by (rule map_of_is_SomeI [OF contents_distinct [OF wf_shape [OF c'(1)]]])
  moreover have "expired (map_of (expires c')) now'' key = expired (new_expires c key now d) now'' key"
    using c'(3) [of key] ys by (simp add: expired_def)
  ultimately have found: "lru_find c' key now'' = Some v" "\<not> expired (map_of (expires c')) now'' key"
    using fresh [OF assms(5)] by (simp_all add: lru_find_def)
  show ?thesis
    by (rule lru_Get_effect [OF c'(1), of key now'']) (use found in simp)
qed

theorem lru_Set_Get_witness:
  "\<exists>c''. lru_Get after_second ''j'' 0 = Some (c'', (Some 6, True), None) \<and> last (contents c'') = (''j'', 6)"
proof -
  have "maxBytes (one_entry 3 [] [0] []) \<le> 0 \<or> entry_size id (''j'', 6) \<le> maxBytes (one_entry 3 [] [0] [])"
    by (simp add: one_entry_def entry_size_def)
  then show ?thesis
    using lru_Set_Get [OF one_entry_wf visits_rev _ _ _ second_set, of 0] by simp
qed

section \<open>The eviction callback\<close>

text \<open>With a callback set, every entry that a Delete, a cleanup tick, a Clear or the eviction behind
  the insertion of a new key takes out of the store is reported to it exactly once: the reported
  entries together with those still stored are the same multiset before and after.\<close>
theorem lru_callback_once:
  assumes "lru_wf vlen c" and "visits ord" and "cb_set c"
  shows "mset (calls (fst (lru_Delete vlen c key))) + mset (contents (fst (lru_Delete vlen c key))) =
      mset (calls c) + mset (contents c) \<and>
    mset (calls (lru_tick vlen now ord c)) + mset (contents (lru_tick vlen now ord c)) =
      mset (calls c) + mset (contents c) \<and>
    mset (calls (lru_Clear ord c)) + mset (contents (lru_Clear ord c)) =
      mset (calls c) + mset (contents c) \<and>
    (map_of (contents c) key = None \<longrightarrow>
      lru_SetWithExpiration vlen now now' ord c key (Some v) d = Some c' \<longrightarrow>
      mset (calls c') + mset (contents c') = add_mset (key, v) (mset (calls c) + mset (contents c)))"
proof (intro conjI impI)
  show "mset (calls (fst (lru_Delete vlen c key))) + mset (contents (fst (lru_Delete vlen c key))) =
      mset (calls c) + mset (contents c)"
    using lru_Delete_effect(1) [OF assms(1), of key] assms(3) by (simp add: evicting_def)
  show "mset (calls (lru_tick vlen now ord c)) + mset (contents (lru_tick vlen now ord c)) =
      mset (calls c) + mset (contents c)"
    using lru_tick_effect(1) [OF assms(1,2), of now] assms(3) by (simp add: evicting_def)
  show "mset (calls (lru_Clear ord c)) + mset (contents (lru_Clear ord c)) =
      mset (calls c) + mset (contents c)"
    using lru_Clear_effect(2) [OF assms(1), of ord] lru_Clear_calls [OF assms] by simp
  assume new: "map_of (contents c) key = None"
    and run: "lru_SetWithExpiration vlen now now' ord c key (Some v) d = Some c'"
  show "mset (calls c') + mset (contents c') = add_mset (key, v) (mset (calls c) + mset (contents c))"
    by (rule lru_Set_insert [OF assms(1,2) new, of now now' v d]) (use run assms(3) in simp)
qed

theorem lru_callback_once_witness:
  "mset (calls (fst (lru_Delete id ((one_entry 3 [] [0] [])\<lparr>cb_set := True\<rparr>) ''k''))) +
   mset (contents (fst (lru_Delete id ((one_entry 3 [] [0] [])\<lparr>cb_set := True\<rparr>) ''k''))) = {#(''k'', 3)#}"
proof -
  let ?c = "(one_entry 3 [] [0] [])\<lparr>cb_set := True\<rparr>"
  have "lru_wf id ?c" "cb_set ?c"
    by (simp_all add: lru_wf_def lru_shape_def one_entry_def contents_def deref_def key_of_def total_size_def
        entry_size_def map_ok_def)
  from lru_callback_once [OF this(1) visits_rev this(2), of "''k''"] show ?thesis
    by (simp add: one_entry_def contents_def deref_def)
qed

section \<open>Between the two critical sections of Get\<close>

text \<open>If Clear never runs while a Get is between its read lock and its write lock, the list
  operation a Get performs under the write lock always acts on a list element of this list or on
  one that was removed from it: it cannot damage the list.\<close>
theorem lru_promote_safe:
  assumes "lru_run vlen True opts s" and "(key, e) \<in> set (readers s)"
  shows "\<exists>c. lru_Get_promote (store s) key e = Some c \<and> lru_wf vlen c \<and> mset (contents c) = mset (contents (store s))"
proof -
  have wf: "lru_wf vlen (store s)" using run_wf [OF assms(1)] by simp
  note sh = wf_shape [OF wf]
  obtain c where c: "lru_Get_promote (store s) key e = Some c"
    using promote_total [OF run_readers [OF assms(1)] assms(2)] by blast
  have "mset (contents c) = mset (contents (store s))"
    using promote_cases [OF c]
  proof
    assume p: "e \<in> set (list (store s)) \<and> c = store s\<lparr>list := remove1 e (list (store s)) @ [e]\<rparr>"
    then have "mset (list c) = mset (list (store s))" "deref c = deref (store s)"
      by (simp_all add: deref_def [abs_def])
    then show ?thesis by (simp add: contents_def)
  qed simp
  with c promote_wf [OF wf c] show ?thesis by blast
qed

lemma run_read:
  "lru_run id quiet small_opts
     \<lparr>store = one_entry 3 [] [0] [], readers = [(''k'', 0)], deleters = []\<rparr>"
proof -
  let ?s = "\<lparr>store = one_entry 3 [] [0] [], readers = [], deleters = []\<rparr>"
  have "lru_Get_read (lru_sys.store ?s) ''k'' 0 = Hit 0 3"
    by (simp add: lru_Get_read_def one_entry_def deref_def)
  then have "lru_step id quiet ?s (?s\<lparr>readers := [(''k'', 0)]\<rparr>)"
    using lru_step.read [of ?s "''k''" 0 0 3 id quiet] by simp
  moreover have "lru_run id quiet small_opts ?s" using run_first [of quiet 0] by simp
  ultimately show ?thesis using run_step by fastforce
qed

theorem lru_promote_safe_witness:
  "\<exists>c. lru_Get_promote (one_entry 3 [] [0] []) ''k'' 0 = Some c \<and> lru_wf id c"
  using lru_promote_safe [OF run_read, of "''k''" 0] by auto

text \<open>Without that restriction the list can be damaged: after Set, the read section of a Get,
  Clear and another Set of the same key, the Get's MoveToBack receives an element that Clear
  forgot, and links it into the ring of the new list.\<close>
theorem lru_Clear_race:
  "\<exists>s key e. lru_run (\<lambda>n. n) False small_opts s \<and> (key, e) \<in> set (readers s) \<and>
     lru_Get_promote (store s) key e = None"
proof -
  have id: "(\<lambda>n. n) = (id :: int \<Rightarrow> int)" by (simp add: fun_eq_iff)
  let ?s1 = "\<lparr>store = one_entry 3 [] [0] [], readers = [(''k'', 0)], deleters = []\<rparr>"
  let ?s2 = "\<lparr>store = one_entry 3 [] [] [0], readers = [(''k'', 0)], deleters = []\<rparr>"
  have "lru_step id False ?s1 ?s2"
    using lru_step.clear [of False ?s1 id id] by (simp add: visits_id lru_Clear_def Let_def one_entry_def)
  from run_step [OF run_read this] have r2: "lru_run id False small_opts ?s2" .
  obtain c where c: "lru_SetWithExpiration id 0 0 id (one_entry 3 [] [] [0]) ''k'' (Some 3) 0 = Some c"
      "orphans c = [0]" "list c = [1]" "map_of (items c) ''k'' = Some 1"
    by (simp add: lru_eval one_entry_def)
  let ?s3 = "\<lparr>store = c, readers = [(''k'', 0)], deleters = []\<rparr>"
  have "lru_step id False ?s2 ?s3"
    using lru_step.set_key [OF visits_id(1), of id 0 0 ?s2 "''k''" "Some 3" 0 c False] c(1) by simp
  from run_step [OF r2 this] have "lru_run id False small_opts ?s3" .
  moreover have "lru_Get_promote c ''k'' 0 = None"
    using c by (simp add: lru_Get_promote_def MoveToBack_def)
  ultimately show ?thesis unfolding id by (intro exI [of _ ?s3] exI [of _ "''k''"] exI [of _ 0]) simp
qed

text \<open>A Get that finds an expired entry spawns a Delete of the key, not of the entry: a value set
  after that Get and never expired can be deleted by it.\<close>
theorem lru_fresh_value_deleted:
  "\<exists>s s'. lru_run (\<lambda>n. n) True small_opts s \<and> lru_GetValue (store s) ''k'' 20 = (Some 4, True) \<and>
     expires (store s) = [] \<and>
     lru_step (\<lambda>n. n) True s s' \<and> deleters s = [''k''] \<and> deleters s' = [] \<and>
     lru_GetValue (store s') ''k'' 20 = (None, False)"
proof -
  have id: "(\<lambda>n. n) = (id :: int \<Rightarrow> int)" by (simp add: fun_eq_iff)
  let ?s0 = "\<lparr>store = one_entry 3 [(''k'', 5)] [0] [], readers = [], deleters = []\<rparr>"
  let ?s1 = "?s0\<lparr>deleters := [''k'']\<rparr>"
  let ?s2 = "?s1\<lparr>store := one_entry 4 [] [0] []\<rparr>"
  let ?s3 = "?s2\<lparr>store := fst (lru_Delete id (one_entry 4 [] [0] []) ''k''), deleters := []\<rparr>"
  have r0: "lru_run id True small_opts ?s0" using run_first [of True 5] by simp
  have "lru_step id True ?s0 ?s1"
    using lru_step.read_expired [of ?s0 "''k''" 10 id True] by (simp add: lru_Get_read_def one_entry_def)
  from run_step [OF r0 this] have r1: "lru_run id True small_opts ?s1" .
  have "lru_SetWithExpiration id 11 11 id (one_entry 3 [(''k'', 5)] [0] []) ''k'' (Some 4) 0 =
      Some (one_entry 4 [] [0] [])"
    by (simp add: lru_eval one_entry_def)
  then have "lru_step id True ?s1 ?s2"
    using lru_step.set_key [OF visits_id(1), of id 11 11 ?s1 "''k''" "Some 4" 0 "one_entry 4 [] [0] []" True]
    by simp
  from run_step [OF r1 this] have r2: "lru_run id True small_opts ?s2" .
  have "lru_step id True ?s2 ?s3"
    using lru_step.spawned [of "''k''" ?s2 id True] by simp
  moreover have "lru_GetValue (one_entry 4 [] [0] []) ''k'' 20 = (Some 4, True)"
    by (simp add: lru_GetValue_def one_entry_def deref_def)
  moreover have "lru_GetValue (fst (lru_Delete id (one_entry 4 [] [0] []) ''k'')) ''k'' 20 = (None, False)"
    by (simp add: lru_GetValue_def lru_Delete_def removeElement_def Let_def deref_def one_entry_def)
  moreover have "expires (one_entry 4 [] [0] []) = []" by (simp add: one_entry_def)
  ultimately show ?thesis using r2 unfolding id by (intro exI [of _ ?s2] exI [of _ ?s3]) simp
qed

text \<open>Overwriting a present key does not evict: a reachable store holds more bytes than its
  budget, and stays so until the next insertion or cleanup tick.\<close>
theorem lru_update_over_budget:
  "\<exists>s. lru_run (\<lambda>n. n) True small_opts s \<and> 0 < maxBytes (store s) \<and> maxBytes (store s) < usedBytes (store s)"
proof -
  have id: "(\<lambda>n. n) = (id :: int \<Rightarrow> int)" by (simp add: fun_eq_iff)
  let ?s0 = "\<lparr>store = one_entry 3 [] [0] [], readers = [], deleters = []\<rparr>"
  let ?s1 = "?s0\<lparr>store := one_entry 100 [] [0] []\<rparr>"
  have r0: "lru_run id True small_opts ?s0" using run_first [of True 0] by simp
  have "lru_SetWithExpiration id 0 0 id (one_entry 3 [] [0] []) ''k'' (Some 100) 0 = Some (one_entry 100 [] [0] [])"
    by (simp add: lru_eval one_entry_def)
  then have "lru_step id True ?s0 ?s1"
    using lru_step.set_key [OF visits_id(1), of id 0 0 ?s0 "''k''" "Some 100" 0 "one_entry 100 [] [0] []" True]
    by simp
  from run_step [OF r0 this] have "lru_run id True small_opts ?s1" .
  then show ?thesis unfolding id by (intro exI [of _ ?s1]) (simp add: one_entry_def)
qed

end
