(* ===== verification/Bucket.thy ===== *)
theory Bucket
  imports Prelude
begin

text \<open>
  The bucket of the two-level cache: \<open>type cache\<close> of \<open>store/lru2.go\<close>, a doubly linked list
  over a preallocated node array. \<open>dlnk\<close> holds, for each 16-bit index, its predecessor and its
  successor; entry 0 is the sentinel, whose predecessor is the tail and whose successor is the
  head, so that the links form one ring through 0. Node \<open>i\<close> lives at \<open>m[i-1]\<close>; the slice
  \<open>m\<close> is the field \<open>nodes\<close> here. Slice accesses out of range panic (\<open>None\<close>).

  First the code's operations, then the ring (\<open>dll\<close>) and the representation predicate
  \<open>rep\<close>, then the functional contract: each operation, started in a well-formed bucket,
  does not panic and acts on the list of entries, most recently used first, as the
  specification \<open>spec_put\<close>, \<open>spec_get\<close>, \<open>spec_del\<close> says.
\<close>

section \<open>State\<close>

text \<open>\<open>var p, n = uint16(0), uint16(1)\<close>: the two positions of a link pair.\<close>

datatype dir = Pv | Nx

fun sel :: "u16 \<times> u16 \<Rightarrow> dir \<Rightarrow> u16" where
  "sel (a, b) Pv = a"
| "sel (a, b) Nx = b"

fun upd :: "u16 \<times> u16 \<Rightarrow> dir \<Rightarrow> u16 \<Rightarrow> u16 \<times> u16" where
  "upd (a, b) Pv x = (x, b)"
| "upd (a, b) Nx x = (a, x)"

record 'v node =
  nd_k :: string
  nd_v :: "'v option"
  nd_expireAt :: int

record 'v cache =
  dlnk :: "(u16 \<times> u16) list"
  nodes :: "'v node list"
  hmap :: "(string, u16) gomap"
  last_idx :: u16

type_synonym 'v entry = "string \<times> 'v option \<times> int"

section \<open>Operations\<close>

definition zero_node :: "'v node" where
  "zero_node = \<lparr>nd_k = [], nd_v = None, nd_expireAt = 0\<rparr>"

text \<open>\<open>Create\<close>: the length \<open>cap+1\<close> of the link array is a 16-bit sum.\<close>

definition Create :: "u16 \<Rightarrow> 'v cache" where
  "Create cap = \<lparr>dlnk = replicate (unat (cap + 1)) (0, 0), nodes = replicate (unat cap) zero_node,
     hmap = [], last_idx = 0\<rparr>"

definition link_get :: "'v cache \<Rightarrow> u16 \<Rightarrow> dir \<Rightarrow> u16 option" where
  "link_get c i d = do { e \<leftarrow> slice_get (dlnk c) (unat i); Some (sel e d) }"

definition link_set :: "'v cache \<Rightarrow> u16 \<Rightarrow> dir \<Rightarrow> u16 \<Rightarrow> 'v cache option" where
  "link_set c i d x = do {
     e \<leftarrow> slice_get (dlnk c) (unat i);
     Some (c\<lparr>dlnk := (dlnk c)[unat i := upd e d x]\<rparr>) }"

definition pair_set :: "'v cache \<Rightarrow> u16 \<Rightarrow> u16 \<times> u16 \<Rightarrow> 'v cache option" where
  "pair_set c i e = do { d \<leftarrow> slice_set (dlnk c) (unat i) e; Some (c\<lparr>dlnk := d\<rparr>) }"

definition node_get :: "'v cache \<Rightarrow> u16 \<Rightarrow> 'v node option" where
  "node_get c i = slice_get (nodes c) (unat (i - 1))"

definition node_set :: "'v cache \<Rightarrow> u16 \<Rightarrow> 'v node \<Rightarrow> 'v cache option" where
  "node_set c i nd = do { ns \<leftarrow> slice_set (nodes c) (unat (i - 1)) nd; Some (c\<lparr>nodes := ns\<rparr>) }"

definition adjust :: "'v cache \<Rightarrow> u16 \<Rightarrow> dir \<Rightarrow> dir \<Rightarrow> 'v cache option" where
  "adjust c idx f t = do {
     x \<leftarrow> link_get c idx f;
     if x \<noteq> 0 then do {
       b \<leftarrow> link_get c idx t; a \<leftarrow> link_get c idx f;
       c \<leftarrow> link_set c b f a;
       a \<leftarrow> link_get c idx f; b \<leftarrow> link_get c idx t;
       c \<leftarrow> link_set c a t b;
       c \<leftarrow> link_set c idx f 0;
       h \<leftarrow> link_get c 0 t;
       c \<leftarrow> link_set c idx t h;
       h \<leftarrow> link_get c 0 t;
       c \<leftarrow> link_set c h f idx;
       link_set c 0 t idx
     } else Some c }"

text \<open>
  \<open>put\<close> returns the bucket, 1 for an insertion or 0 for an update, and the calls of
  \<open>onEvicted\<close> it makes; \<open>cb\<close> says whether the callback is not nil.
\<close>

definition put :: "'v cache \<Rightarrow> string \<Rightarrow> 'v option \<Rightarrow> int \<Rightarrow> bool \<Rightarrow>
    ('v cache \<times> nat \<times> (string \<times> 'v option) list) option" where
  "put c key val expireAt cb = (case map_of (hmap c) key of
     Some idx \<Rightarrow> do {
       nd \<leftarrow> node_get c idx;
       c \<leftarrow> node_set c idx (nd\<lparr>nd_v := val, nd_expireAt := expireAt\<rparr>);
       c \<leftarrow> adjust c idx Pv Nx;
       Some (c, 0, []) }
   | None \<Rightarrow>
       if last_idx c = of_nat (length (nodes c)) then do {
         t \<leftarrow> link_get c 0 Pv;
         tail \<leftarrow> node_get c t;
         let calls = (if cb \<and> nd_expireAt tail > 0 then [(nd_k tail, nd_v tail)] else []);
         let c = c\<lparr>hmap := AList.delete (nd_k tail) (hmap c)\<rparr>;
         t \<leftarrow> link_get c 0 Pv;
         let c = c\<lparr>hmap := AList.update key t (hmap c)\<rparr>;
         c \<leftarrow> node_set c t (tail\<lparr>nd_k := key, nd_v := val, nd_expireAt := expireAt\<rparr>);
         t \<leftarrow> link_get c 0 Pv;
         c \<leftarrow> adjust c t Pv Nx;
         Some (c, 1, calls) }
       else do {
         let c = c\<lparr>last_idx := last_idx c + 1\<rparr>;
         c \<leftarrow> (if length (hmap c) = 0 then link_set c 0 Pv (last_idx c)
               else do { h \<leftarrow> link_get c 0 Nx; link_set c h Pv (last_idx c) });
         nd \<leftarrow> node_get c (last_idx c);
         c \<leftarrow> node_set c (last_idx c) (nd\<lparr>nd_k := key, nd_v := val, nd_expireAt := expireAt\<rparr>);
         h \<leftarrow> link_get c 0 Nx;
         c \<leftarrow> pair_set c (last_idx c) (0, h);
         let c = c\<lparr>hmap := AList.update key (last_idx c) (hmap c)\<rparr>;
         c \<leftarrow> link_set c 0 Nx (last_idx c);
         Some (c, 1, []) })"

text \<open>
  \<open>get\<close> and \<open>del\<close> return a pointer into \<open>m\<close>, or nil; every caller reads it before the
  bucket changes again, so the model returns the node it points to.
\<close>

definition get :: "'v cache \<Rightarrow> string \<Rightarrow> ('v cache \<times> 'v node option \<times> nat) option" where
  "get c key = (case map_of (hmap c) key of
     Some idx \<Rightarrow> do {
       c \<leftarrow> adjust c idx Pv Nx;
       nd \<leftarrow> node_get c idx;
       Some (c, Some nd, 1) }
   | None \<Rightarrow> Some (c, None, 0))"

definition del :: "'v cache \<Rightarrow> string \<Rightarrow> ('v cache \<times> 'v node option \<times> nat \<times> int) option" where
  "del c key = (case map_of (hmap c) key of
     Some idx \<Rightarrow> do {
       nd \<leftarrow> node_get c idx;
       if nd_expireAt nd > 0 then do {
         let e = nd_expireAt nd;
         c \<leftarrow> node_set c idx (nd\<lparr>nd_expireAt := 0\<rparr>);
         c \<leftarrow> adjust c idx Nx Pv;
         nd \<leftarrow> node_get c idx;
         Some (c, Some nd, 1, e) }
       else Some (c, None, 0, 0) }
   | None \<Rightarrow> Some (c, None, 0, 0))"

text \<open>
  \<open>walk\<close>: the walker is a function on the variables it captures, \<open>'s\<close>, which also says
  whether to go on. The loop need not end on an arbitrary link array, so the result is an
  option: \<open>None\<close> stands for a panic or for a loop that does not end.
\<close>

partial_function (option) walk_from ::
  "'v cache \<Rightarrow> (string \<Rightarrow> 'v option \<Rightarrow> int \<Rightarrow> 's \<Rightarrow> bool \<times> 's) \<Rightarrow> u16 \<Rightarrow> 's \<Rightarrow> 's option" where
  "walk_from c w idx s =
     (if idx = 0 then Some s
      else Option.bind (node_get c idx) (\<lambda>nd.
        if nd_expireAt nd > 0 \<and> \<not> fst (w (nd_k nd) (nd_v nd) (nd_expireAt nd) s)
        then Some (snd (w (nd_k nd) (nd_v nd) (nd_expireAt nd) s))
        else Option.bind (link_get c idx Nx) (\<lambda>idx'.
          walk_from c w idx'
            (if nd_expireAt nd > 0 then snd (w (nd_k nd) (nd_v nd) (nd_expireAt nd) s) else s))))"

declare walk_from.simps [code]

definition walk :: "'v cache \<Rightarrow> (string \<Rightarrow> 'v option \<Rightarrow> int \<Rightarrow> 's \<Rightarrow> bool \<times> 's) \<Rightarrow> 's \<Rightarrow> 's option" where
  "walk c w s = do { h \<leftarrow> link_get c 0 Nx; walk_from c w h s }"

section \<open>The ring of links\<close>

definition rd :: "(u16 \<times> u16) list \<Rightarrow> dir \<Rightarrow> u16 \<Rightarrow> u16" where
  "rd D d i = sel (D ! unat i) d"

definition wr :: "(u16 \<times> u16) list \<Rightarrow> dir \<Rightarrow> u16 \<Rightarrow> u16 \<Rightarrow> (u16 \<times> u16) list" where
  "wr D d i x = D[unat i := upd (D ! unat i) d x]"

lemma sel_upd: "sel (upd e d x) d' = (if d = d' then x else sel e d')"
  by (cases e; cases d; cases d') auto

lemma length_wr [simp]: "length (wr D d i x) = length D"
  by (simp add: wr_def)

lemma rd_wr [simp]:
  "unat i < length D \<Longrightarrow> rd (wr D d i x) e j = (if j = i \<and> e = d then x else rd D e j)"
  by (auto simp: rd_def wr_def sel_upd nth_list_update word_unat_eq_iff)

lemma link_get_in [go_simps]: "unat i < length (dlnk c) \<Longrightarrow> link_get c i d = Some (rd (dlnk c) d i)"
  by (simp add: link_get_def slice_get_in rd_def)

lemma link_set_in [go_simps]:
  "unat i < length (dlnk c) \<Longrightarrow> link_set c i d x = Some (c\<lparr>dlnk := wr (dlnk c) d i x\<rparr>)"
  by (simp add: link_set_def slice_get_in wr_def)

lemma pair_set_in [go_simps]:
  "unat i < length (dlnk c) \<Longrightarrow> pair_set c i e = Some (c\<lparr>dlnk := (dlnk c)[unat i := e]\<rparr>)"
  by (simp add: pair_set_def slice_set_in)

text \<open>\<open>dll D f t zs\<close>: along \<open>zs\<close>, each element's \<open>t\<close>-link is the next one, whose \<open>f\<close>-link leads back.\<close>

fun dll :: "(u16 \<times> u16) list \<Rightarrow> dir \<Rightarrow> dir \<Rightarrow> u16 list \<Rightarrow> bool" where
  "dll D f t (a # b # zs) \<longleftrightarrow> rd D t a = b \<and> rd D f b = a \<and> dll D f t (b # zs)"
| "dll D f t _ \<longleftrightarrow> True"

lemma dll_append: "dll D f t (xs @ a # ys) \<longleftrightarrow> dll D f t (xs @ [a]) \<and> dll D f t (a # ys)"
proof (induction xs)
  case (Cons x xs)
  then show ?case by (cases xs) auto
qed simp

lemma dll_frame:
  "(\<forall>a \<in> set (butlast zs). rd D' t a = rd D t a) \<Longrightarrow> (\<forall>b \<in> set (tl zs). rd D' f b = rd D f b) \<Longrightarrow>
   dll D' f t zs = dll D f t zs"
proof (induction zs)
  case Nil
  show ?case by simp
next
  case (Cons a zs)
  show ?case
  proof (cases zs)
    case Nil
    then show ?thesis by simp
  next
    case zs: (Cons b zs')
    have "dll D' f t zs = dll D f t zs"
      by (rule Cons.IH) (use Cons.prems zs in auto)
    moreover have "rd D' t a = rd D t a" "rd D' f b = rd D f b"
      using Cons.prems zs by auto
    ultimately show ?thesis by (simp add: zs)
  qed
qed

lemma dll_snoc2: "dll D f t (zs @ [b, a]) \<longleftrightarrow> dll D f t (zs @ [b]) \<and> rd D t b = a \<and> rd D f a = b"
  by (subst dll_append) simp

lemma dll_rev: "dll D f t (rev zs) \<longleftrightarrow> dll D t f zs"
proof (induction zs)
  case Nil
  show ?case by simp
next
  case (Cons a zs)
  show ?case
  proof (cases zs)
    case Nil
    then show ?thesis by simp
  next
    case zs: (Cons b zs')
    have "dll D f t (rev (a # zs)) \<longleftrightarrow> dll D f t (rev zs) \<and> rd D t b = a \<and> rd D f a = b"
      using dll_snoc2 [of D f t "rev zs'" b a] zs by simp
    also have "\<dots> \<longleftrightarrow> dll D t f zs \<and> rd D t b = a \<and> rd D f a = b"
      by (simp only: Cons.IH)
    also have "\<dots> \<longleftrightarrow> dll D t f (a # zs)"
      by (auto simp: zs)
    finally show ?thesis .
  qed
qed

text \<open>
  The body of \<open>adjust\<close> moves its node to the end of the ring that the direction \<open>t\<close>
  starts from: with \<open>(Pv, Nx)\<close> to the head, with \<open>(Nx, Pv)\<close> to the tail.
\<close>

text \<open>The list after \<open>adjust\<close> has moved \<open>idx\<close>, which stands between \<open>a\<close> and \<open>b\<close>, before the head \<open>h\<close>, given
  what its six writes leave in each link.\<close>

lemma dll_moved:
  assumes d: "dll D f t (0 # as @ idx # bs @ [0])" and dist: "distinct (0 # as @ idx # bs)"
    and snoc: "as = as' @ [a]" and h: "as = h # as''" and b_def: "b = hd (bs @ [0])"
    and rt: "\<And>x. rd D' t x = (if x = 0 then idx else if x = idx then h else if x = a then b else rd D t x)"
    and rf: "\<And>x. rd D' f x = (if x = h then idx else if x = idx then 0 else if x = b then a else rd D f x)"
  shows "dll D' f t (0 # idx # as @ bs @ [0])"
proof -
  have bmem: "b \<in> insert 0 (set bs)" by (cases bs) (auto simp: b_def)
  have amem: "a \<in> set as" "h \<in> set as" using snoc by simp (simp add: h)
  have d1: "dll D f t (0 # as)" and d2: "dll D f t (a # idx # bs @ [0])"
    using d dll_append [of D f t "0 # as'" a "idx # bs @ [0]"] snoc by auto
  have d3: "dll D f t (bs @ [0])" using d2 by (cases bs; simp)
  have ne: "a \<noteq> 0" "idx \<noteq> 0" "h \<noteq> 0" "a \<noteq> idx" "h \<noteq> idx" "b \<noteq> idx" "b \<noteq> a" "b \<noteq> h"
    using dist amem bmem by auto
  have e1: "dll D' f t as = dll D f t as"
  proof (rule dll_frame; rule ballI)
    fix x assume "x \<in> set (butlast as)"
    then show "rd D' t x = rd D t x" using dist snoc by (auto simp: rt)
  next
    fix x assume "x \<in> set (tl as)"
    then show "rd D' f x = rd D f x" using dist h bmem by (auto simp: rf)
  qed
  have e2: "dll D' f t (bs @ [0]) = dll D f t (bs @ [0])"
  proof (rule dll_frame; rule ballI)
    fix x assume "x \<in> set (butlast (bs @ [0]))"
    then have "x \<in> set bs" by (simp add: butlast_append)
    then show "rd D' t x = rd D t x" using dist snoc by (auto simp: rt)
  next
    fix x assume x: "x \<in> set (tl (bs @ [0]))"
    then have "x \<noteq> b" using dist by (cases bs) (auto simp: b_def)
    moreover have "x \<noteq> h" "x \<noteq> idx" using x dist h by (cases bs; auto)+
    ultimately show "rd D' f x = rd D f x" by (simp add: rf)
  qed
  have "dll D' f t as" using d1 e1 h by auto
  moreover have "dll D' f t (a # bs @ [0])"
    using d3 e2 ne by (cases bs) (auto simp: rt rf b_def)
  ultimately have "dll D' f t (as @ bs @ [0])"
    using snoc dll_append [of D' f t as' a "bs @ [0]"] by simp
  with h show "dll D' f t (0 # idx # as @ bs @ [0])" using ne by (simp add: rt rf)
qed

lemma adjust_link:
  assumes ft: "f \<noteq> t"
    and d: "dll (dlnk c) f t (0 # as @ idx # bs @ [0])"
    and dist: "distinct (0 # as @ idx # bs)"
    and bnd: "\<And>i. i \<in> set (0 # as @ idx # bs) \<Longrightarrow> unat i < length (dlnk c)"
  shows "\<exists>D. adjust c idx f t = Some (c\<lparr>dlnk := D\<rparr>) \<and> length D = length (dlnk c) \<and>
           dll D f t (0 # idx # as @ bs @ [0])"
proof (cases as rule: rev_cases)
  case Nil
  with d bnd show ?thesis
    by (intro exI [of _ "dlnk c"]) (simp add: adjust_def link_get_in)
next
  case (snoc as' a)
  obtain h as'' where h: "as = h # as''" using snoc by (metis neq_Nil_conv snoc_eq_iff_butlast)
  define b where "b = hd (bs @ [0])"
  have bmem: "b \<in> insert 0 (set bs)" by (cases bs) (auto simp: b_def)
  have amem: "a \<in> set as" and hmem: "h \<in> set as" using snoc by simp (simp add: h)
  let ?D = "dlnk c"
  have d1: "dll ?D f t (0 # as)" and d2: "dll ?D f t (a # idx # bs @ [0])"
    using d dll_append [of ?D f t "0 # as'" a "idx # bs @ [0]"] snoc by auto
  have ib: "rd ?D t idx = b" and ia: "rd ?D f idx = a"
    using d2 by (cases bs; simp add: b_def)+
  have h0: "rd ?D t 0 = h" using d1 h by simp
  have ne: "a \<noteq> 0" "idx \<noteq> 0" "h \<noteq> 0" "a \<noteq> idx" "h \<noteq> idx" "b \<noteq> idx" "b \<noteq> a" "b \<noteq> h"
    using dist amem hmem bmem by auto
  have bd: "unat a < length ?D" "unat idx < length ?D" "unat h < length ?D" "unat b < length ?D"
    "unat (0::u16) < length ?D"
    using bnd [of a] bnd [of idx] bnd [of h] bnd [of b] bnd [of 0] amem hmem bmem by auto
  define D' where "D' = wr (wr (wr (wr (wr (wr ?D f b a) t a b) f idx 0) t idx h) f h idx) t 0 idx"
  have adj: "adjust c idx f t = Some (c\<lparr>dlnk := D'\<rparr>)"
    using ft bd ne h0 ia ib by (simp add: adjust_def link_get_in link_set_in D'_def)
  have len: "length D' = length ?D" by (simp add: D'_def)
  have rt: "rd D' t x = (if x = 0 then idx else if x = idx then h else if x = a then b else rd ?D t x)" for x
    using ft bd ne by (auto simp: D'_def)
  have rf: "rd D' f x = (if x = h then idx else if x = idx then 0 else if x = b then a else rd ?D f x)" for x
    using ft bd ne by (auto simp: D'_def)
  have "dll D' f t (0 # idx # as @ bs @ [0])" by (rule dll_moved [OF d dist snoc h b_def rt rf])
  with adj len show ?thesis by blast
qed

section \<open>Representation\<close>

definition nodeat :: "'v cache \<Rightarrow> u16 \<Rightarrow> 'v node" where
  "nodeat c i = nodes c ! unat (i - 1)"

definition ent :: "'v cache \<Rightarrow> u16 \<Rightarrow> 'v entry" where
  "ent c i = (nd_k (nodeat c i), nd_v (nodeat c i), nd_expireAt (nodeat c i))"

definition ring :: "'v cache \<Rightarrow> u16 list \<Rightarrow> bool" where
  "ring c xs \<longleftrightarrow> distinct xs \<and> (\<forall>i. i \<in> set xs \<longleftrightarrow> i \<noteq> 0 \<and> i \<le> last_idx c) \<and>
     0 < length (nodes c) \<and> length (nodes c) < 65535 \<and>
     length (dlnk c) = Suc (length (nodes c)) \<and> unat (last_idx c) \<le> length (nodes c) \<and>
     dll (dlnk c) Pv Nx (0 # xs @ [0])"

definition indexed :: "'v cache \<Rightarrow> u16 list \<Rightarrow> bool" where
  "indexed c xs \<longleftrightarrow> map_ok (hmap c) \<and>
     (\<forall>k i. map_of (hmap c) k = Some i \<longleftrightarrow> i \<in> set xs \<and> nd_k (nodeat c i) = k)"

definition rep :: "'v cache \<Rightarrow> u16 list \<Rightarrow> bool" where
  "rep c xs \<longleftrightarrow> ring c xs \<and> indexed c xs"

lemma unat_pred: "i \<noteq> 0 \<Longrightarrow> unat (i - 1) = unat (i :: u16) - 1"
  by (rule unat_minus_one)

lemma ring_dims:
  assumes "ring c xs"
  shows "0 < length (nodes c)" "length (nodes c) < 65535" "length (dlnk c) = Suc (length (nodes c))"
    "unat (last_idx c) \<le> length (nodes c)"
  using assms by (simp_all add: ring_def)

lemma ring_set: "ring c xs \<Longrightarrow> i \<in> set xs \<longleftrightarrow> i \<noteq> 0 \<and> i \<le> last_idx c"
  by (simp add: ring_def)

lemma ring_member:
  assumes "ring c xs" and "i \<in> set xs"
  shows "i \<noteq> 0" and "unat i < length (dlnk c)" and "unat (i - 1) < length (nodes c)"
proof -
  show i0: "i \<noteq> 0" using assms by (simp add: ring_set)
  have "unat i \<le> unat (last_idx c)" using assms by (simp add: ring_set word_le_nat_alt)
  moreover have "0 < unat i" using i0 by (simp add: unat_gt_0)
  ultimately show "unat i < length (dlnk c)" "unat (i - 1) < length (nodes c)"
    using ring_dims [OF assms(1)] unat_pred [OF i0] by linarith+
qed

lemma ring_zero: "ring c xs \<Longrightarrow> unat (0 :: u16) < length (dlnk c)"
  by (simp add: ring_dims)

lemma ring_notin: "ring c xs \<Longrightarrow> 0 \<notin> set xs"
  by (simp add: ring_set)

lemma ring_length: assumes "ring c xs" shows "length xs = unat (last_idx c)"
proof -
  have "set xs = {i. i \<noteq> 0 \<and> i \<le> last_idx c}" using assms by (auto simp: ring_set)
  also have "unat ` \<dots> = {1..unat (last_idx c)}"
  proof (intro set_eqI iffI)
    fix x assume "x \<in> {1..unat (last_idx c)}"
    then have x: "0 < x" "x \<le> unat (last_idx c)" by auto
    then have "x < 2 ^ 16" using unsigned_less [where ?'a = nat, of "last_idx c"] by simp
    then have "unat (of_nat x :: u16) = x" by (simp add: unat_of_nat)
    then show "x \<in> unat ` {i. i \<noteq> 0 \<and> i \<le> last_idx c}"
      using x by (intro image_eqI [of _ _ "of_nat x"]) (auto simp: word_le_nat_alt unat_eq_0 [symmetric])
  qed (auto simp: word_le_nat_alt unat_gt_0 Suc_le_eq)
  finally have "card (unat ` set xs) = unat (last_idx c)" by simp
  moreover have "card (unat ` set xs) = card (set xs)"
    by (intro card_image inj_onI) (simp add: word_unat_eq_iff)
  moreover have "distinct xs" using assms by (simp add: ring_def)
  ultimately show ?thesis by (simp add: distinct_card)
qed

lemma nd_in [go_simps]: "unat (i - 1) < length (nodes c) \<Longrightarrow> node_get c i = Some (nodeat c i)"
  by (simp add: node_get_def slice_get_in nodeat_def)

lemma node_set_in [go_simps]:
  "unat (i - 1) < length (nodes c) \<Longrightarrow> node_set c i x = Some (c\<lparr>nodes := (nodes c)[unat (i - 1) := x]\<rparr>)"
  by (simp add: node_set_def slice_set_in)

lemma nd_upd:
  assumes "unat (i - 1) < length (nodes c)"
  shows "nodeat (c\<lparr>nodes := (nodes c)[unat (i - 1) := x]\<rparr>) j = (if j = i then x else nodeat c j)"
proof -
  have "unat (j - 1) = unat (i - 1) \<longleftrightarrow> j = i" by (simp add: word_unat_eq_iff [symmetric])
  with assms show ?thesis by (auto simp: nodeat_def nth_list_update)
qed

lemma nd_frame [simp]:
  "nodeat (c\<lparr>dlnk := D\<rparr>) = nodeat c" "nodeat (c\<lparr>hmap := M\<rparr>) = nodeat c" "nodeat (c\<lparr>last_idx := l\<rparr>) = nodeat c"
  by (auto simp: nodeat_def fun_eq_iff)

lemma ent_frame [simp]:
  "ent (c\<lparr>dlnk := D\<rparr>) = ent c" "ent (c\<lparr>hmap := M\<rparr>) = ent c" "ent (c\<lparr>last_idx := l\<rparr>) = ent c"
  by (auto simp: ent_def fun_eq_iff)

lemma ring_frame [simp]:
  "ring (c\<lparr>hmap := M\<rparr>) xs = ring c xs"
  "ring (c\<lparr>nodes := (nodes c)[j := x]\<rparr>) xs = ring c xs"
  by (auto simp: ring_def)

lemma indexed_frame [simp]: "indexed (c\<lparr>dlnk := D\<rparr>) xs = indexed c xs"
  by (simp add: indexed_def)

lemma indexed_perm: "set xs = set ys \<Longrightarrow> indexed c xs = indexed c ys"
  by (simp add: indexed_def)

lemma ring_adjust_front:
  assumes "ring c (as @ idx # bs)"
  shows "\<exists>D. adjust c idx Pv Nx = Some (c\<lparr>dlnk := D\<rparr>) \<and> ring (c\<lparr>dlnk := D\<rparr>) (idx # as @ bs)"
proof -
  have "unat i < length (dlnk c)" if "i \<in> set (0 # as @ idx # bs)" for i
    using that ring_member(2) [OF assms, of i] ring_zero [OF assms] by auto
  with assms obtain D where
    "adjust c idx Pv Nx = Some (c\<lparr>dlnk := D\<rparr>)" "length D = length (dlnk c)"
    "dll D Pv Nx (0 # idx # as @ bs @ [0])"
    using adjust_link [of Pv Nx c as idx bs] ring_notin [OF assms] by (auto simp: ring_def)
  with assms show ?thesis by (intro exI [of _ D]) (auto simp: ring_def)
qed

lemma ring_adjust_back:
  assumes "ring c (as @ idx # bs)"
  shows "\<exists>D. adjust c idx Nx Pv = Some (c\<lparr>dlnk := D\<rparr>) \<and> ring (c\<lparr>dlnk := D\<rparr>) (as @ bs @ [idx])"
proof -
  have b: "unat i < length (dlnk c)" if "i \<in> set (0 # rev bs @ idx # rev as)" for i
    using that ring_member(2) [OF assms, of i] ring_zero [OF assms] by auto
  have "dll (dlnk c) Nx Pv (0 # rev bs @ idx # rev as @ [0])"
    using assms dll_rev [of "dlnk c" Nx Pv "0 # as @ idx # bs @ [0]"] by (simp add: ring_def)
  moreover have "distinct (0 # rev bs @ idx # rev as)"
    using assms ring_notin [OF assms] by (auto simp: ring_def)
  ultimately obtain D where D: "adjust c idx Nx Pv = Some (c\<lparr>dlnk := D\<rparr>)"
    "length D = length (dlnk c)" "dll D Nx Pv (0 # idx # rev bs @ rev as @ [0])"
    using adjust_link [of Nx Pv c "rev bs" idx "rev as"] b by auto
  from D(3) have "dll D Pv Nx (0 # (as @ bs @ [idx]) @ [0])"
    using dll_rev [of D Pv Nx "0 # idx # rev bs @ rev as @ [0]"] by simp
  with assms D show ?thesis by (intro exI [of _ D]) (auto simp: ring_def)
qed

section \<open>The operations on the list of entries\<close>

abbreviation ents :: "'v cache \<Rightarrow> u16 list \<Rightarrow> 'v entry list" where
  "ents c xs \<equiv> map (ent c) xs"

abbreviation without :: "string \<Rightarrow> 'v entry list \<Rightarrow> 'v entry list" where
  "without key es \<equiv> filter (\<lambda>e. fst e \<noteq> key) es"

text \<open>What \<open>put\<close>, \<open>get\<close> and \<open>del\<close> promise, on the entries, most recently used first.\<close>

definition spec_put :: "nat \<Rightarrow> string \<Rightarrow> 'v option \<Rightarrow> int \<Rightarrow> 'v entry list \<Rightarrow> 'v entry list" where
  "spec_put cap key v e es =
     (if key \<in> fst ` set es then (key, v, e) # without key es
      else if length es = cap then (key, v, e) # butlast es
      else (key, v, e) # es)"

definition spec_calls :: "nat \<Rightarrow> bool \<Rightarrow> string \<Rightarrow> 'v entry list \<Rightarrow> (string \<times> 'v option) list" where
  "spec_calls cap cb key es =
     (if key \<notin> fst ` set es \<and> length es = cap \<and> cb \<and> 0 < snd (snd (last es))
      then [(fst (last es), fst (snd (last es)))] else [])"

definition spec_get :: "string \<Rightarrow> 'v entry list \<Rightarrow> 'v entry list" where
  "spec_get key es = (case map_of es key of None \<Rightarrow> es | Some ve \<Rightarrow> (key, ve) # without key es)"

definition spec_del :: "string \<Rightarrow> 'v entry list \<Rightarrow> 'v entry list" where
  "spec_del key es = (case map_of es key of
     Some (v, e) \<Rightarrow> if 0 < e then without key es @ [(key, v, 0)] else es
   | None \<Rightarrow> es)"

lemma rep_ring [dest]: "rep c xs \<Longrightarrow> ring c xs"
  and rep_indexed [dest]: "rep c xs \<Longrightarrow> indexed c xs"
  by (simp_all add: rep_def)

lemma ring_distinct: "ring c xs \<Longrightarrow> distinct xs"
  by (simp add: ring_def)

lemma indexed_hmap: "indexed c xs \<Longrightarrow> map_of (hmap c) k = Some i \<longleftrightarrow> i \<in> set xs \<and> nd_k (nodeat c i) = k"
  by (simp add: indexed_def)

lemma rep_key_unique:
  assumes "rep c xs" "i \<in> set xs" "j \<in> set xs" "nd_k (nodeat c i) = nd_k (nodeat c j)"
  shows "i = j"
proof -
  have "map_of (hmap c) (nd_k (nodeat c i)) = Some i" "map_of (hmap c) (nd_k (nodeat c i)) = Some j"
    using assms indexed_hmap [OF rep_indexed [OF assms(1)]] by auto
  then show ?thesis by simp
qed

lemma rep_split:
  assumes "rep c xs" and "map_of (hmap c) key = Some i"
  obtains as bs where "xs = as @ i # bs" "nd_k (nodeat c i) = key"
    "without key (ents c xs) = ents c (as @ bs)" "i \<notin> set (as @ bs)"
proof -
  have i: "i \<in> set xs" "nd_k (nodeat c i) = key"
    using assms(2) indexed_hmap [OF rep_indexed [OF assms(1)]] by blast+
  then obtain as bs where xs: "xs = as @ i # bs" by (meson split_list)
  have dist: "i \<notin> set (as @ bs)" using ring_distinct [OF rep_ring [OF assms(1)]] xs by auto
  have "nd_k (nodeat c j) \<noteq> key" if "j \<in> set (as @ bs)" for j
  proof
    assume "nd_k (nodeat c j) = key"
    moreover have "j \<in> set xs" using that xs by auto
    ultimately have "i = j" using rep_key_unique [OF assms(1) i(1)] i(2) by simp
    with that dist show False by simp
  qed
  then have "without key (ents c as) = ents c as" "without key (ents c bs) = ents c bs"
    by (simp_all add: filter_id_conv ent_def)
  then have "without key (ents c xs) = ents c (as @ bs)"
    using i(2) xs by (simp add: ent_def)
  with that xs i dist show ?thesis by blast
qed

lemma ents_keys: "indexed c xs \<Longrightarrow> fst ` set (ents c xs) = dom (map_of (hmap c))"
proof -
  assume a: "indexed c xs"
  have "fst ` set (ents c xs) = (\<lambda>i. nd_k (nodeat c i)) ` set xs"
    by (simp add: image_image ent_def)
  also have "\<dots> = dom (map_of (hmap c))"
    using indexed_hmap [OF a] by (fastforce simp: dom_def)
  finally show ?thesis .
qed

lemma map_of_ents:
  assumes "rep c xs" and "map_of (hmap c) key = Some i"
  shows "map_of (ents c xs) key = Some (nd_v (nodeat c i), nd_expireAt (nodeat c i))"
proof -
  obtain as bs where s: "xs = as @ i # bs" "nd_k (nodeat c i) = key"
    "without key (ents c xs) = ents c (as @ bs)" "i \<notin> set (as @ bs)"
    using rep_split [OF assms] by blast
  have "key \<notin> fst ` set (ents c as)"
  proof
    assume "key \<in> fst ` set (ents c as)"
    then obtain j where "j \<in> set as" "nd_k (nodeat c j) = key" by (auto simp: ent_def)
    with rep_key_unique [OF assms(1), of i j] s show False by auto
  qed
  then have "map_of (ents c as) key = None" by (simp only: map_of_eq_None_iff not_False_eq_True)
  then show ?thesis using s(1,2) by (simp add: ent_def map_add_def)
qed

lemma map_of_ents_None: "indexed c xs \<Longrightarrow> map_of (hmap c) key = None \<Longrightarrow> map_of (ents c xs) key = None"
  by (metis domIff ents_keys map_of_eq_None_iff)

text \<open>A node rewritten under its own key.\<close>

lemma rep_node_upd:
  assumes "rep c xs" "i \<in> set xs" "nd_k x = nd_k (nodeat c i)"
  shows "rep (c\<lparr>nodes := (nodes c)[unat (i - 1) := x]\<rparr>) xs"
proof -
  have b: "unat (i - 1) < length (nodes c)" using ring_member [OF rep_ring] assms by blast
  have "nd_k (nodeat (c\<lparr>nodes := (nodes c)[unat (i - 1) := x]\<rparr>) j) = nd_k (nodeat c j)" for j
    using assms(3) by (simp add: nd_upd [OF b])
  with assms(1) show ?thesis by (simp add: rep_def indexed_def)
qed

lemma ents_node_upd:
  assumes "unat (i - 1) < length (nodes c)" "i \<notin> set xs"
  shows "ents (c\<lparr>nodes := (nodes c)[unat (i - 1) := x]\<rparr>) xs = ents c xs"
  using assms by (auto simp: ent_def nd_upd)

lemma ent_node_upd:
  "unat (i - 1) < length (nodes c) \<Longrightarrow>
   ent (c\<lparr>nodes := (nodes c)[unat (i - 1) := x]\<rparr>) i = (nd_k x, nd_v x, nd_expireAt x)"
  by (simp add: ent_def nd_upd)

lemma rep_adjust_front:
  assumes "rep c (as @ i # bs)"
  obtains D where "adjust c i Pv Nx = Some (c\<lparr>dlnk := D\<rparr>)" "rep (c\<lparr>dlnk := D\<rparr>) (i # as @ bs)"
proof -
  obtain D where D: "adjust c i Pv Nx = Some (c\<lparr>dlnk := D\<rparr>)" "ring (c\<lparr>dlnk := D\<rparr>) (i # as @ bs)"
    using ring_adjust_front [OF rep_ring [OF assms]] by blast
  moreover have "indexed c (i # as @ bs)"
    using assms indexed_perm [of "as @ i # bs" "i # as @ bs" c] by (auto simp: rep_def)
  ultimately show ?thesis by (intro that [of D]) (simp_all add: rep_def)
qed

lemma rep_adjust_back:
  assumes "rep c (as @ i # bs)"
  obtains D where "adjust c i Nx Pv = Some (c\<lparr>dlnk := D\<rparr>)" "rep (c\<lparr>dlnk := D\<rparr>) (as @ bs @ [i])"
proof -
  obtain D where D: "adjust c i Nx Pv = Some (c\<lparr>dlnk := D\<rparr>)" "ring (c\<lparr>dlnk := D\<rparr>) (as @ bs @ [i])"
    using ring_adjust_back [OF rep_ring [OF assms]] by blast
  moreover have "indexed c (as @ bs @ [i])"
    using assms indexed_perm [of "as @ i # bs" "as @ bs @ [i]" c] by (auto simp: rep_def)
  ultimately show ?thesis by (intro that [of D]) (simp_all add: rep_def)
qed

text \<open>Shared conclusion shape: same dimensions, so the capacity never changes.\<close>

lemma put_update:
  assumes "rep c xs" and "map_of (hmap c) key = Some i"
  shows "\<exists>c' xs'. put c key v e cb = Some (c', 0, []) \<and> rep c' xs' \<and>
    ents c' xs' = (key, v, e) # without key (ents c xs) \<and> length (nodes c') = length (nodes c)"
proof -
  obtain as bs where s: "xs = as @ i # bs" "nd_k (nodeat c i) = key"
    "without key (ents c xs) = ents c (as @ bs)" "i \<notin> set (as @ bs)"
    using rep_split [OF assms] by blast
  have imem: "i \<in> set xs" using s(1) by simp
  have b: "unat (i - 1) < length (nodes c)" using ring_member(3) [OF rep_ring [OF assms(1)] imem] .
  let ?x = "nodeat c i\<lparr>nd_v := v, nd_expireAt := e\<rparr>"
  let ?c = "c\<lparr>nodes := (nodes c)[unat (i - 1) := ?x]\<rparr>"
  have "rep ?c xs" by (rule rep_node_upd [OF assms(1) imem]) simp
  then obtain D where D: "adjust ?c i Pv Nx = Some (?c\<lparr>dlnk := D\<rparr>)"
      "rep (?c\<lparr>dlnk := D\<rparr>) (i # as @ bs)"
    using rep_adjust_front s(1) by blast
  have "put c key v e cb = Some (?c\<lparr>dlnk := D\<rparr>, 0, [])"
    using assms(2) b D(1) by (simp add: put_def nd_in node_set_in)
  moreover have "ents (?c\<lparr>dlnk := D\<rparr>) (i # as @ bs) = (key, v, e) # without key (ents c xs)"
    using s b ents_node_upd [OF b s(4), of ?x] ent_node_upd [OF b, of ?x] by (simp only: ent_frame) simp
  ultimately show ?thesis using D(2)
    by (intro exI [of _ "?c\<lparr>dlnk := D\<rparr>"] exI [of _ "i # as @ bs"]) simp
qed

lemma get_present:
  assumes "rep c xs" and "map_of (hmap c) key = Some i"
  shows "\<exists>c' xs' x. get c key = Some (c', Some x, 1) \<and> rep c' xs' \<and>
    map_of (ents c xs) key = Some (nd_v x, nd_expireAt x) \<and> nd_k x = key \<and>
    ents c' xs' = (key, nd_v x, nd_expireAt x) # without key (ents c xs) \<and>
    length (nodes c') = length (nodes c)"
proof -
  obtain as bs where s: "xs = as @ i # bs" "nd_k (nodeat c i) = key"
    "without key (ents c xs) = ents c (as @ bs)" "i \<notin> set (as @ bs)"
    using rep_split [OF assms] by blast
  have imem: "i \<in> set xs" using s(1) by simp
  have b: "unat (i - 1) < length (nodes c)" using ring_member(3) [OF rep_ring [OF assms(1)] imem] .
  obtain D where D: "adjust c i Pv Nx = Some (c\<lparr>dlnk := D\<rparr>)" "rep (c\<lparr>dlnk := D\<rparr>) (i # as @ bs)"
    using rep_adjust_front assms(1) s(1) by blast
  have "get c key = Some (c\<lparr>dlnk := D\<rparr>, Some (nodeat c i), 1)"
    using assms(2) b D(1) by (simp add: get_def nd_in)
  moreover have "ents (c\<lparr>dlnk := D\<rparr>) (i # as @ bs) =
      (key, nd_v (nodeat c i), nd_expireAt (nodeat c i)) # without key (ents c xs)"
    using s by (simp only: ent_frame) (simp add: ent_def)
  ultimately show ?thesis using D(2) map_of_ents [OF assms] s(2)
    by (intro exI [of _ "c\<lparr>dlnk := D\<rparr>"] exI [of _ "i # as @ bs"] exI [of _ "nodeat c i"]) simp
qed

lemma del_present:
  assumes "rep c xs" and "map_of (hmap c) key = Some i" and e: "0 < nd_expireAt (nodeat c i)"
  shows "\<exists>c' xs'. del c key = Some (c', Some (nodeat c i\<lparr>nd_expireAt := 0\<rparr>), 1, nd_expireAt (nodeat c i)) \<and>
    rep c' xs' \<and> ents c' xs' = without key (ents c xs) @ [(key, nd_v (nodeat c i), 0)] \<and>
    length (nodes c') = length (nodes c)"
proof -
  obtain as bs where s: "xs = as @ i # bs" "nd_k (nodeat c i) = key"
    "without key (ents c xs) = ents c (as @ bs)" "i \<notin> set (as @ bs)"
    using rep_split [OF assms(1,2)] by blast
  have imem: "i \<in> set xs" using s(1) by simp
  have b: "unat (i - 1) < length (nodes c)" using ring_member(3) [OF rep_ring [OF assms(1)] imem] .
  let ?x = "nodeat c i\<lparr>nd_expireAt := 0\<rparr>"
  let ?c = "c\<lparr>nodes := (nodes c)[unat (i - 1) := ?x]\<rparr>"
  have "rep ?c xs" by (rule rep_node_upd [OF assms(1) imem]) simp
  then obtain D where D: "adjust ?c i Nx Pv = Some (?c\<lparr>dlnk := D\<rparr>)"
      "rep (?c\<lparr>dlnk := D\<rparr>) (as @ bs @ [i])"
    using rep_adjust_back s(1) by blast
  have "del c key = Some (?c\<lparr>dlnk := D\<rparr>, Some ?x, 1, nd_expireAt (nodeat c i))"
    using assms(2) b e D(1) by (simp add: del_def nd_in node_set_in nd_upd)
  moreover have "ents (?c\<lparr>dlnk := D\<rparr>) (as @ bs @ [i]) =
      without key (ents c xs) @ [(key, nd_v (nodeat c i), 0)]"
    using s b ents_node_upd [OF b s(4), of ?x] ent_node_upd [OF b, of ?x] by (simp only: ent_frame) simp
  ultimately show ?thesis using D(2)
    by (intro exI [of _ "?c\<lparr>dlnk := D\<rparr>"] exI [of _ "as @ bs @ [i]"]) simp
qed

lemma ring_tail:
  assumes "ring c (ys @ [t])" shows "rd (dlnk c) Pv 0 = t"
  using assms dll_snoc2 [of "dlnk c" Pv Nx "0 # ys" t 0] by (simp add: ring_def)

lemma ring_head: assumes "ring c xs" shows "rd (dlnk c) Nx 0 = hd (xs @ [0])"
  using assms by (cases xs) (auto simp: ring_def)

lemma ring_full:
  assumes "ring c xs" shows "last_idx c = of_nat (length (nodes c)) \<longleftrightarrow> length xs = length (nodes c)"
proof -
  have "unat (of_nat (length (nodes c)) :: u16) = length (nodes c)"
    using ring_dims [OF assms] by (simp add: unat_of_nat)
  then show ?thesis using ring_length [OF assms] by (metis word_unat_eq_iff)
qed

lemma indexed_replace:
  assumes "rep c xs" and "t \<in> set xs" and none: "map_of (hmap c) key = None" and "nd_k x = key"
  shows "indexed (c\<lparr>hmap := AList.update key t (AList.delete (nd_k (nodeat c t)) (hmap c)),
                    nodes := (nodes c)[unat (t - 1) := x]\<rparr>) xs"
proof -
  have b: "unat (t - 1) < length (nodes c)" using ring_member(3) [OF rep_ring [OF assms(1)] assms(2)] .
  note ix = indexed_hmap [OF rep_indexed [OF assms(1)]]
  let ?c = "c\<lparr>hmap := AList.update key t (AList.delete (nd_k (nodeat c t)) (hmap c)),
                    nodes := (nodes c)[unat (t - 1) := x]\<rparr>"
  have nd': "nd_k (nodeat ?c j) = (if j = t then key else nd_k (nodeat c j))" for j
    using nd_upd [of t "c\<lparr>hmap := M\<rparr>" for M] b assms(4) by simp
  have nokey: "nd_k (nodeat c j) \<noteq> key" if "j \<in> set xs" for j
    using ix [of key j] none that by auto
  have uniq: "nd_k (nodeat c j) \<noteq> nd_k (nodeat c t)" if "j \<in> set xs" "j \<noteq> t" for j
    using rep_key_unique [OF assms(1)] assms(2) that by metis
  have "map_of (hmap ?c) k = Some i \<longleftrightarrow> i \<in> set xs \<and> nd_k (nodeat ?c i) = k" for k i
    using nokey uniq ix [of k i] assms(2) by (auto simp: nd')
  moreover have "map_ok (hmap ?c)"
    using assms(1) by (auto simp: rep_def indexed_def)
  ultimately show ?thesis by (simp add: indexed_def)
qed

lemma put_evict:
  assumes "rep c xs" and none: "map_of (hmap c) key = None" and full: "length xs = length (nodes c)"
  shows "\<exists>c' xs'. put c key v e cb = Some (c', 1, spec_calls (length (nodes c)) cb key (ents c xs)) \<and>
    rep c' xs' \<and> ents c' xs' = (key, v, e) # butlast (ents c xs) \<and>
    length (nodes c') = length (nodes c)"
proof -
  have r: "ring c xs" using assms(1) by blast
  obtain ys t where xs: "xs = ys @ [t]" using full ring_dims(1) [OF r] by (cases xs rule: rev_cases) auto
  have t: "t \<in> set xs" "t \<notin> set ys" using xs ring_distinct [OF r] by auto
  have b: "unat (t - 1) < length (nodes c)" using ring_member(3) [OF r t(1)] .
  have l: "link_get c' 0 Pv = Some t" if "dlnk c' = dlnk c" for c' :: "'a cache"
    using that ring_zero [OF r] ring_tail r xs by (metis link_get_in)
  let ?x = "nodeat c t\<lparr>nd_k := key, nd_v := v, nd_expireAt := e\<rparr>"
  let ?M = "AList.update key t (AList.delete (nd_k (nodeat c t)) (hmap c))"
  let ?c = "c\<lparr>hmap := ?M, nodes := (nodes c)[unat (t - 1) := ?x]\<rparr>"
  have ring': "ring ?c xs" using ring_frame(2) [of "c\<lparr>hmap := ?M\<rparr>"] r by simp
  have "rep ?c xs" using ring' indexed_replace [OF assms(1) t(1) none, of ?x] by (simp add: rep_def)
  then obtain D where D: "adjust ?c t Pv Nx = Some (?c\<lparr>dlnk := D\<rparr>)" "rep (?c\<lparr>dlnk := D\<rparr>) (t # ys)"
    using rep_adjust_front [of ?c ys t "[]"] xs by auto
  have keys: "key \<notin> fst ` set (ents c xs)"
    using map_of_ents_None [OF rep_indexed [OF assms(1)] none] by (simp only: map_of_eq_None_iff not_False_eq_True)
  have "put c key v e cb = Some (?c\<lparr>dlnk := D\<rparr>, 1, spec_calls (length (nodes c)) cb key (ents c xs))"
    using none b D(1) l keys full ring_full [OF r] xs
    by (simp add: put_def nd_in node_set_in Let_def spec_calls_def ent_def)
  moreover have "ents (?c\<lparr>dlnk := D\<rparr>) (t # ys) = (key, v, e) # butlast (ents c xs)"
    using xs b t(2) ents_node_upd [of t "c\<lparr>hmap := ?M\<rparr>" ys ?x] ent_node_upd [of t "c\<lparr>hmap := ?M\<rparr>" ?x]
    by (simp only: ent_frame) simp
  ultimately show ?thesis using D(2)
    by (intro exI [of _ "?c\<lparr>dlnk := D\<rparr>"] exI [of _ "t # ys"]) simp
qed

lemma rd_list_update [simp]:
  "unat i < length D \<Longrightarrow> rd (D[unat i := p]) d j = (if j = i then sel p d else rd D d j)"
  by (auto simp: rd_def nth_list_update word_unat_eq_iff)

text \<open>A node linked in before the head \<open>h\<close>.\<close>

lemma dll_push:
  assumes d: "dll D Pv Nx (0 # xs @ [0])" and dist: "distinct (0 # l # xs)"
    and h: "h = hd (xs @ [0])"
    and bnd: "unat h < length D" "unat l < length D" "unat (0 :: u16) < length D"
  shows "dll (wr ((wr D Pv h l)[unat l := (0, h)]) Nx 0 l) Pv Nx (0 # l # xs @ [0])"
    (is "dll ?D' _ _ _")
proof -
  have hl: "h \<noteq> l" using dist h by (cases xs) auto
  have n: "rd ?D' Nx x = (if x = 0 then l else if x = l then h else rd D Nx x)"
    and p: "rd ?D' Pv x = (if x = l then 0 else if x = h then l else rd D Pv x)" for x
    using bnd dist by auto
  have "dll ?D' Pv Nx (xs @ [0]) = dll D Pv Nx (xs @ [0])"
  proof (rule dll_frame; rule ballI)
    fix x assume "x \<in> set (butlast (xs @ [0]))"
    then have "x \<in> set xs" by simp
    then show "rd ?D' Nx x = rd D Nx x" using dist by (auto simp: n)
  next
    fix x assume x: "x \<in> set (tl (xs @ [0]))"
    then have "x \<noteq> h" "x \<noteq> l" using dist h by (cases xs; auto)+
    then show "rd ?D' Pv x = rd D Pv x" by (simp add: p)
  qed
  then have "dll ?D' Pv Nx (xs @ [0])" using d by (cases xs) auto
  moreover have "rd ?D' Nx l = h" "rd ?D' Pv h = l" using n p dist hl by auto
  ultimately have "dll ?D' Pv Nx (l # xs @ [0])" using h by (cases xs) simp_all
  moreover have "rd ?D' Nx 0 = l" "rd ?D' Pv l = 0" using n p by auto
  ultimately show ?thesis by simp
qed

lemma ring_push:
  assumes "ring c xs" and free: "length xs \<noteq> length (nodes c)"
    and l: "l = last_idx c + 1" and h: "h = hd (xs @ [0])"
  shows "ring (c\<lparr>last_idx := l, dlnk := wr ((wr (dlnk c) Pv h l)[unat l := (0, h)]) Nx 0 l\<rparr>) (l # xs)"
    and "unat (l - 1) < length (nodes c)" and "unat l < length (dlnk c)" and "unat h < length (dlnk c)"
    and "l \<notin> set xs" and "l \<noteq> 0" and "h \<noteq> l"
proof -
  note dims = ring_dims [OF assms(1)]
  have less: "unat (last_idx c) < length (nodes c)"
    using free ring_length [OF assms(1)] dims(4) by linarith
  then have ul: "unat l = Suc (unat (last_idx c))"
    using dims(2) by (simp add: l unat_word_ariths)
  then show l0: "l \<noteq> 0" by auto
  have "i \<le> l \<longleftrightarrow> i = l \<or> i \<le> last_idx c" for i
    using ul le_Suc_eq [of "unat i" "unat (last_idx c)"]
    by (metis word_le_nat_alt word_unat_eq_iff)
  then have mem: "\<forall>i. i \<in> set (l # xs) \<longleftrightarrow> i \<noteq> 0 \<and> i \<le> l"
    using ring_set [OF assms(1)] l0 by auto
  show lx: "l \<notin> set xs" using ring_set [OF assms(1), of l] ul by (simp add: word_le_nat_alt)
  show bl: "unat l < length (dlnk c)" and "unat (l - 1) < length (nodes c)"
    using ul dims(3) less unat_pred [OF l0] by linarith+
  have hm: "h \<in> insert 0 (set xs)" using h by (cases xs) auto
  then show bh: "unat h < length (dlnk c)"
    using ring_member(2) [OF assms(1), of h] ring_zero [OF assms(1)] by auto
  show "h \<noteq> l" using hm lx l0 by auto
  have "distinct (0 # l # xs)" using lx l0 ring_notin [OF assms(1)] ring_distinct [OF assms(1)] by simp
  moreover have "dll (dlnk c) Pv Nx (0 # xs @ [0])" using assms(1) by (simp only: ring_def)
  ultimately have "dll (wr ((wr (dlnk c) Pv h l)[unat l := (0, h)]) Nx 0 l) Pv Nx (0 # l # xs @ [0])"
    using dll_push h bh bl ring_zero [OF assms(1)] by blast
  then show "ring (c\<lparr>last_idx := l, dlnk := wr ((wr (dlnk c) Pv h l)[unat l := (0, h)]) Nx 0 l\<rparr>) (l # xs)"
    unfolding ring_def using mem lx ring_distinct [OF assms(1)] dims less ul
    by (intro conjI) (simp_all del: dll.simps)
qed

lemma indexed_push:
  assumes "indexed c xs" and none: "map_of (hmap c) key = None" and l: "l \<notin> set xs"
    and b: "unat (l - 1) < length (nodes c)" and "nd_k x = key"
  shows "indexed (c\<lparr>hmap := AList.update key l (hmap c), nodes := (nodes c)[unat (l - 1) := x]\<rparr>) (l # xs)"
proof -
  let ?c = "c\<lparr>hmap := AList.update key l (hmap c), nodes := (nodes c)[unat (l - 1) := x]\<rparr>"
  have nd': "nd_k (nodeat ?c j) = (if j = l then key else nd_k (nodeat c j))" for j
    using nd_upd [of l "c\<lparr>hmap := M\<rparr>" for M] b assms(5) by simp
  have nokey: "nd_k (nodeat c j) \<noteq> key" if "j \<in> set xs" for j
    using indexed_hmap [OF assms(1), of key j] none that by auto
  have "map_of (hmap ?c) k = Some i \<longleftrightarrow> i \<in> set (l # xs) \<and> nd_k (nodeat ?c i) = k" for k i
    using nokey indexed_hmap [OF assms(1), of k i] l by (auto simp: nd')
  then show ?thesis using assms(1) by (auto simp: indexed_def)
qed

lemma indexed_empty: "indexed c xs \<Longrightarrow> length (hmap c) = 0 \<Longrightarrow> xs = []"
  using indexed_hmap [of c xs] by (cases xs) fastforce+

lemma put_insert:
  assumes "rep c xs" and none: "map_of (hmap c) key = None" and free: "length xs \<noteq> length (nodes c)"
  shows "\<exists>c' xs'. put c key v e cb = Some (c', 1, []) \<and> rep c' xs' \<and>
    ents c' xs' = (key, v, e) # ents c xs \<and> length (nodes c') = length (nodes c)"
proof -
  have r: "ring c xs" using assms(1) by blast
  define l where "l = last_idx c + 1"
  define h where "h = hd (xs @ [0])"
  note push = ring_push [OF r free l_def h_def]
  define x where "x = nodeat c l\<lparr>nd_k := key, nd_v := v, nd_expireAt := e\<rparr>"
  define D where "D = wr ((wr (dlnk c) Pv h l)[unat l := (0, h)]) Nx 0 l"
  define c' where "c' = c\<lparr>last_idx := l, dlnk := D, hmap := AList.update key l (hmap c),
      nodes := (nodes c)[unat (l - 1) := x]\<rparr>"
  have h0: "length (hmap c) = 0 \<Longrightarrow> h = 0" using indexed_empty rep_indexed [OF assms(1)] h_def by fastforce
  have hd: "rd (dlnk c) Nx 0 = h" using ring_head [OF r] h_def by simp
  have "put c key v e cb = Some (c', 1, [])"
  proof (cases "length (hmap c) = 0")
    case True
    then show ?thesis using none free ring_full [OF r] push ring_zero [OF r] hd h0
      by (simp add: put_def Let_def link_get_in link_set_in pair_set_in nd_in node_set_in
          l_def [symmetric] c'_def D_def x_def)
  next
    case False
    then show ?thesis using none free ring_full [OF r] push ring_zero [OF r] hd
      by (simp add: put_def Let_def link_get_in link_set_in pair_set_in nd_in node_set_in
          l_def [symmetric] c'_def D_def x_def)
  qed
  moreover have "rep c' (l # xs)"
  proof -
    let ?d = "c\<lparr>last_idx := l, dlnk := D\<rparr>"
    have "ring ?d (l # xs)" using push(1) by (simp add: D_def)
    moreover have "indexed ?d xs" using rep_indexed [OF assms(1)] by (simp add: indexed_def)
    ultimately show ?thesis
      using indexed_push [of ?d xs key l x] push(2,5) none ring_frame(2) [of "?d\<lparr>hmap := M\<rparr>" for M]
      by (simp add: rep_def c'_def x_def)
  qed
  moreover have "ents c' (l # xs) = (key, v, e) # ents c xs"
  proof -
    let ?d = "c\<lparr>last_idx := l, dlnk := D, hmap := AList.update key l (hmap c)\<rparr>"
    have "ents c' xs = ents ?d xs"
      using ents_node_upd [of l ?d xs x] push(2,5) by (simp add: c'_def)
    moreover have "ent c' l = (key, v, e)"
      using ent_node_upd [of l ?d x] push(2) by (simp add: c'_def x_def)
    ultimately show ?thesis by simp
  qed
  ultimately show ?thesis by (intro exI [of _ c'] exI [of _ "l # xs"]) (simp add: c'_def)
qed

section \<open>Well-formed buckets and their entries\<close>

text \<open>The order of the nodes is computed from the links, \<open>last\<close> steps from the head.\<close>

fun chase :: "nat \<Rightarrow> (u16 \<times> u16) list \<Rightarrow> u16 \<Rightarrow> u16 list" where
  "chase 0 D i = []"
| "chase (Suc n) D i = i # chase n D (rd D Nx i)"

definition order :: "'v cache \<Rightarrow> u16 list" where
  "order c = chase (unat (last_idx c)) (dlnk c) (rd (dlnk c) Nx 0)"

definition wf_bucket :: "'v cache \<Rightarrow> bool" where
  "wf_bucket c \<longleftrightarrow> rep c (order c)"

definition entries :: "'v cache \<Rightarrow> 'v entry list" where
  "entries c = ents c (order c)"

definition capacity :: "'v cache \<Rightarrow> nat" where
  "capacity c = length (nodes c)"

lemma chase_dll: "dll D Pv Nx (x # xs @ [0]) \<Longrightarrow> chase (length xs) D (rd D Nx x) = xs"
  by (induction xs arbitrary: x) auto

lemma rep_order: "rep c xs \<Longrightarrow> order c = xs"
  using chase_dll [of "dlnk c" 0 xs] ring_length [of c xs]
  by (simp add: order_def rep_def ring_def)

lemma rep_wf: "rep c xs \<Longrightarrow> wf_bucket c" "rep c xs \<Longrightarrow> entries c = ents c xs"
  by (simp_all add: wf_bucket_def entries_def rep_order)

lemma wf_Create:
  assumes "cap \<noteq> 0" and "cap \<noteq> 65535"
  shows "wf_bucket (Create cap)" and "entries (Create cap) = []" and "capacity (Create cap) = unat cap"
proof -
  have "unat cap \<noteq> 65535" using assms(2) word_unat_eq_iff [of cap 65535] by simp
  moreover have "unat cap < 65536" using unsigned_less [where ?'a = nat, of cap] by simp
  ultimately have u: "unat cap < 65535" by linarith
  then have "unat (cap + 1) = Suc (unat cap)" by (simp add: unat_word_ariths)
  moreover have "0 < unat cap" using assms(1) by (simp add: unat_gt_0)
  ultimately have "rep (Create cap) []"
    using u by (auto simp: rep_def ring_def indexed_def Create_def rd_def)
  then show "wf_bucket (Create cap)" "entries (Create cap) = []"
    using rep_wf [of "Create cap" "[]"] by simp_all
  show "capacity (Create cap) = unat cap" by (simp add: capacity_def Create_def)
qed

lemma wf_rep: "wf_bucket c \<Longrightarrow> rep c (order c)"
  by (simp add: wf_bucket_def)

lemma entries_distinct: "wf_bucket c \<Longrightarrow> distinct (map fst (entries c))"
  using wf_rep [of c] rep_key_unique [of c "order c"] ring_distinct [OF rep_ring [OF wf_rep]]
  by (auto simp: entries_def distinct_map inj_on_def ent_def)

lemma entries_length: "wf_bucket c \<Longrightarrow> length (entries c) \<le> capacity c"
  using ring_length [OF rep_ring [OF wf_rep], of c] ring_dims(4) [OF rep_ring [OF wf_rep], of c]
  by (simp add: entries_def capacity_def)

lemma capacity_pos: "wf_bucket c \<Longrightarrow> 0 < capacity c"
  using ring_dims(1) [OF rep_ring [OF wf_rep], of c] by (simp add: capacity_def)

lemma entries_hmap:
  assumes "wf_bucket c"
  shows "map_of (entries c) key = map_option (\<lambda>i. (nd_v (nodeat c i), nd_expireAt (nodeat c i))) (map_of (hmap c) key)"
proof (cases "map_of (hmap c) key")
  case None
  then show ?thesis
    using map_of_ents_None [OF rep_indexed [OF wf_rep [OF assms]]] by (simp add: entries_def)
next
  case (Some i)
  then show ?thesis using map_of_ents [OF wf_rep [OF assms]] by (simp add: entries_def)
qed

lemma entries_key: "wf_bucket c \<Longrightarrow> key \<in> fst ` set (entries c) \<longleftrightarrow> map_of (hmap c) key \<noteq> None"
  using entries_hmap [of c key] map_of_eq_None_iff [of "entries c" key] by simp

text \<open>
  The contract. \<open>result\<close> names what every operation keeps: the bucket stays well formed,
  with the entries the specification gives and the same capacity.
\<close>

definition becomes :: "'v cache \<Rightarrow> 'v cache \<Rightarrow> 'v entry list \<Rightarrow> bool" where
  "becomes c c' es \<longleftrightarrow> wf_bucket c' \<and> entries c' = es \<and> capacity c' = capacity c"

lemma becomes_rep: "rep c' xs \<Longrightarrow> ents c' xs = es \<Longrightarrow> length (nodes c') = length (nodes c) \<Longrightarrow> becomes c c' es"
  by (simp add: becomes_def rep_wf capacity_def)

lemma becomes_refl: "wf_bucket c \<Longrightarrow> becomes c c (entries c)"
  by (simp add: becomes_def)

lemma put_result:
  assumes wf: "wf_bucket c"
  shows "\<exists>c'. put c key v e cb =
      Some (c', if key \<in> fst ` set (entries c) then 0 else 1, spec_calls (capacity c) cb key (entries c)) \<and>
    becomes c c' (spec_put (capacity c) key v e (entries c))"
proof (cases "map_of (hmap c) key")
  case (Some i)
  then have k: "key \<in> fst ` set (entries c)"
    by (simp only: entries_key [OF wf]) simp
  obtain c' xs' where "put c key v e cb = Some (c', 0, [])" "rep c' xs'"
    "ents c' xs' = (key, v, e) # without key (entries c)" "length (nodes c') = length (nodes c)"
    using put_update [OF wf_rep [OF wf] Some, of v e cb, folded entries_def] by (elim exE conjE) (rule that)
  with k becomes_rep [OF this(2,3,4)] show ?thesis
    by (intro exI [of _ c']) (simp add: spec_put_def spec_calls_def)
next
  case None
  then have k: "key \<notin> fst ` set (entries c)"
    by (simp only: entries_key [OF wf]) simp
  have len: "length (entries c) = length (order c)" by (simp add: entries_def)
  show ?thesis
  proof (cases "length (order c) = length (nodes c)")
    case True
    obtain c' xs' where "put c key v e cb = Some (c', 1, spec_calls (length (nodes c)) cb key (entries c))"
      "rep c' xs'" "ents c' xs' = (key, v, e) # butlast (entries c)" "length (nodes c') = length (nodes c)"
      using put_evict [OF wf_rep [OF wf] None True, of v e cb, folded entries_def] by (elim exE conjE) (rule that)
    with k True len becomes_rep [OF this(2,3,4)] show ?thesis
      by (intro exI [of _ c']) (simp add: spec_put_def capacity_def)
  next
    case False
    obtain c' xs' where "put c key v e cb = Some (c', 1, [])"
      "rep c' xs'" "ents c' xs' = (key, v, e) # entries c" "length (nodes c') = length (nodes c)"
      using put_insert [OF wf_rep [OF wf] None False, of v e cb, folded entries_def] by (elim exE conjE) (rule that)
    with k False len becomes_rep [OF this(2,3,4)] show ?thesis
      by (intro exI [of _ c']) (simp add: spec_put_def spec_calls_def capacity_def)
  qed
qed

definition found_node :: "string \<Rightarrow> ('v option \<times> int) option \<Rightarrow> 'v node option" where
  "found_node key = map_option (\<lambda>(v, e). \<lparr>nd_k = key, nd_v = v, nd_expireAt = e\<rparr>)"

lemma get_result:
  assumes wf: "wf_bucket c"
  shows "\<exists>c'. get c key = Some (c', found_node key (map_of (entries c) key),
      if map_of (entries c) key = None then 0 else 1) \<and>
    becomes c c' (spec_get key (entries c))"
proof (cases "map_of (hmap c) key")
  case (Some i)
  obtain c' xs' x where g: "get c key = Some (c', Some x, 1)" "rep c' xs'"
    "map_of (entries c) key = Some (nd_v x, nd_expireAt x)" "nd_k x = key"
    "ents c' xs' = (key, nd_v x, nd_expireAt x) # without key (entries c)"
    "length (nodes c') = length (nodes c)"
    using get_present [OF wf_rep [OF wf] Some, folded entries_def] by (elim exE conjE) (rule that)
  then have "x = \<lparr>nd_k = key, nd_v = nd_v x, nd_expireAt = nd_expireAt x\<rparr>" by simp
  with g becomes_rep [OF g(2,5,6)] show ?thesis
    by (intro exI [of _ c']) (simp add: found_node_def spec_get_def)
next
  case None
  then show ?thesis using entries_hmap [OF wf, of key] becomes_refl [OF wf]
    by (simp add: get_def found_node_def spec_get_def)
qed

definition del_reply :: "string \<Rightarrow> ('v option \<times> int) option \<Rightarrow> 'v node option \<times> nat \<times> int" where
  "del_reply key ve = (case ve of
     Some (v, e) \<Rightarrow> if 0 < e then (Some \<lparr>nd_k = key, nd_v = v, nd_expireAt = 0\<rparr>, 1, e) else (None, 0, 0)
   | None \<Rightarrow> (None, 0, 0))"

lemma del_result:
  assumes wf: "wf_bucket c"
  shows "\<exists>c'. del c key = Some (c', del_reply key (map_of (entries c) key)) \<and>
    becomes c c' (spec_del key (entries c))"
proof (cases "map_of (hmap c) key")
  case (Some i)
  have m: "map_of (entries c) key = Some (nd_v (nodeat c i), nd_expireAt (nodeat c i))"
    using entries_hmap [OF wf] Some by simp
  have i: "i \<in> set (order c)" "nd_k (nodeat c i) = key"
    using indexed_hmap [OF rep_indexed [OF wf_rep [OF wf]]] Some by blast+
  show ?thesis
  proof (cases "0 < nd_expireAt (nodeat c i)")
    case True
    obtain c' xs' where d: "del c key = Some (c', Some (nodeat c i\<lparr>nd_expireAt := 0\<rparr>), 1, nd_expireAt (nodeat c i))"
      "rep c' xs'" "ents c' xs' = without key (entries c) @ [(key, nd_v (nodeat c i), 0)]"
      "length (nodes c') = length (nodes c)"
      using del_present [OF wf_rep [OF wf] Some True, folded entries_def] by (elim exE conjE) (rule that)
    have "nodeat c i\<lparr>nd_expireAt := 0\<rparr> = \<lparr>nd_k = key, nd_v = nd_v (nodeat c i), nd_expireAt = 0\<rparr>"
      using i(2) by simp
    with d m True becomes_rep [OF d(2,3,4)] show ?thesis
      by (intro exI [of _ c']) (simp add: del_reply_def spec_del_def)
  next
    case False
    then have "del c key = Some (c, None, 0, 0)"
      using Some ring_member(3) [OF rep_ring [OF wf_rep [OF wf]] i(1)] by (simp add: del_def nd_in)
    with m False becomes_refl [OF wf] show ?thesis by (simp add: del_reply_def spec_del_def)
  qed
next
  case None
  then show ?thesis using entries_hmap [OF wf, of key] becomes_refl [OF wf]
    by (simp add: del_def del_reply_def spec_del_def)
qed

section \<open>Walking a bucket\<close>

fun walk_spec :: "(string \<Rightarrow> 'v option \<Rightarrow> int \<Rightarrow> 's \<Rightarrow> bool \<times> 's) \<Rightarrow> 'v entry list \<Rightarrow> 's \<Rightarrow> 's" where
  "walk_spec w [] s = s"
| "walk_spec w ((k, v, e) # es) s =
     (if 0 < e then (case w k v e s of (go, s') \<Rightarrow> if go then walk_spec w es s' else s')
      else walk_spec w es s)"

lemma walk_from_ring:
  assumes "ring c xs"
  shows "set zs \<subseteq> set xs \<Longrightarrow> dll (dlnk c) Pv Nx (zs @ [0]) \<Longrightarrow>
    walk_from c w (hd (zs @ [0])) s = Some (walk_spec w (ents c zs) s)"
proof (induction zs arbitrary: s)
  case Nil
  then show ?case by (simp add: walk_from.simps [of c w 0 s])
next
  case (Cons z zs)
  have z: "z \<noteq> 0" "unat z < length (dlnk c)" "unat (z - 1) < length (nodes c)"
    using ring_member [OF assms, of z] Cons.prems(1) by simp_all
  have next': "rd (dlnk c) Nx z = hd (zs @ [0])" and tl: "dll (dlnk c) Pv Nx (zs @ [0])"
    using Cons.prems(2) by (cases zs; simp)+
  have IH: "walk_from c w (hd (zs @ [0])) s = Some (walk_spec w (ents c zs) s)" for s
    using Cons.IH [OF _ tl] Cons.prems(1) by simp
  show ?case
    using z next'
    by (subst walk_from.simps)
      (auto simp: nd_in link_get_in IH ent_def split: prod.split)
qed

lemma walk_result: "wf_bucket c \<Longrightarrow> walk c w s = Some (walk_spec w (entries c) s)"
proof -
  assume wf: "wf_bucket c"
  have r: "ring c (order c)" using wf_rep [OF wf] by blast
  have d: "dll (dlnk c) Pv Nx (order c @ [0])" using r by (cases "order c") (auto simp: ring_def)
  show ?thesis
    using walk_from_ring [OF r subset_refl d, of w s] ring_head [OF r] ring_zero [OF r]
    by (simp add: walk_def link_get_in entries_def)
qed

lemma walk_spec_collect:
  "(\<And>k v e s. w k v e s = (True, f k v e s)) \<Longrightarrow>
   walk_spec w es s = fold (\<lambda>(k, v, e) s. f k v e s) (filter (\<lambda>x. 0 < snd (snd x)) es) s"
  by (induction es arbitrary: s) auto

section \<open>The contract of a bucket, and what a client gets from it\<close>

text \<open>The value a client can see under a key: a stored entry that is not marked deleted.\<close>

definition live :: "'v entry list \<Rightarrow> string \<Rightarrow> ('v option \<times> int) option" where
  "live es k = (case map_of es k of
     Some (v, e) \<Rightarrow> if 0 < e then Some (v, e) else None
   | None \<Rightarrow> None)"

lemma map_of_without: "map_of (without key es) k = (if k = key then None else map_of es k)"
  by (induction es) auto

lemma map_of_butlast:
  "distinct (map fst es) \<Longrightarrow> es \<noteq> [] \<Longrightarrow>
   map_of (butlast es) k = (if k = fst (last es) then None else map_of es k)"
proof (induction es)
  case (Cons x es)
  have "fst x \<noteq> fst (last es)" if "es \<noteq> []"
    using Cons.prems(1) that by (auto simp: image_iff)
  with Cons show ?case by (cases x; cases "es = []") auto
qed simp

lemma live_put:
  assumes "distinct (map fst es)" and "0 < cap"
  shows "live (spec_put cap key v e es) k =
    (if k = key then if 0 < e then Some (v, e) else None
     else if key \<notin> fst ` set es \<and> length es = cap \<and> k = fst (last es) then None
     else live es k)"
proof -
  have "es \<noteq> []" if "length es = cap" using that assms(2) by auto
  then show ?thesis
    using assms(1) by (auto simp: live_def spec_put_def map_of_without map_of_butlast)
qed

lemma live_del:
  "live (spec_del key es) k = (if k = key then None else live es k)"
  by (auto simp: live_def spec_del_def map_of_without map_add_def split: option.splits)

lemma live_get: "live (spec_get key es) k = live es k"
  by (auto simp: live_def spec_get_def map_of_without split: option.splits)

locale level =
  fixes wf :: "'c \<Rightarrow> bool"
    and es :: "'c \<Rightarrow> 'v entry list"
    and cap :: "'c \<Rightarrow> nat"
    and bput :: "'c \<Rightarrow> string \<Rightarrow> 'v option \<Rightarrow> int \<Rightarrow> bool \<Rightarrow> ('c \<times> nat \<times> (string \<times> 'v option) list) option"
    and bget :: "'c \<Rightarrow> string \<Rightarrow> ('c \<times> 'v node option \<times> nat) option"
    and bdel :: "'c \<Rightarrow> string \<Rightarrow> ('c \<times> 'v node option \<times> nat \<times> int) option"
    and bwalk :: "'c \<Rightarrow> (string \<Rightarrow> 'v option \<Rightarrow> int \<Rightarrow> 's \<Rightarrow> bool \<times> 's) \<Rightarrow> 's \<Rightarrow> 's option"
  assumes put_law: "wf c \<Longrightarrow> \<exists>c'. bput c k v e cb =
      Some (c', if k \<in> fst ` set (es c) then 0 else 1, spec_calls (cap c) cb k (es c)) \<and>
      wf c' \<and> es c' = spec_put (cap c) k v e (es c) \<and> cap c' = cap c"
    and get_law: "wf c \<Longrightarrow> \<exists>c'. bget c k = Some (c', found_node k (map_of (es c) k),
        if map_of (es c) k = None then 0 else 1) \<and>
      wf c' \<and> es c' = spec_get k (es c) \<and> cap c' = cap c"
    and del_law: "wf c \<Longrightarrow> \<exists>c'. bdel c k = Some (c', del_reply k (map_of (es c) k)) \<and>
      wf c' \<and> es c' = spec_del k (es c) \<and> cap c' = cap c"
    and walk_law: "wf c \<Longrightarrow> bwalk c w s = Some (walk_spec w (es c) s)"
    and keys_law: "wf c \<Longrightarrow> distinct (map fst (es c))"
    and cap_law: "wf c \<Longrightarrow> 0 < cap c \<and> length (es c) \<le> cap c"
begin

lemma put_effect:
  assumes "wf c"
  obtains c' r calls where "bput c key v e cb = Some (c', r, calls)" "wf c'" "cap c' = cap c"
    "live (es c') key = (if 0 < e then Some (v, e) else None)"
    "\<And>k. k \<noteq> key \<Longrightarrow> live (es c') k = live (es c) k \<or> live (es c') k = None"
    "es c' = spec_put (cap c) key v e (es c)"
    "calls = spec_calls (cap c) cb key (es c)"
proof -
  obtain c' where c': "bput c key v e cb = Some (c', if key \<in> fst ` set (es c) then 0 else 1,
      spec_calls (cap c) cb key (es c))" "wf c'"
    "es c' = spec_put (cap c) key v e (es c)" "cap c' = cap c"
    using put_law [OF assms] by blast
  show ?thesis
    by (rule that [OF c'(1,2,4) _ _ c'(3) refl])
      (use c'(3) live_put [OF keys_law [OF assms]] cap_law [OF assms] in auto)
qed

lemma get_effect:
  assumes "wf c"
  obtains c' where "bget c key = Some (c', found_node key (map_of (es c) key),
      if map_of (es c) key = None then 0 else 1)"
    "wf c'" "cap c' = cap c" "\<And>k. live (es c') k = live (es c) k" "es c' = spec_get key (es c)"
proof -
  obtain c' where c': "bget c key = Some (c', found_node key (map_of (es c) key),
      if map_of (es c) key = None then 0 else 1)" "wf c'" "es c' = spec_get key (es c)" "cap c' = cap c"
    using get_law [OF assms] by blast
  show ?thesis
    by (rule that [OF c'(1,2,4) _ c'(3)]) (simp add: c'(3) live_get)
qed

lemma del_effect:
  assumes "wf c"
  obtains c' where "bdel c key = Some (c', (case live (es c) key of
      Some (v, e) \<Rightarrow> (Some \<lparr>nd_k = key, nd_v = v, nd_expireAt = 0\<rparr>, 1, e) | None \<Rightarrow> (None, 0, 0)))"
    "wf c'" "cap c' = cap c" "\<And>k. live (es c') k = (if k = key then None else live (es c) k)"
    "es c' = spec_del key (es c)"
proof -
  obtain c' where c': "bdel c key = Some (c', del_reply key (map_of (es c) key))" "wf c'"
    "es c' = spec_del key (es c)" "cap c' = cap c"
    using del_law [OF assms] by blast
  have "del_reply key (map_of (es c) key) = (case live (es c) key of
      Some (v, e) \<Rightarrow> (Some \<lparr>nd_k = key, nd_v = v, nd_expireAt = 0\<rparr>, 1, e) | None \<Rightarrow> (None, 0, 0))"
    by (auto simp: del_reply_def live_def split: option.splits)
  with c'(1) show ?thesis
    by (intro that [OF _ c'(2,4) _ c'(3)]) (simp_all add: c'(3) live_del)
qed

end

interpretation bk: level wf_bucket entries capacity put get del walk
proof (unfold_locales, goal_cases)
  case 1 then show ?case using put_result unfolding becomes_def by blast
next
  case 2 then show ?case using get_result unfolding becomes_def by blast
next
  case 3 then show ?case using del_result unfolding becomes_def by blast
next
  case 4 then show ?case by (rule walk_result)
next
  case 5 then show ?case by (rule entries_distinct)
next
  case 6 then show ?case using capacity_pos entries_length by blast
qed

end
