(* ===== verification/Hashing.thy ===== *)
theory Hashing
  imports Prelude
begin

text \<open>
  The 32-bit BKDR hash and the 16-bit mask of \<open>store/lru2.go\<close> (\<open>hashBKRD\<close>,
  \<open>maskOfNextPowOf2\<close>), with the arithmetic meaning of the mask: one less than the least power
  of two that is not below the bucket count.
\<close>

unbundle bit_operations_syntax

definition hashBKRD :: "string \<Rightarrow> u32" where
  "hashBKRD s = foldl (\<lambda>hash ch. hash * 131 + of_char ch) 0 s"

definition maskOfNextPowOf2 :: "u16 \<Rightarrow> u16" where
  "maskOfNextPowOf2 cap =
     (if cap > 0 \<and> cap AND (cap - 1) = 0 then cap - 1
      else
        let cap = cap OR drop_bit 1 cap;
            cap = cap OR drop_bit 2 cap;
            cap = cap OR drop_bit 4 cap
        in cap OR drop_bit 8 cap)"

lemma bit_top:
  assumes "2 ^ n \<le> unat x" and "unat x < 2 ^ Suc n"
  shows "bit (x :: u16) n" and "bit x j \<Longrightarrow> j \<le> n"
proof -
  have "unat x div 2 ^ n = 1"
    using assms by (intro div_nat_eqI) simp_all
  then have "bit (unat x) n" by (simp add: bit_iff_odd)
  then show "bit x n" by (simp add: bit_unsigned_iff)
  assume "bit x j"
  then have "bit (unat x) j" using bit_imp_le_length [of x j] by (simp add: bit_unsigned_iff)
  then have "unat x div 2 ^ j \<noteq> 0" unfolding bit_iff_odd by (rule odd_pos [THEN less_imp_neq, THEN not_sym])
  then have "2 ^ j \<le> unat x" by (metis div_less not_le)
  with assms(2) have "(2 :: nat) ^ j < 2 ^ Suc n" by linarith
  then show "j \<le> n" using power_less_imp_less_exp [of "2 :: nat" j "Suc n"] by simp
qed

text \<open>Each \<open>cap |= cap >> k\<close> doubles the window in which a set bit is smeared downwards.\<close>

lemma smear_step:
  assumes "\<And>i. bit (c :: u16) i \<longleftrightarrow> (\<exists>d < k. bit cap (d + i))"
  shows "bit (c OR drop_bit k c) i \<longleftrightarrow> (\<exists>d < 2 * k. bit (cap :: u16) (d + i))"
proof -
  have "(\<exists>d < 2 * k. bit cap (d + i)) \<longleftrightarrow> (\<exists>d < k. bit cap (d + i)) \<or> (\<exists>d < k. bit cap (d + (k + i)))"
  proof
    assume "\<exists>d < 2 * k. bit cap (d + i)"
    then obtain d where d: "d < 2 * k" "bit cap (d + i)" by blast
    show "(\<exists>d < k. bit cap (d + i)) \<or> (\<exists>d < k. bit cap (d + (k + i)))"
    proof (cases "d < k")
      case False
      with d show ?thesis by (intro disjI2 exI [of _ "d - k"]) simp
    qed (use d in blast)
  next
    assume "(\<exists>d < k. bit cap (d + i)) \<or> (\<exists>d < k. bit cap (d + (k + i)))"
    then show "\<exists>d < 2 * k. bit cap (d + i)"
    proof
      assume "\<exists>d < k. bit cap (d + i)"
      then obtain d where "d < k" "bit cap (d + i)" by blast
      then show ?thesis by (intro exI [of _ d]) simp
    next
      assume "\<exists>d < k. bit cap (d + (k + i))"
      then obtain d where "d < k" "bit cap (d + (k + i))" by blast
      then show ?thesis by (intro exI [of _ "d + k"]) (simp add: add.assoc)
    qed
  qed
  then show ?thesis using assms by (simp add: bit_or_iff bit_drop_bit_eq)
qed

lemma bit_smear:
  "bit (let cap = cap OR drop_bit 1 cap; cap = cap OR drop_bit 2 cap; cap = cap OR drop_bit 4 cap
        in cap OR drop_bit 8 cap) i \<longleftrightarrow> (\<exists>d < 16. bit (cap :: u16) (d + i))"
proof -
  let ?c1 = "cap OR drop_bit 1 cap"
  let ?c2 = "?c1 OR drop_bit 2 ?c1"
  let ?c3 = "?c2 OR drop_bit 4 ?c2"
  have "bit ?c1 i \<longleftrightarrow> (\<exists>d < 2. bit cap (d + i))" for i
    using smear_step [of cap 1 cap i] by simp
  then have "bit ?c2 i \<longleftrightarrow> (\<exists>d < 4. bit cap (d + i))" for i
    using smear_step [of ?c1 2 cap i] by simp
  then have "bit ?c3 i \<longleftrightarrow> (\<exists>d < 8. bit cap (d + i))" for i
    using smear_step [of ?c2 4 cap i] by simp
  then show ?thesis
    using smear_step [of ?c3 8 cap i] by (simp add: Let_def)
qed

lemma smear_top:
  assumes "2 ^ n \<le> unat cap" and "unat cap < 2 ^ Suc n"
  shows "(let cap = cap OR drop_bit 1 cap; cap = cap OR drop_bit 2 cap; cap = cap OR drop_bit 4 cap
        in cap OR drop_bit 8 (cap :: u16)) = Bit_Operations.mask (Suc n)"
proof (rule bit_word_eqI)
  fix i assume i: "i < LENGTH(16)"
  have n: "n < 16" using bit_imp_le_length [OF bit_top(1) [OF assms]] by simp
  show "bit (let cap = cap OR drop_bit 1 cap; cap = cap OR drop_bit 2 cap; cap = cap OR drop_bit 4 cap
        in cap OR drop_bit 8 cap) i \<longleftrightarrow> bit (Bit_Operations.mask (Suc n) :: u16) i"
    unfolding bit_smear
  proof
    assume "\<exists>d < 16. bit cap (d + i)"
    then obtain d where "bit cap (d + i)" by blast
    then have "d + i \<le> n" by (rule bit_top(2) [OF assms])
    with i show "bit (Bit_Operations.mask (Suc n) :: u16) i" by (simp add: bit_mask_iff)
  next
    assume "bit (Bit_Operations.mask (Suc n) :: u16) i"
    then have "i \<le> n" by (simp add: bit_mask_iff less_Suc_eq_le)
    with n bit_top(1) [OF assms] show "\<exists>d < 16. bit cap (d + i)"
      by (intro exI [of _ "n - i"]) simp
  qed
qed

text \<open>\<open>cap & (cap-1) == 0\<close> tells the powers of two.\<close>

lemma power_test:
  assumes "2 ^ n \<le> unat cap" and "unat cap < 2 ^ Suc n"
  shows "cap AND (cap - 1) = 0 \<longleftrightarrow> unat (cap :: u16) = 2 ^ n"
proof -
  have c0: "cap \<noteq> 0" using assms(1) by auto
  have u: "unat (cap - 1) = unat cap - 1" using c0 by (rule unat_minus_one)
  have n: "n < 16" using bit_imp_le_length [OF bit_top(1) [OF assms]] by simp
  show ?thesis
  proof
    assume z: "cap AND (cap - 1) = 0"
    show "unat cap = 2 ^ n"
    proof (rule ccontr)
      assume "unat cap \<noteq> 2 ^ n"
      then have "2 ^ n \<le> unat (cap - 1)" "unat (cap - 1) < 2 ^ Suc n" using u assms by linarith+
      then have "bit (cap - 1) n" by (rule bit_top(1))
      then have "bit (cap AND (cap - 1)) n" using bit_top(1) [OF assms] by (simp add: bit_and_iff)
      then show False using z by simp
    qed
  next
    assume e: "unat cap = 2 ^ n"
    have "bit cap j \<longleftrightarrow> j = n" if "j < 16" for j
      using that bit_unsigned_iff [where ?'a = nat, of cap j] e by (simp add: bit_exp_iff)
    moreover have "bit (cap - 1) j \<longleftrightarrow> j < n" if "j < 16" for j
      using that bit_unsigned_iff [where ?'a = nat, of "cap - 1" j] u e
        bit_mask_iff [where ?'a = nat, of n j]
      by (simp add: mask_eq_exp_minus_1)
    ultimately show "cap AND (cap - 1) = 0"
      by (intro bit_word_eqI) (simp add: bit_and_iff)
  qed
qed

theorem mask_bounds:
  assumes "cap \<noteq> 0"
  shows "\<exists>n. unat (maskOfNextPowOf2 cap) + 1 = 2 ^ n \<and> unat cap \<le> 2 ^ n \<and> 2 ^ n < 2 * unat cap"
proof -
  have "1 \<le> unat cap" using assms by (simp add: Suc_le_eq unat_gt_0)
  then obtain n where n: "2 ^ n \<le> unat cap" "unat cap < 2 ^ Suc n"
    using ex_power_ivl1 [of 2 "unat cap"] by auto
  show ?thesis
  proof (cases "cap AND (cap - 1) = 0")
    case True
    then have "unat cap = 2 ^ n" using power_test [OF n] by simp
    moreover have "unat (cap - 1) = unat cap - 1" using assms by (rule unat_minus_one)
    moreover have "0 < cap" using assms by (simp add: word_gt_0)
    ultimately show ?thesis
      using True by (intro exI [of _ n]) (simp add: maskOfNextPowOf2_def)
  next
    case False
    then have "maskOfNextPowOf2 cap = Bit_Operations.mask (Suc n)"
      using smear_top [OF n] by (simp add: maskOfNextPowOf2_def)
    moreover have "Suc n \<le> 16" using bit_imp_le_length [OF bit_top(1) [OF n]] by simp
    then have "unat (Bit_Operations.mask (Suc n) :: u16) = Bit_Operations.mask (Suc n)"
      by (intro bit_eqI) (auto simp: bit_unsigned_iff bit_mask_iff)
    ultimately have "unat (maskOfNextPowOf2 cap) + 1 = 2 ^ Suc n"
      by (simp add: mask_eq_exp_minus_1)
    moreover have "unat cap \<noteq> 2 ^ n" using False power_test [OF n] by simp
    ultimately show ?thesis using n by (intro exI [of _ "Suc n"]) simp
  qed
qed

lemma mask_zero: "maskOfNextPowOf2 0 = 0"
  by (simp add: maskOfNextPowOf2_def)

end
