(* ===== verification/Lru2.thy ===== *)
theory Lru2
  imports Bucket Options Hashing
begin

text \<open>
  The two-level store \<open>lru2Store\<close> of \<open>store/lru2.go\<close>: an array of bucket pairs, selected by
  the low bits of a 32-bit BKDR hash of the key. A key is written into level one (\<open>caches[i][0]\<close>);
  a hit moves it to level two. Every operation holds the lock of its bucket while it runs, so a
  bucket operation is one step; the store's clock is an argument (\<open>now\<close>), read as often as
  the code reads it. The operations on one bucket pair come first (\<open>pair_\<dots>\<close>), then the
  store's operations, which pick the pair; \<open>None\<close> is a panic. The callback's calls are
  collected in the field \<open>evicted\<close>; \<open>ticking\<close> says whether the cleanup ticker runs.
\<close>

unbundle bit_operations_syntax

section \<open>State and construction\<close>

type_synonym 'v pair = "'v cache \<times> 'v cache"
type_synonym 'v calls = "(string \<times> 'v option) list"

record 'v lru2Store =
  caches :: "'v pair list"
  onEvicted :: bool
  mask :: u32
  ticking :: bool
  evicted :: "'v calls"

definition lru2_defaults :: "Options \<Rightarrow> Options" where
  "lru2_defaults opts =
     (let opts = (if BucketCount opts = 0 then opts\<lparr>BucketCount := 16\<rparr> else opts);
          opts = (if CapPerBucket opts = 0 then opts\<lparr>CapPerBucket := 1024\<rparr> else opts);
          opts = (if Level2Cap opts = 0 then opts\<lparr>Level2Cap := 1024\<rparr> else opts)
      in if CleanupInterval opts \<le> 0 then opts\<lparr>CleanupInterval := minute\<rparr> else opts)"

definition newLRU2Cache :: "Options \<Rightarrow> 'v lru2Store" where
  "newLRU2Cache opts =
     (let opts = lru2_defaults opts;
          mk = maskOfNextPowOf2 (BucketCount opts)
      in \<lparr>caches = replicate (unat (mk + 1)) (Create (CapPerBucket opts), Create (Level2Cap opts)),
          onEvicted = OnEvicted opts, mask = ucast mk, ticking = True, evicted = []\<rparr>)"

definition bucket_of :: "'v lru2Store \<Rightarrow> string \<Rightarrow> nat" where
  "bucket_of s key = unat (hashBKRD key AND mask s)"

section \<open>One bucket pair\<close>

text \<open>\<open>delete\<close>: level one, level two, then at most one call of the callback.\<close>

definition pair_delete :: "bool \<Rightarrow> 'v pair \<Rightarrow> string \<Rightarrow> ('v pair \<times> bool \<times> 'v calls) option" where
  "pair_delete cb b key = do {
     (c0, n1, s1, _) \<leftarrow> del (fst b) key;
     (c1, n2, s2, _) \<leftarrow> del (snd b) key;
     let deleted = (s1 > 0 \<or> s2 > 0);
     let v1 = Option.bind n1 nd_v;
     let v2 = Option.bind n2 nd_v;
     let calls = (if deleted \<and> cb then
                    if v1 \<noteq> None then [(key, v1)] else if v2 \<noteq> None then [(key, v2)] else []
                  else []);
     Some ((c0, c1), deleted, calls) }"

text \<open>\<open>_get\<close>, called for level two only.\<close>

definition level_get :: "'v cache \<Rightarrow> string \<Rightarrow> int \<Rightarrow> ('v cache \<times> 'v node option \<times> nat) option" where
  "level_get c key currentTime = do {
     (c, n, st) \<leftarrow> get c key;
     (case n of
        Some x \<Rightarrow>
          if st > 0 then
            if nd_expireAt x \<le> 0 \<or> nd_expireAt x \<le> currentTime then Some (c, None, 0)
            else Some (c, n, st)
          else Some (c, None, 0)
      | None \<Rightarrow> Some (c, None, 0)) }"

text \<open>
  \<open>Get\<close> reads the clock itself (\<open>now\<close>) and \<open>_get\<close> reads it again (\<open>now'\<close>). The reply is the
  value and the flag of the code's pair of results.
\<close>

definition pair_Get :: "bool \<Rightarrow> 'v pair \<Rightarrow> string \<Rightarrow> int \<Rightarrow> int \<Rightarrow>
    ('v pair \<times> ('v option \<times> bool) \<times> 'v calls) option" where
  "pair_Get cb b key now now' = do {
     (c0, n1, status1, expireAt) \<leftarrow> del (fst b) key;
     let b = (c0, snd b);
     if status1 > 0 then
       if expireAt > 0 \<and> expireAt \<le> now then do {
         (b, _, calls) \<leftarrow> pair_delete cb b key;
         Some (b, (None, False), calls) }
       else do {
         n1 \<leftarrow> n1;
         (c1, _, calls) \<leftarrow> put (snd b) key (nd_v n1) expireAt cb;
         Some ((fst b, c1), (nd_v n1, True), calls) }
     else do {
       (c1, n2, status2) \<leftarrow> level_get (snd b) key now';
       let b = (fst b, c1);
       (case n2 of
          Some x \<Rightarrow>
            if status2 > 0 then
              if nd_expireAt x > 0 \<and> nd_expireAt x \<le> now then do {
                (b, _, calls) \<leftarrow> pair_delete cb b key;
                Some (b, (None, False), calls) }
              else Some (b, (nd_v x, True), [])
            else Some (b, (None, False), [])
        | None \<Rightarrow> Some (b, (None, False), [])) } }"

definition pair_Set :: "bool \<Rightarrow> 'v pair \<Rightarrow> string \<Rightarrow> 'v option \<Rightarrow> int \<Rightarrow>
    ('v pair \<times> 'v calls) option" where
  "pair_Set cb b key value expireAt = do {
     (c0, _, calls) \<leftarrow> put (fst b) key value expireAt cb;
     Some ((c0, snd b), calls) }"

definition level_value :: "'v cache \<Rightarrow> string \<Rightarrow> int \<Rightarrow> 'v option option option" where
  "level_value c key currentTime = (case map_of (hmap c) key of
     Some idx \<Rightarrow> do {
       x \<leftarrow> node_get c idx;
       if nd_expireAt x > 0 \<and> currentTime < nd_expireAt x then Some (Some (nd_v x)) else Some None }
   | None \<Rightarrow> Some None)"

definition pair_GetValue :: "'v pair \<Rightarrow> string \<Rightarrow> int \<Rightarrow> ('v option \<times> bool) option" where
  "pair_GetValue b key currentTime = do {
     r0 \<leftarrow> level_value (fst b) key currentTime;
     (case r0 of
        Some v \<Rightarrow> Some (v, True)
      | None \<Rightarrow> do {
          r1 \<leftarrow> level_value (snd b) key currentTime;
          (case r1 of Some v \<Rightarrow> Some (v, True) | None \<Rightarrow> Some (None, False)) }) }"

text \<open>The walks of \<open>Clear\<close>, \<open>Len\<close>, \<open>Keys\<close> and \<open>cleanupLoop\<close> over one pair.\<close>

definition pair_clear_keys :: "'v pair \<Rightarrow> string list \<Rightarrow> string list option" where
  "pair_clear_keys b keys = do {
     keys \<leftarrow> walk (fst b) (\<lambda>key value expireAt keys. (True, keys @ [key])) keys;
     walk (snd b) (\<lambda>key value expireAt keys.
       (True, if key \<in> set keys then keys else keys @ [key])) keys }"

definition pair_count :: "'v pair \<Rightarrow> nat \<Rightarrow> nat option" where
  "pair_count b cnt = do {
     cnt \<leftarrow> walk (fst b) (\<lambda>key value expireAt cnt. (True, cnt + 1)) cnt;
     walk (snd b) (\<lambda>key value expireAt cnt. (True, cnt + 1)) cnt }"

definition note_key :: "string \<Rightarrow> (string, bool) gomap \<times> string list \<Rightarrow> (string, bool) gomap \<times> string list" where
  "note_key key = (\<lambda>(seen, keys).
     if map_of seen key = None then (AList.update key True seen, keys @ [key]) else (seen, keys))"

definition pair_keys :: "'v pair \<Rightarrow> (string, bool) gomap \<times> string list \<Rightarrow>
    ((string, bool) gomap \<times> string list) option" where
  "pair_keys b st = do {
     st \<leftarrow> walk (fst b) (\<lambda>key value expireAt st. (True, note_key key st)) st;
     walk (snd b) (\<lambda>key value expireAt st. (True, note_key key st)) st }"

definition pair_expired :: "'v pair \<Rightarrow> int \<Rightarrow> string list option" where
  "pair_expired b currentTime = do {
     ks \<leftarrow> walk (fst b) (\<lambda>key value expireAt ks.
       (True, if expireAt > 0 \<and> expireAt \<le> currentTime then ks @ [key] else ks)) [];
     walk (snd b) (\<lambda>key value expireAt ks.
       (True, if expireAt > 0 \<and> expireAt \<le> currentTime
              then if key \<in> set ks then ks else ks @ [key] else ks)) ks }"

fun pair_delete_all :: "bool \<Rightarrow> 'v pair \<Rightarrow> string list \<Rightarrow> ('v pair \<times> 'v calls) option" where
  "pair_delete_all cb b [] = Some (b, [])"
| "pair_delete_all cb b (key # keys) = do {
     (b, _, calls) \<leftarrow> pair_delete cb b key;
     (b, calls') \<leftarrow> pair_delete_all cb b keys;
     Some (b, calls @ calls') }"

definition pair_cleanup :: "bool \<Rightarrow> 'v pair \<Rightarrow> int \<Rightarrow> ('v pair \<times> 'v calls) option" where
  "pair_cleanup cb b currentTime = do {
     ks \<leftarrow> pair_expired b currentTime;
     pair_delete_all cb b ks }"

section \<open>The store\<close>

text \<open>The pair a key selects; \<open>set_pair\<close> writes it back and logs the callback's calls.\<close>

definition set_pair :: "'v lru2Store \<Rightarrow> nat \<Rightarrow> 'v pair \<Rightarrow> 'v calls \<Rightarrow> 'v lru2Store" where
  "set_pair s i b calls = s\<lparr>caches := (caches s)[i := b], evicted := evicted s @ calls\<rparr>"

definition lru2_Get :: "'v lru2Store \<Rightarrow> string \<Rightarrow> int \<Rightarrow> int \<Rightarrow> ('v lru2Store \<times> 'v option \<times> bool) option" where
  "lru2_Get s key now now' = do {
     b \<leftarrow> slice_get (caches s) (bucket_of s key);
     (b, r, calls) \<leftarrow> pair_Get (onEvicted s) b key now now';
     Some (set_pair s (bucket_of s key) b calls, r) }"

definition lru2_SetWithExpiration :: "'v lru2Store \<Rightarrow> string \<Rightarrow> 'v option \<Rightarrow> int \<Rightarrow> int \<Rightarrow> 'v lru2Store option" where
  "lru2_SetWithExpiration s key value expiration now = do {
     let expireAt = (if expiration > 0 then wrap64 (now + expiration) else 0);
     b \<leftarrow> slice_get (caches s) (bucket_of s key);
     (b, calls) \<leftarrow> pair_Set (onEvicted s) b key value expireAt;
     Some (set_pair s (bucket_of s key) b calls) }"

definition default_expiration :: int where
  "default_expiration = 9999999999999999"

definition lru2_Set :: "'v lru2Store \<Rightarrow> string \<Rightarrow> 'v option \<Rightarrow> int \<Rightarrow> 'v lru2Store option" where
  "lru2_Set s key value now = lru2_SetWithExpiration s key value default_expiration now"

definition lru2_Delete :: "'v lru2Store \<Rightarrow> string \<Rightarrow> ('v lru2Store \<times> bool) option" where
  "lru2_Delete s key = do {
     b \<leftarrow> slice_get (caches s) (bucket_of s key);
     (b, deleted, calls) \<leftarrow> pair_delete (onEvicted s) b key;
     Some (set_pair s (bucket_of s key) b calls, deleted) }"

definition lru2_GetValue :: "'v lru2Store \<Rightarrow> string \<Rightarrow> int \<Rightarrow> ('v option \<times> bool) option" where
  "lru2_GetValue s key now = do {
     b \<leftarrow> slice_get (caches s) (bucket_of s key);
     pair_GetValue b key now }"

text \<open>The loops over \<open>s.caches\<close>.\<close>

fun over_pairs :: "('v pair \<Rightarrow> 's \<Rightarrow> 's option) \<Rightarrow> 'v pair list \<Rightarrow> 's \<Rightarrow> 's option" where
  "over_pairs f [] st = Some st"
| "over_pairs f (b # bs) st = do { st \<leftarrow> f b st; over_pairs f bs st }"

fun lru2_delete_keys :: "'v lru2Store \<Rightarrow> string list \<Rightarrow> 'v lru2Store option" where
  "lru2_delete_keys s [] = Some s"
| "lru2_delete_keys s (key # keys) = do {
     (s, _) \<leftarrow> lru2_Delete s key;
     lru2_delete_keys s keys }"

definition lru2_Clear :: "'v lru2Store \<Rightarrow> 'v lru2Store option" where
  "lru2_Clear s = do {
     keys \<leftarrow> over_pairs pair_clear_keys (caches s) [];
     lru2_delete_keys s keys }"

definition lru2_Len :: "'v lru2Store \<Rightarrow> nat option" where
  "lru2_Len s = over_pairs pair_count (caches s) 0"

definition lru2_Keys :: "'v lru2Store \<Rightarrow> string list option" where
  "lru2_Keys s = do {
     (seen, keys) \<leftarrow> over_pairs pair_keys (caches s) ([], []);
     Some keys }"

text \<open>One tick of \<open>cleanupLoop\<close>.\<close>

fun cleanup_pairs :: "bool \<Rightarrow> 'v pair list \<Rightarrow> int \<Rightarrow> ('v pair list \<times> 'v calls) option" where
  "cleanup_pairs cb [] now = Some ([], [])"
| "cleanup_pairs cb (b # bs) now = do {
     (b, calls) \<leftarrow> pair_cleanup cb b now;
     (bs, calls') \<leftarrow> cleanup_pairs cb bs now;
     Some (b # bs, calls @ calls') }"

definition lru2_cleanup :: "'v lru2Store \<Rightarrow> int \<Rightarrow> 'v lru2Store option" where
  "lru2_cleanup s now = do {
     (bs, calls) \<leftarrow> cleanup_pairs (onEvicted s) (caches s) now;
     Some (s\<lparr>caches := bs, evicted := evicted s @ calls\<rparr>) }"

text \<open>\<open>Close\<close> stops the ticker: no tick follows. The loop itself waits on for ever, because stopping a
  ticker does not close its channel.\<close>

definition lru2_Close :: "'v lru2Store \<Rightarrow> 'v lru2Store" where
  "lru2_Close s = s\<lparr>ticking := False\<rparr>"

definition lru2_tick :: "'v lru2Store \<Rightarrow> int \<Rightarrow> 'v lru2Store option" where
  "lru2_tick s now = (if ticking s then lru2_cleanup s now else Some s)"

section \<open>Contracts of a bucket pair\<close>

definition wf_pair :: "'v pair \<Rightarrow> bool" where
  "wf_pair b \<longleftrightarrow> wf_bucket (fst b) \<and> wf_bucket (snd b)"

abbreviation pents :: "'v pair \<Rightarrow> 'v entry list \<times> 'v entry list" where
  "pents b \<equiv> (entries (fst b), entries (snd b))"

definition pair_becomes :: "'v pair \<Rightarrow> 'v pair \<Rightarrow> 'v entry list \<times> 'v entry list \<Rightarrow> bool" where
  "pair_becomes b b' es \<longleftrightarrow> wf_pair b' \<and> pents b' = es \<and>
     capacity (fst b') = capacity (fst b) \<and> capacity (snd b') = capacity (snd b)"

definition delete_calls :: "bool \<Rightarrow> string \<Rightarrow> 'v entry list \<times> 'v entry list \<Rightarrow> 'v calls" where
  "delete_calls cb key es =
     (if cb then
        case Option.bind (live (fst es) key) fst of
          Some v \<Rightarrow> [(key, Some v)]
        | None \<Rightarrow> (case Option.bind (live (snd es) key) fst of
            Some v \<Rightarrow> [(key, Some v)] | None \<Rightarrow> [])
      else [])"

definition spec_Get :: "nat \<Rightarrow> bool \<Rightarrow> string \<Rightarrow> int \<Rightarrow> int \<Rightarrow> 'v entry list \<times> 'v entry list \<Rightarrow>
    ('v entry list \<times> 'v entry list) \<times> ('v option \<times> bool) \<times> 'v calls" where
  "spec_Get cap1 cb key now now' es = (case live (fst es) key of
     Some (v, e) \<Rightarrow>
       if e \<le> now
       then ((spec_del key (fst es), spec_del key (snd es)), (None, False), delete_calls cb key ([], snd es))
       else ((spec_del key (fst es), spec_put cap1 key v e (snd es)), (v, True), spec_calls cap1 cb key (snd es))
   | None \<Rightarrow>
       ((fst es, spec_get key (snd es)),
        (case live (snd es) key of
           Some (v, e) \<Rightarrow> if now' < e then (v, True) else (None, False)
         | None \<Rightarrow> (None, False)),
        []))"

lemma live_pos: "live es k = Some (v, e) \<Longrightarrow> 0 < e"
  by (auto simp: live_def split: option.splits if_splits)

lemma live_Nil [simp]: "live [] k = None"
  by (simp add: live_def)

lemma spec_del_id: "live es k = None \<Longrightarrow> spec_del k es = es"
  by (auto simp: live_def spec_del_def split: option.splits if_splits)

lemma spec_del_idem: "spec_del k (spec_del k es) = spec_del k es"
  by (rule spec_del_id) (simp add: live_del)

lemma pair_delete_result:
  assumes "wf_pair b"
  shows "\<exists>b'. pair_delete cb b key =
      Some (b', live (fst (pents b)) key \<noteq> None \<or> live (snd (pents b)) key \<noteq> None,
        delete_calls cb key (pents b)) \<and>
    pair_becomes b b' (spec_del key (fst (pents b)), spec_del key (snd (pents b)))"
proof -
  have wf: "wf_bucket (fst b)" "wf_bucket (snd b)" using assms by (simp_all add: wf_pair_def)
  obtain c0 where c0: "del (fst b) key = Some (c0, (case live (entries (fst b)) key of
      Some (v, e) \<Rightarrow> (Some \<lparr>nd_k = key, nd_v = v, nd_expireAt = 0\<rparr>, 1, e) | None \<Rightarrow> (None, 0, 0)))"
    "wf_bucket c0" "capacity c0 = capacity (fst b)" "entries c0 = spec_del key (entries (fst b))"
    by (rule bk.del_effect [OF wf(1), of key])
  obtain c1 where c1: "del (snd b) key = Some (c1, (case live (entries (snd b)) key of
      Some (v, e) \<Rightarrow> (Some \<lparr>nd_k = key, nd_v = v, nd_expireAt = 0\<rparr>, 1, e) | None \<Rightarrow> (None, 0, 0)))"
    "wf_bucket c1" "capacity c1 = capacity (snd b)" "entries c1 = spec_del key (entries (snd b))"
    by (rule bk.del_effect [OF wf(2), of key])
  have "pair_becomes b (c0, c1) (spec_del key (fst (pents b)), spec_del key (snd (pents b)))"
    using c0 c1 by (simp add: pair_becomes_def wf_pair_def)
  then show ?thesis
    using c0(1) c1(1)
    by (cases "live (entries (fst b)) key"; cases "live (entries (snd b)) key")
      (auto simp: pair_delete_def delete_calls_def Let_def split: option.split)
qed

lemma level_get_result:
  assumes "wf_bucket c"
  shows "\<exists>c'. level_get c key now =
      Some (c', case live (entries c) key of
         Some (v, e) \<Rightarrow> if now < e then (Some \<lparr>nd_k = key, nd_v = v, nd_expireAt = e\<rparr>, 1) else (None, 0)
       | None \<Rightarrow> (None, 0)) \<and>
    becomes c c' (spec_get key (entries c))"
proof -
  obtain c' where c': "get c key = Some (c', found_node key (map_of (entries c) key),
      if map_of (entries c) key = None then 0 else 1)"
    "wf_bucket c'" "capacity c' = capacity c" "entries c' = spec_get key (entries c)"
    by (rule bk.get_effect [OF assms, of key])
  then have "becomes c c' (spec_get key (entries c))" by (simp add: becomes_def)
  with c'(1) show ?thesis
    by (cases "map_of (entries c) key") (auto simp: level_get_def found_node_def live_def)
qed

text \<open>\<open>Get\<close> begins by taking the key out of level one; what it does then depends on what was there: an
  expired entry is deleted from level two as well, a live one moves to level two, and without one level two is
  asked.\<close>

lemma pair_Get_begins:
  assumes "wf_pair b"
  obtains c0 where "del (fst b) key = Some (c0, (case live (entries (fst b)) key of
      Some (v, e) \<Rightarrow> (Some \<lparr>nd_k = key, nd_v = v, nd_expireAt = 0\<rparr>, 1, e) | None \<Rightarrow> (None, 0, 0)))"
    and "wf_bucket c0" and "capacity c0 = capacity (fst b)" and "entries c0 = spec_del key (entries (fst b))"
    and "wf_pair (c0, snd b)"
proof -
  have wf: "wf_bucket (fst b)" "wf_bucket (snd b)" using assms by (simp_all add: wf_pair_def)
  show thesis by (rule bk.del_effect [OF wf(1), of key], rule that) (use wf(2) in \<open>simp_all add: wf_pair_def\<close>)
qed

lemma pair_Get_expired:
  assumes "wf_pair b" and ve: "live (entries (fst b)) key = Some (v, e)" "0 < e" and e: "e \<le> now"
  shows "\<exists>b'. pair_Get cb b key now now' =
      Some (b', snd (spec_Get (capacity (snd b)) cb key now now' (pents b))) \<and>
    pair_becomes b b' (fst (spec_Get (capacity (snd b)) cb key now now' (pents b)))"
proof -
  obtain c0 where c0: "del (fst b) key = Some (c0, (case live (entries (fst b)) key of
      Some (v, e) \<Rightarrow> (Some \<lparr>nd_k = key, nd_v = v, nd_expireAt = 0\<rparr>, 1, e) | None \<Rightarrow> (None, 0, 0)))"
    "wf_bucket c0" "capacity c0 = capacity (fst b)" "entries c0 = spec_del key (entries (fst b))" "wf_pair (c0, snd b)"
    by (rule pair_Get_begins [OF assms(1), of key])
  obtain b' where b': "pair_delete cb (c0, snd b) key =
      Some (b', live (entries c0) key \<noteq> None \<or> live (entries (snd b)) key \<noteq> None,
        delete_calls cb key (entries c0, entries (snd b)))"
    "pair_becomes (c0, snd b) b' (spec_del key (entries c0), spec_del key (entries (snd b)))"
    using pair_delete_result [OF c0(5), of cb key] by auto
  moreover have "delete_calls cb key (entries c0, entries (snd b)) = delete_calls cb key ([], entries (snd b))"
    by (simp add: delete_calls_def c0(4) live_del)
  ultimately show ?thesis
    using e ve c0 by (auto simp: pair_Get_def spec_Get_def Let_def pair_becomes_def spec_del_idem)
qed

lemma pair_Get_result:
  assumes "wf_pair b" and "now \<le> now'"
  shows "\<exists>b'. pair_Get cb b key now now' =
      Some (b', snd (spec_Get (capacity (snd b)) cb key now now' (pents b))) \<and>
    pair_becomes b b' (fst (spec_Get (capacity (snd b)) cb key now now' (pents b)))"
proof -
  have wf: "wf_bucket (snd b)" using assms(1) by (simp add: wf_pair_def)
  obtain c0 where c0: "del (fst b) key = Some (c0, (case live (entries (fst b)) key of
      Some (v, e) \<Rightarrow> (Some \<lparr>nd_k = key, nd_v = v, nd_expireAt = 0\<rparr>, 1, e) | None \<Rightarrow> (None, 0, 0)))"
    "wf_bucket c0" "capacity c0 = capacity (fst b)" "entries c0 = spec_del key (entries (fst b))"
    by (rule pair_Get_begins [OF assms(1), of key])
  consider (expired) v e where "live (entries (fst b)) key = Some (v, e)" "0 < e" "e \<le> now"
    | (fresh) v e where "live (entries (fst b)) key = Some (v, e)" "\<not> e \<le> now"
    | (absent) "live (entries (fst b)) key = None"
    by (metis live_pos option.exhaust surj_pair)
  then show ?thesis
  proof cases
    case expired
    then show ?thesis by (rule pair_Get_expired [OF assms(1)])
  next
    case (fresh v e)
    obtain c1 r calls where c1: "put (snd b) key v e cb = Some (c1, r, calls)" "wf_bucket c1"
      "capacity c1 = capacity (snd b)" "entries c1 = spec_put (capacity (snd b)) key v e (entries (snd b))"
      "calls = spec_calls (capacity (snd b)) cb key (entries (snd b))"
      by (rule bk.put_effect [OF wf, of key v e cb]) blast
    then show ?thesis using fresh live_pos [OF fresh(1)] c0
      by (auto simp: pair_Get_def spec_Get_def Let_def pair_becomes_def wf_pair_def)
  next
    case absent
    obtain c1 where c1: "level_get (snd b) key now' =
        Some (c1, case live (entries (snd b)) key of
           Some (v, e) \<Rightarrow> if now' < e then (Some \<lparr>nd_k = key, nd_v = v, nd_expireAt = e\<rparr>, 1) else (None, 0)
         | None \<Rightarrow> (None, 0))" "becomes (snd b) c1 (spec_get key (entries (snd b)))"
      using level_get_result [OF wf, of key now'] by blast
    have e0: "entries c0 = entries (fst b)" using c0(4) absent by (simp add: spec_del_id)
    show ?thesis
      using absent c0 c1 e0 assms(2)
      by (cases "live (entries (snd b)) key")
        (auto simp: pair_Get_def spec_Get_def Let_def pair_becomes_def wf_pair_def becomes_def)
  qed
qed

lemma pair_Set_result:
  assumes "wf_pair b"
  shows "\<exists>b'. pair_Set cb b key v e = Some (b', spec_calls (capacity (fst b)) cb key (entries (fst b))) \<and>
    pair_becomes b b' (spec_put (capacity (fst b)) key v e (entries (fst b)), entries (snd b))"
proof -
  have wf: "wf_bucket (fst b)" "wf_bucket (snd b)" using assms(1) by (simp_all add: wf_pair_def)
  obtain c0 r calls where c0: "put (fst b) key v e cb = Some (c0, r, calls)" "wf_bucket c0"
    "capacity c0 = capacity (fst b)" "entries c0 = spec_put (capacity (fst b)) key v e (entries (fst b))"
    "calls = spec_calls (capacity (fst b)) cb key (entries (fst b))"
    by (rule bk.put_effect [OF wf(1), of key v e cb]) blast
  with wf(2) show ?thesis by (auto simp: pair_Set_def pair_becomes_def wf_pair_def)
qed

section \<open>Well-formed stores\<close>

definition pair_names :: "'v pair \<Rightarrow> string set" where
  "pair_names b = fst ` set (entries (fst b)) \<union> fst ` set (entries (snd b))"

definition wf_store :: "'v lru2Store \<Rightarrow> bool" where
  "wf_store s \<longleftrightarrow> length (caches s) = Suc (unat (mask s)) \<and>
     (\<forall>i < length (caches s). wf_pair (caches s ! i) \<and> (\<forall>k \<in> pair_names (caches s ! i). bucket_of s k = i))"

text \<open>What each level holds for a key, in the pair the key selects.\<close>

definition lvl0 :: "'v lru2Store \<Rightarrow> string \<Rightarrow> ('v option \<times> int) option" where
  "lvl0 s k = live (entries (fst (caches s ! bucket_of s k))) k"

definition lvl1 :: "'v lru2Store \<Rightarrow> string \<Rightarrow> ('v option \<times> int) option" where
  "lvl1 s k = live (entries (snd (caches s ! bucket_of s k))) k"

lemma bucket_of_bound: "bucket_of s key \<le> unat (mask s)"
proof -
  have "hashBKRD key AND mask s \<le> mask s" by (rule word_and_le1)
  then show ?thesis by (simp add: bucket_of_def word_le_nat_alt)
qed

lemma wf_store_pair:
  assumes "wf_store s"
  shows "bucket_of s key < length (caches s)" and "wf_pair (caches s ! bucket_of s key)"
    and "slice_get (caches s) (bucket_of s key) = Some (caches s ! bucket_of s key)"
proof -
  show b: "bucket_of s key < length (caches s)"
    using assms bucket_of_bound [of s key] by (simp add: wf_store_def)
  show "wf_pair (caches s ! bucket_of s key)" using assms b by (simp add: wf_store_def)
  show "slice_get (caches s) (bucket_of s key) = Some (caches s ! bucket_of s key)"
    using b by (rule slice_get_in)
qed

lemma set_pair_frame [simp]:
  "bucket_of (set_pair s i b calls) k = bucket_of s k"
  "mask (set_pair s i b calls) = mask s" "onEvicted (set_pair s i b calls) = onEvicted s"
  "length (caches (set_pair s i b calls)) = length (caches s)"
  "evicted (set_pair s i b calls) = evicted s @ calls"
  by (simp_all add: set_pair_def bucket_of_def)

lemma set_pair_wf:
  assumes "wf_store s" and "wf_pair b"
    and "pair_names b \<subseteq> insert key (pair_names (caches s ! bucket_of s key))"
  shows "wf_store (set_pair s (bucket_of s key) b calls)"
  unfolding wf_store_def
proof (intro conjI allI impI ballI)
  show "length (caches (set_pair s (bucket_of s key) b calls)) = Suc (unat (mask (set_pair s (bucket_of s key) b calls)))"
    using assms(1) by (simp add: wf_store_def)
next
  fix i assume "i < length (caches (set_pair s (bucket_of s key) b calls))"
  then have i: "i < length (caches s)" by simp
  then show "wf_pair (caches (set_pair s (bucket_of s key) b calls) ! i)"
    using assms(1,2) by (cases "i = bucket_of s key") (auto simp: set_pair_def wf_store_def)
  fix k assume k: "k \<in> pair_names (caches (set_pair s (bucket_of s key) b calls) ! i)"
  show "bucket_of (set_pair s (bucket_of s key) b calls) k = i"
  proof (cases "i = bucket_of s key")
    case True
    then have "k \<in> insert key (pair_names (caches s ! i))"
      using k assms(3) i by (auto simp: set_pair_def)
    with True assms(1) i show ?thesis by (auto simp: wf_store_def)
  next
    case False
    with k i assms(1) show ?thesis by (simp add: set_pair_def wf_store_def bucket_of_def)
  qed
qed

lemma set_pair_lvl:
  assumes "wf_store s"
  shows "lvl0 (set_pair s (bucket_of s key) b calls) k =
      (if bucket_of s k = bucket_of s key then live (entries (fst b)) k else lvl0 s k)"
    and "lvl1 (set_pair s (bucket_of s key) b calls) k =
      (if bucket_of s k = bucket_of s key then live (entries (snd b)) k else lvl1 s k)"
  using wf_store_pair(1) [OF assms, of key]
  by (auto simp: lvl0_def lvl1_def) (simp_all add: set_pair_def nth_list_update)

lemma names_put: "fst ` set (spec_put cap key v e es) \<subseteq> insert key (fst ` set es)"
  by (auto simp: spec_put_def dest: in_set_butlastD)

lemma names_del: "fst ` set (spec_del key es) \<subseteq> insert key (fst ` set es)"
  by (auto simp: spec_del_def split: option.splits)

lemma names_get: "fst ` set (spec_get key es) \<subseteq> insert key (fst ` set es)"
  by (auto simp: spec_get_def split: option.splits)

lemma live_put_other:
  assumes "wf_bucket c" and "k \<noteq> key"
  shows "live (spec_put (capacity c) key v e (entries c)) k = live (entries c) k \<or>
         live (spec_put (capacity c) key v e (entries c)) k = None"
  using live_put [OF entries_distinct [OF assms(1)] capacity_pos [OF assms(1)]] assms(2) by simp

lemma live_put_same:
  assumes "wf_bucket c"
  shows "live (spec_put (capacity c) key v e (entries c)) key = (if 0 < e then Some (v, e) else None)"
  using live_put [OF entries_distinct [OF assms] capacity_pos [OF assms]] by simp

text \<open>The bucket count bounds the mask, so that a new store has a pair for every hash.\<close>

lemma mask_small:
  assumes "unat bc \<le> 32768"
  shows "unat (maskOfNextPowOf2 bc + 1) = Suc (unat (maskOfNextPowOf2 bc))"
proof -
  have "unat (maskOfNextPowOf2 bc) < 65535"
  proof (cases "bc = 0")
    case False
    obtain n where n: "unat (maskOfNextPowOf2 bc) + 1 = 2 ^ n" "2 ^ n < 2 * unat bc"
      using mask_bounds [OF False] by blast
    then have "(2 :: nat) ^ n < 2 ^ 16" using assms by simp
    with n(1) show ?thesis by simp
  qed (simp add: mask_zero)
  then show ?thesis by (simp add: unat_word_ariths)
qed

lemma lru2_defaults_nz:
  "BucketCount (lru2_defaults o') \<noteq> 0" "CapPerBucket (lru2_defaults o') \<noteq> 0" "Level2Cap (lru2_defaults o') \<noteq> 0"
  by (simp_all add: lru2_defaults_def Let_def)

lemma lru2_defaults_keep:
  "BucketCount (lru2_defaults o') = (if BucketCount o' = 0 then 16 else BucketCount o')"
  "CapPerBucket (lru2_defaults o') = (if CapPerBucket o' = 0 then 1024 else CapPerBucket o')"
  "Level2Cap (lru2_defaults o') = (if Level2Cap o' = 0 then 1024 else Level2Cap o')"
  by (simp_all add: lru2_defaults_def Let_def)

lemma wf_new_store:
  assumes "unat (BucketCount opts) \<le> 32768" and "CapPerBucket opts \<noteq> 65535" and "Level2Cap opts \<noteq> 65535"
  shows "wf_store (newLRU2Cache opts :: 'a lru2Store)"
    and "lvl0 (newLRU2Cache opts :: 'a lru2Store) k = None"
    and "lvl1 (newLRU2Cache opts :: 'a lru2Store) k = None"
proof -
  let ?o = "lru2_defaults opts"
  let ?b = "(Create (CapPerBucket ?o), Create (Level2Cap ?o)) :: 'a pair"
  let ?s = "newLRU2Cache opts :: 'a lru2Store"
  have caps: "CapPerBucket ?o \<noteq> 65535" "Level2Cap ?o \<noteq> 65535"
    using assms(2,3) by (simp_all add: lru2_defaults_keep)
  have b: "wf_pair ?b" "entries (fst ?b) = []" "entries (snd ?b) = []"
    using wf_Create [OF lru2_defaults_nz(2) caps(1)] wf_Create [OF lru2_defaults_nz(3) caps(2)]
    by (simp_all add: wf_pair_def)
  have "unat (BucketCount ?o) \<le> 32768" using assms(1) by (simp add: lru2_defaults_keep)
  then have len: "caches ?s = replicate (Suc (unat (maskOfNextPowOf2 (BucketCount ?o)))) ?b"
    using mask_small by (simp add: newLRU2Cache_def Let_def)
  have msk: "unat (mask ?s) = unat (maskOfNextPowOf2 (BucketCount ?o))"
    using unsigned_less [where ?'a = nat, of "maskOfNextPowOf2 (BucketCount ?o)"]
    by (simp add: newLRU2Cache_def Let_def unsigned_ucast_eq take_bit_nat_eq_self)
  show "wf_store ?s"
    using b unfolding wf_store_def len msk
    by (simp add: pair_names_def del: replicate_Suc)
  have "caches ?s ! bucket_of ?s k = ?b"
    using bucket_of_bound [of ?s k] unfolding len msk by (simp del: replicate_Suc)
  then show "lvl0 ?s k = None" "lvl1 ?s k = None" using b by (simp_all add: lvl0_def lvl1_def)
qed

end
