(* ===== verification/Lru2Spec.thy ===== *)
theory Lru2Spec
  imports Lru2
begin

text \<open>
  What the operations of the two-level store do, in terms of what each level holds for a key
  (\<open>lvl0\<close>, \<open>lvl1\<close>): a map lookup that forgets, never a wrong value for another key. Every
  lemma also says that the operation does not panic on a well-formed store and keeps it
  well formed. The file ends with the places where the two levels disagree.
\<close>

section \<open>Get, Set, Delete, GetValue\<close>

text \<open>The reply of \<open>Get\<close>, from what the two levels hold.\<close>

definition get_reply :: "('v option \<times> int) option \<Rightarrow> ('v option \<times> int) option \<Rightarrow> int \<Rightarrow> int \<Rightarrow> 'v option \<times> bool" where
  "get_reply l0 l1 now now' = (case l0 of
     Some (v, e) \<Rightarrow> if e \<le> now then (None, False) else (v, True)
   | None \<Rightarrow> (case l1 of
       Some (v, e) \<Rightarrow> if now' < e then (v, True) else (None, False)
     | None \<Rightarrow> (None, False)))"

definition forgets :: "(string \<Rightarrow> 'x option) \<Rightarrow> (string \<Rightarrow> 'x option) \<Rightarrow> string \<Rightarrow> bool" where
  "forgets f' f key \<longleftrightarrow> (\<forall>k. k \<noteq> key \<longrightarrow> f' k = f k \<or> f' k = None)"

lemma names_Get:
  "fst ` set (fst (fst (spec_Get cap cb key now now' es))) \<union> fst ` set (snd (fst (spec_Get cap cb key now now' es)))
   \<subseteq> insert key (fst ` set (fst es) \<union> fst ` set (snd es))"
proof (cases "live (fst es) key")
  case None
  then show ?thesis using names_get [of key "snd es"] by (auto simp: spec_Get_def)
next
  case (Some ve)
  then show ?thesis
    using names_del [of key "fst es"] names_del [of key "snd es"]
      names_put [of cap key "fst ve" "snd ve" "snd es"]
    by (cases ve; cases "snd ve \<le> now") (simp add: spec_Get_def; blast)+
qed

lemma lru2_Get_effect:
  assumes wf: "wf_store s" and "now \<le> now'"
  obtains s' where "lru2_Get s key now now' = Some (s', get_reply (lvl0 s key) (lvl1 s key) now now')"
    "wf_store s'" "bucket_of s' = bucket_of s"
    "lvl0 s' = (lvl0 s)(key := None)"
    "lvl1 s' key = (case lvl0 s key of
        Some (v, e) \<Rightarrow> if e \<le> now then None else Some (v, e) | None \<Rightarrow> lvl1 s key)"
    "forgets (lvl1 s') (lvl1 s) key"
proof -
  let ?i = "bucket_of s key" and ?b = "caches s ! bucket_of s key"
  note p = wf_store_pair [OF wf, of key]
  have wb: "wf_bucket (fst ?b)" "wf_bucket (snd ?b)" using p(2) by (simp_all add: wf_pair_def)
  define sp where "sp = spec_Get (capacity (snd ?b)) (onEvicted s) key now now' (pents ?b)"
  obtain b' where b': "pair_Get (onEvicted s) ?b key now now' = Some (b', snd sp)" "pair_becomes ?b b' (fst sp)"
    using pair_Get_result [OF p(2) assms(2)] unfolding sp_def by blast
  let ?s = "set_pair s ?i b' (snd (snd sp))"
  have run: "lru2_Get s key now now' = Some (?s, fst (snd sp))"
    using p(3) b'(1) by (cases "snd sp") (simp add: lru2_Get_def)
  have reply: "fst (snd sp) = get_reply (lvl0 s key) (lvl1 s key) now now'"
    by (auto simp: sp_def spec_Get_def get_reply_def lvl0_def lvl1_def split: option.splits)
  have e: "entries (fst b') = fst (fst sp)" "entries (snd b') = snd (fst sp)" and wb': "wf_pair b'"
    using b'(2) unfolding pair_becomes_def by (metis fst_conv snd_conv)+
  have "pair_names b' \<subseteq> insert key (pair_names ?b)"
    using names_Get [of "capacity (snd ?b)" "onEvicted s" key now now' "pents ?b"]
    unfolding pair_names_def e sp_def by simp
  then have wf': "wf_store ?s" using set_pair_wf [OF wf wb'] by blast
  have live0: "live (entries (fst b')) k = (if k = key then None else live (entries (fst ?b)) k)" for k
    unfolding e sp_def spec_Get_def by (auto simp: live_del split: option.splits)
  have l0: "lvl0 ?s = (lvl0 s)(key := None)"
    using set_pair_lvl(1) [OF wf] by (auto simp: fun_eq_iff live0 lvl0_def)
  have same: "live (entries (snd b')) key = (case lvl0 s key of
        Some (v, e) \<Rightarrow> if e \<le> now then None else Some (v, e) | None \<Rightarrow> lvl1 s key)"
    unfolding e sp_def spec_Get_def lvl0_def lvl1_def
    by (auto simp: live_del live_get live_put_same [OF wb(2)] dest: live_pos split: option.splits)
  have other: "live (entries (snd b')) k = live (entries (snd ?b)) k \<or> live (entries (snd b')) k = None"
    if "k \<noteq> key" for k
    using that live_put_other [OF wb(2) that]
    unfolding e sp_def spec_Get_def by (auto simp: live_del live_get split: option.splits)
  have "forgets (lvl1 ?s) (lvl1 s) key"
    using set_pair_lvl(2) [OF wf] other by (auto simp: forgets_def lvl1_def)
  moreover have "lvl1 ?s key = (case lvl0 s key of
        Some (v, e) \<Rightarrow> if e \<le> now then None else Some (v, e) | None \<Rightarrow> lvl1 s key)"
    using set_pair_lvl(2) [OF wf] same by simp
  ultimately show ?thesis
    using run reply wf' l0 by (intro that [of ?s]) (simp_all add: fun_eq_iff)
qed

definition expires_at :: "int \<Rightarrow> int \<Rightarrow> int" where
  "expires_at now expiration = (if expiration > 0 then wrap64 (now + expiration) else 0)"

lemma lru2_Set_effect:
  assumes wf: "wf_store s"
  obtains s' where "lru2_SetWithExpiration s key v d now = Some s'"
    "wf_store s'" "bucket_of s' = bucket_of s"
    "lvl0 s' key = (if 0 < expires_at now d then Some (v, expires_at now d) else None)"
    "forgets (lvl0 s') (lvl0 s) key" "lvl1 s' = lvl1 s"
proof -
  let ?i = "bucket_of s key" and ?b = "caches s ! bucket_of s key" and ?e = "expires_at now d"
  note p = wf_store_pair [OF wf, of key]
  have wb: "wf_bucket (fst ?b)" using p(2) by (simp add: wf_pair_def)
  obtain b' calls where b': "pair_Set (onEvicted s) ?b key v ?e = Some (b', calls)"
    "pair_becomes ?b b' (spec_put (capacity (fst ?b)) key v ?e (entries (fst ?b)), entries (snd ?b))"
    using pair_Set_result [OF p(2)] by blast
  then have e: "entries (fst b') = spec_put (capacity (fst ?b)) key v ?e (entries (fst ?b))"
      "entries (snd b') = entries (snd ?b)" and wb': "wf_pair b'"
    by (auto simp: pair_becomes_def)
  let ?s = "set_pair s ?i b' calls"
  have run: "lru2_SetWithExpiration s key v d now = Some ?s"
    using p(3) b'(1) by (simp add: lru2_SetWithExpiration_def expires_at_def Let_def)
  have "pair_names b' \<subseteq> insert key (pair_names ?b)"
    using names_put [of "capacity (fst ?b)" key v ?e "entries (fst ?b)"] e
    by (auto simp: pair_names_def)
  then have wf': "wf_store ?s" using set_pair_wf [OF wf wb'] by blast
  have "lvl0 ?s key = (if 0 < ?e then Some (v, ?e) else None)"
    using set_pair_lvl(1) [OF wf] e(1) live_put_same [OF wb] by simp
  moreover have "forgets (lvl0 ?s) (lvl0 s) key"
    using set_pair_lvl(1) [OF wf] live_put_other [OF wb] by (auto simp: forgets_def e(1) lvl0_def)
  moreover have "lvl1 ?s = lvl1 s"
    using set_pair_lvl(2) [OF wf] by (auto simp: fun_eq_iff e(2) lvl1_def)
  ultimately show ?thesis using run wf' by (intro that [of ?s]) (simp_all add: fun_eq_iff)
qed

lemma lru2_Delete_effect:
  assumes wf: "wf_store s"
  obtains s' where "lru2_Delete s key = Some (s', lvl0 s key \<noteq> None \<or> lvl1 s key \<noteq> None)"
    "wf_store s'" "bucket_of s' = bucket_of s" "onEvicted s' = onEvicted s"
    "lvl0 s' = (lvl0 s)(key := None)" "lvl1 s' = (lvl1 s)(key := None)"
    "mask s' = mask s"
proof -
  let ?i = "bucket_of s key" and ?b = "caches s ! bucket_of s key"
  note p = wf_store_pair [OF wf, of key]
  obtain b' calls where b': "pair_delete (onEvicted s) ?b key =
      Some (b', live (fst (pents ?b)) key \<noteq> None \<or> live (snd (pents ?b)) key \<noteq> None, calls)"
    "pair_becomes ?b b' (spec_del key (fst (pents ?b)), spec_del key (snd (pents ?b)))"
    using pair_delete_result [OF p(2)] by blast
  then have e: "entries (fst b') = spec_del key (entries (fst ?b))"
      "entries (snd b') = spec_del key (entries (snd ?b))" and wb': "wf_pair b'"
    by (auto simp: pair_becomes_def)
  let ?s = "set_pair s ?i b' calls"
  have run: "lru2_Delete s key = Some (?s, lvl0 s key \<noteq> None \<or> lvl1 s key \<noteq> None)"
    using p(3) b'(1) by (simp add: lru2_Delete_def lvl0_def lvl1_def)
  have "pair_names b' \<subseteq> insert key (pair_names ?b)"
    using names_del [of key "entries (fst ?b)"] names_del [of key "entries (snd ?b)"] e
    by (auto simp: pair_names_def)
  then have wf': "wf_store ?s" using set_pair_wf [OF wf wb'] by blast
  have "lvl0 ?s = (lvl0 s)(key := None)"
    using set_pair_lvl(1) [OF wf] by (auto simp: fun_eq_iff e(1) live_del lvl0_def)
  moreover have "lvl1 ?s = (lvl1 s)(key := None)"
    using set_pair_lvl(2) [OF wf] by (auto simp: fun_eq_iff e(2) live_del lvl1_def)
  ultimately show ?thesis using run wf' by (intro that [of ?s]) (simp_all add: fun_eq_iff)
qed

lemma level_value_result:
  assumes "wf_bucket c"
  shows "level_value c key now = Some (case live (entries c) key of
    Some (v, e) \<Rightarrow> if now < e then Some v else None | None \<Rightarrow> None)"
proof (cases "map_of (hmap c) key")
  case (Some i)
  have "i \<in> set (order c)" using indexed_hmap [OF rep_indexed [OF wf_rep [OF assms]]] Some by blast
  then have "node_get c i = Some (nodeat c i)"
    by (intro nd_in ring_member(3) [OF rep_ring [OF wf_rep [OF assms]]])
  then show ?thesis using Some entries_hmap [OF assms, of key] by (simp add: level_value_def live_def)
next
  case None
  then show ?thesis using entries_hmap [OF assms, of key] by (simp add: level_value_def live_def)
qed

lemma lru2_GetValue_effect:
  assumes wf: "wf_store s"
  shows "lru2_GetValue s key now = Some (case lvl0 s key of
      Some (v, e) \<Rightarrow> if now < e then (v, True) else
        (case lvl1 s key of Some (v, e) \<Rightarrow> if now < e then (v, True) else (None, False) | None \<Rightarrow> (None, False))
    | None \<Rightarrow>
        (case lvl1 s key of Some (v, e) \<Rightarrow> if now < e then (v, True) else (None, False) | None \<Rightarrow> (None, False)))"
proof -
  have "wf_bucket (fst (caches s ! bucket_of s key))" "wf_bucket (snd (caches s ! bucket_of s key))"
    using wf_store_pair(2) [OF wf, of key] by (simp_all add: wf_pair_def)
  then show ?thesis
    using wf_store_pair(3) [OF wf, of key]
    by (auto simp: lru2_GetValue_def pair_GetValue_def level_value_result lvl0_def lvl1_def
        split: option.split)
qed

section \<open>The loops over the buckets\<close>

definition live_keys :: "'v entry list \<Rightarrow> string list" where
  "live_keys es = map fst (filter (\<lambda>x. 0 < snd (snd x)) es)"

lemma live_keys_iff: "distinct (map fst es) \<Longrightarrow> k \<in> set (live_keys es) \<longleftrightarrow> live es k \<noteq> None"
  by (induction es) (auto simp: live_keys_def live_def image_iff split: option.splits)

lemma live_keys_distinct: "distinct (map fst es) \<Longrightarrow> distinct (live_keys es)"
  by (simp add: live_keys_def distinct_map_filter)

definition pair_live :: "'v pair \<Rightarrow> string set" where
  "pair_live b = set (live_keys (entries (fst b))) \<union> set (live_keys (entries (snd b)))"

lemma walk_keys:
  assumes "wf_bucket c" and "\<And>k v e s. w k v e s = (True, f k s)"
  shows "walk c w s = Some (fold f (live_keys (entries c)) s)"
  using assms
  by (simp add: walk_result walk_spec_collect [where f = "\<lambda>k v e s. f k s"] live_keys_def
      fold_map comp_def case_prod_unfold)

lemma over_pairs_total:
  "(\<And>b st. b \<in> set bs \<Longrightarrow> f b st = Some (g b st)) \<Longrightarrow> over_pairs f bs st = Some (fold g bs st)"
  by (induction bs arbitrary: st) auto

lemma fold_append: "fold (\<lambda>k ks. ks @ [k]) xs ys = ys @ xs"
  by (induction xs arbitrary: ys) auto

lemma fold_append_new:
  "set (fold (\<lambda>k ks. if k \<in> set ks then ks else ks @ [k]) xs ys) = set ys \<union> set xs"
  by (induction xs arbitrary: ys) auto

lemma fold_count: "fold (\<lambda>k. Suc) xs n = n + length xs"
  by (induction xs arbitrary: n) auto

lemma pair_clear_keys_result:
  assumes "wf_pair b"
  shows "\<exists>ks'. pair_clear_keys b ks = Some ks' \<and> set ks' = set ks \<union> pair_live b"
proof -
  have wf: "wf_bucket (fst b)" "wf_bucket (snd b)" using assms by (simp_all add: wf_pair_def)
  then show ?thesis
    by (auto simp: pair_clear_keys_def pair_live_def fold_append fold_append_new
        walk_keys [where f = "\<lambda>k ks. ks @ [k]"]
        walk_keys [where f = "\<lambda>k ks. if k \<in> set ks then ks else ks @ [k]"])
qed

lemma clear_keys_result:
  "(\<forall>b \<in> set bs. wf_pair b) \<Longrightarrow>
   \<exists>ks'. over_pairs pair_clear_keys bs ks = Some ks' \<and> set ks' = set ks \<union> \<Union> (pair_live ` set bs)"
proof (induction bs arbitrary: ks)
  case (Cons b bs)
  obtain ks1 where "pair_clear_keys b ks = Some ks1" "set ks1 = set ks \<union> pair_live b"
    using pair_clear_keys_result Cons.prems by fastforce
  moreover obtain ks2 where "over_pairs pair_clear_keys bs ks1 = Some ks2"
      "set ks2 = set ks1 \<union> \<Union> (pair_live ` set bs)"
    using Cons.IH [of ks1] Cons.prems by auto
  ultimately show ?case by auto
qed simp

text \<open>A key lives in the store exactly when its own pair holds it, at either level.\<close>

definition held :: "'v lru2Store \<Rightarrow> string set" where
  "held s = {k. lvl0 s k \<noteq> None \<or> lvl1 s k \<noteq> None}"

lemma live_name: "live es k \<noteq> None \<Longrightarrow> k \<in> fst ` set es"
  using map_of_eq_None_iff [of es k] by (auto simp: live_def)

lemma pair_live_iff: "wf_pair b \<Longrightarrow>
    k \<in> pair_live b \<longleftrightarrow> live (entries (fst b)) k \<noteq> None \<or> live (entries (snd b)) k \<noteq> None"
  by (simp add: pair_live_def wf_pair_def live_keys_iff entries_distinct)

lemma held_pairs:
  assumes wf: "wf_store s"
  shows "held s = \<Union> (pair_live ` set (caches s))"
proof (intro set_eqI iffI)
  fix k assume "k \<in> held s"
  then have "k \<in> pair_live (caches s ! bucket_of s k)"
    using wf_store_pair(2) [OF wf, of k] by (auto simp: held_def lvl0_def lvl1_def pair_live_iff)
  then show "k \<in> \<Union> (pair_live ` set (caches s))" using wf_store_pair(1) [OF wf, of k] by auto
next
  fix k assume "k \<in> \<Union> (pair_live ` set (caches s))"
  then obtain i where i: "i < length (caches s)" "k \<in> pair_live (caches s ! i)"
    by (auto simp: in_set_conv_nth)
  then have wp: "wf_pair (caches s ! i)" using wf by (simp add: wf_store_def)
  have "k \<in> pair_names (caches s ! i)"
    using i(2) live_name [of _ k] unfolding pair_live_iff [OF wp] pair_names_def by blast
  then have "bucket_of s k = i" using wf i(1) by (auto simp: wf_store_def)
  then show "k \<in> held s" using i(2) pair_live_iff [OF wp] by (auto simp: held_def lvl0_def lvl1_def)
qed

lemma wf_store_pairs: "wf_store s \<Longrightarrow> \<forall>b \<in> set (caches s). wf_pair b"
proof
  fix b assume wf: "wf_store s" and "b \<in> set (caches s)"
  then obtain i where "i < length (caches s)" "b = caches s ! i" by (metis in_set_conv_nth)
  with wf show "wf_pair b" by (simp add: wf_store_def)
qed

lemma delete_keys_result:
  "wf_store s \<Longrightarrow> \<exists>s'. lru2_delete_keys s ks = Some s' \<and> wf_store s' \<and> bucket_of s' = bucket_of s \<and>
     lvl0 s' = (\<lambda>k. if k \<in> set ks then None else lvl0 s k) \<and>
     lvl1 s' = (\<lambda>k. if k \<in> set ks then None else lvl1 s k)"
proof (induction ks arbitrary: s)
  case (Cons key ks)
  obtain s1 where s1: "lru2_Delete s key = Some (s1, lvl0 s key \<noteq> None \<or> lvl1 s key \<noteq> None)"
    "wf_store s1" "bucket_of s1 = bucket_of s"
    "lvl0 s1 = (lvl0 s)(key := None)" "lvl1 s1 = (lvl1 s)(key := None)"
    by (rule lru2_Delete_effect [OF Cons.prems, of key])
  obtain s2 where "lru2_delete_keys s1 ks = Some s2" "wf_store s2" "bucket_of s2 = bucket_of s1"
     "lvl0 s2 = (\<lambda>k. if k \<in> set ks then None else lvl0 s1 k)"
     "lvl1 s2 = (\<lambda>k. if k \<in> set ks then None else lvl1 s1 k)"
    using Cons.IH [OF s1(2)] by blast
  with s1 show ?case by (auto simp: fun_eq_iff)
qed simp

lemma lru2_Clear_effect:
  assumes wf: "wf_store s"
  obtains s' where "lru2_Clear s = Some s'" "wf_store s'" "held s' = {}" "bucket_of s' = bucket_of s"
proof -
  obtain ks where ks: "over_pairs pair_clear_keys (caches s) [] = Some ks" "set ks = held s"
    using clear_keys_result [OF wf_store_pairs [OF wf], of "[]"] held_pairs [OF wf] by auto
  obtain s' where s': "lru2_delete_keys s ks = Some s'" "wf_store s'" "bucket_of s' = bucket_of s"
     "lvl0 s' = (\<lambda>k. if k \<in> set ks then None else lvl0 s k)"
     "lvl1 s' = (\<lambda>k. if k \<in> set ks then None else lvl1 s k)"
    using delete_keys_result [OF wf] by blast
  have "held s' = {}" using ks(2) by (auto simp: held_def s'(4,5))
  with ks s' show ?thesis by (intro that [of s']) (simp_all add: lru2_Clear_def)
qed

text \<open>\<open>Len\<close> adds the two levels of every pair up.\<close>

lemma lru2_Len_value:
  assumes "wf_store s"
  shows "lru2_Len s = Some (\<Sum>b \<leftarrow> caches s.
    length (live_keys (entries (fst b))) + length (live_keys (entries (snd b))))"
proof -
  have "pair_count b n = Some (n + length (live_keys (entries (fst b))) + length (live_keys (entries (snd b))))"
    if "b \<in> set (caches s)" for b n
    using wf_store_pairs [OF assms] that
    by (auto simp: pair_count_def wf_pair_def walk_keys [where f = "\<lambda>k n. n + 1"] fold_count)
  then have "lru2_Len s = Some (fold (\<lambda>b n. n + length (live_keys (entries (fst b)))
      + length (live_keys (entries (snd b)))) (caches s) 0)"
    unfolding lru2_Len_def by (rule over_pairs_total)
  moreover have "fold (\<lambda>b n. n + length (live_keys (entries (fst b)))
      + length (live_keys (entries (snd b)))) bs n = n + (\<Sum>b \<leftarrow> bs.
      length (live_keys (entries (fst b))) + length (live_keys (entries (snd b))))" for bs :: "'a pair list" and n
    by (induction bs arbitrary: n) auto
  ultimately show ?thesis by simp
qed

text \<open>\<open>Keys\<close> lists each held key once.\<close>

definition noted :: "(string, bool) gomap \<times> string list \<Rightarrow> string set \<Rightarrow> bool" where
  "noted st K \<longleftrightarrow> distinct (snd st) \<and> set (snd st) = K \<and> dom (map_of (fst st)) = K"

lemma note_key_noted: "noted st K \<Longrightarrow> noted (note_key k st) (insert k K)"
  by (cases st) (auto simp: noted_def note_key_def domIff)

lemma fold_note: "noted st K \<Longrightarrow> noted (fold note_key ks st) (K \<union> set ks)"
proof (induction ks arbitrary: st K)
  case (Cons k ks)
  from Cons.IH [OF note_key_noted [OF Cons.prems, of k]] show ?case by simp
qed simp

lemma pair_keys_result:
  assumes "wf_pair b" and "noted st K"
  shows "\<exists>st'. pair_keys b st = Some st' \<and> noted st' (K \<union> pair_live b)"
proof -
  have wf: "wf_bucket (fst b)" "wf_bucket (snd b)" using assms by (simp_all add: wf_pair_def)
  have "noted (fold note_key (live_keys (entries (snd b))) (fold note_key (live_keys (entries (fst b))) st))
      (K \<union> pair_live b)"
    using fold_note [OF fold_note [OF assms(2)]] by (simp add: pair_live_def Un_assoc)
  with wf show ?thesis by (simp add: pair_keys_def walk_keys [where f = note_key])
qed

lemma over_pair_keys:
  "(\<forall>b \<in> set bs. wf_pair b) \<Longrightarrow> noted st K \<Longrightarrow>
   \<exists>st'. over_pairs pair_keys bs st = Some st' \<and> noted st' (K \<union> \<Union> (pair_live ` set bs))"
proof (induction bs arbitrary: st K)
  case (Cons b bs)
  obtain st1 where "pair_keys b st = Some st1" "noted st1 (K \<union> pair_live b)"
    using pair_keys_result Cons.prems by fastforce
  moreover from this(2) obtain st2 where "over_pairs pair_keys bs st1 = Some st2"
      "noted st2 (K \<union> pair_live b \<union> \<Union> (pair_live ` set bs))"
    using Cons.IH Cons.prems(1) by fastforce
  ultimately show ?case by (auto simp: Un_assoc)
qed simp

lemma lru2_Keys_value:
  assumes wf: "wf_store s"
  obtains ks where "lru2_Keys s = Some ks" "distinct ks" "set ks = held s"
proof -
  have "noted ([], []) {}" by (simp add: noted_def)
  then obtain st where "over_pairs pair_keys (caches s) ([], []) = Some st" "noted st (held s)"
    using over_pair_keys [OF wf_store_pairs [OF wf]] held_pairs [OF wf] by fastforce
  then show ?thesis
    by (cases st) (auto intro!: that simp: lru2_Keys_def noted_def)
qed

section \<open>The cleanup tick\<close>

definition stale :: "int \<Rightarrow> ('v option \<times> int) option \<Rightarrow> bool" where
  "stale now l \<longleftrightarrow> (case l of Some (v, e) \<Rightarrow> e \<le> now | None \<Rightarrow> False)"

definition expired_names :: "int \<Rightarrow> 'v pair \<Rightarrow> string set" where
  "expired_names now b = {k. stale now (live (entries (fst b)) k) \<or> stale now (live (entries (snd b)) k)}"

lemma stale_entries:
  assumes "distinct (map fst es)"
  shows "{k. stale now (live es k)} = {k. \<exists>v e. (k, v, e) \<in> set es \<and> 0 < e \<and> e \<le> now}"
proof -
  have "map_of es k = Some ve \<longleftrightarrow> (k, ve) \<in> set es" for k ve
    using assms by (rule map_of_eq_Some_iff)
  then show ?thesis
    by (auto simp: stale_def live_def split: option.splits if_splits) (metis option.inject prod.inject)+
qed

lemma fold_expired:
  "set (fold (\<lambda>(k, v, e) ks. if 0 < e \<and> e \<le> now then ks @ [k] else ks) es ks) =
   set ks \<union> {k. \<exists>v e. (k, v, e) \<in> set es \<and> 0 < e \<and> e \<le> now}"
  by (induction es arbitrary: ks) (auto split: if_splits, blast)

lemma fold_expired_new:
  "set (fold (\<lambda>(k, v, e) ks. if 0 < e \<and> e \<le> now then if k \<in> set ks then ks else ks @ [k] else ks) es ks) =
   set ks \<union> {k. \<exists>v e. (k, v, e) \<in> set es \<and> 0 < e \<and> e \<le> now}"
  by (induction es arbitrary: ks) (auto split: if_splits, blast)

lemma pair_expired_result:
  assumes "wf_pair b"
  shows "\<exists>ks. pair_expired b now = Some ks \<and> set ks = expired_names now b"
proof -
  have wf: "wf_bucket (fst b)" "wf_bucket (snd b)" using assms by (simp_all add: wf_pair_def)
  let ?f0 = "\<lambda>k v e ks. if 0 < e \<and> e \<le> now then ks @ [k] else ks"
  let ?f1 = "\<lambda>k v e ks. if 0 < e \<and> e \<le> now then if k \<in> set ks then ks else ks @ [k] else ks"
  have w0: "walk c (\<lambda>k v e ks. (True, ?f0 k v e ks)) ks =
      Some (fold (\<lambda>(k, v, e) ks. ?f0 k v e ks) (filter (\<lambda>x. 0 < snd (snd x)) (entries c)) ks)"
    if "wf_bucket c" for c :: "'a cache" and ks
    using that by (simp add: walk_result walk_spec_collect [where f = ?f0])
  have w1: "walk c (\<lambda>k v e ks. (True, ?f1 k v e ks)) ks =
      Some (fold (\<lambda>(k, v, e) ks. ?f1 k v e ks) (filter (\<lambda>x. 0 < snd (snd x)) (entries c)) ks)"
    if "wf_bucket c" for c :: "'a cache" and ks
    using that by (simp add: walk_result walk_spec_collect [where f = ?f1])
  have "expired_names now b = {k. \<exists>v e. (k, v, e) \<in> set (entries (fst b)) \<and> 0 < e \<and> e \<le> now} \<union>
      {k. \<exists>v e. (k, v, e) \<in> set (entries (snd b)) \<and> 0 < e \<and> e \<le> now}"
    unfolding expired_names_def Collect_disj_eq
    by (simp only: stale_entries [OF entries_distinct [OF wf(1)]] stale_entries [OF entries_distinct [OF wf(2)]])
  then show ?thesis
    unfolding pair_expired_def by (auto simp: w0 [OF wf(1)] w1 [OF wf(2)] fold_expired fold_expired_new)
qed

lemma pair_delete_all_result:
  "wf_pair b \<Longrightarrow> \<exists>b' calls. pair_delete_all cb b ks = Some (b', calls) \<and> wf_pair b' \<and>
     pair_names b' \<subseteq> set ks \<union> pair_names b \<and>
     live (entries (fst b')) = (\<lambda>k. if k \<in> set ks then None else live (entries (fst b)) k) \<and>
     live (entries (snd b')) = (\<lambda>k. if k \<in> set ks then None else live (entries (snd b)) k)"
proof (induction ks arbitrary: b)
  case (Cons key ks)
  obtain b1 d calls1 where b1: "pair_delete cb b key = Some (b1, d, calls1)" "wf_pair b1"
    "entries (fst b1) = spec_del key (entries (fst b))" "entries (snd b1) = spec_del key (entries (snd b))"
    using pair_delete_result [OF Cons.prems, of cb key] by (auto simp: pair_becomes_def)
  obtain b2 calls2 where b2: "pair_delete_all cb b1 ks = Some (b2, calls2)" "wf_pair b2"
     "pair_names b2 \<subseteq> set ks \<union> pair_names b1"
     "live (entries (fst b2)) = (\<lambda>k. if k \<in> set ks then None else live (entries (fst b1)) k)"
     "live (entries (snd b2)) = (\<lambda>k. if k \<in> set ks then None else live (entries (snd b1)) k)"
    using Cons.IH [OF b1(2)] by blast
  have "pair_names b1 \<subseteq> insert key (pair_names b)"
    using names_del [of key "entries (fst b)"] names_del [of key "entries (snd b)"]
    unfolding pair_names_def b1(3,4) by blast
  with b1 b2 show ?case by (auto simp: fun_eq_iff live_del)
qed simp

definition cleaned :: "int \<Rightarrow> 'v pair \<Rightarrow> 'v pair \<Rightarrow> bool" where
  "cleaned now b b' \<longleftrightarrow> wf_pair b' \<and> pair_names b' \<subseteq> pair_names b \<and>
     live (entries (fst b')) = (\<lambda>k. if k \<in> expired_names now b then None else live (entries (fst b)) k) \<and>
     live (entries (snd b')) = (\<lambda>k. if k \<in> expired_names now b then None else live (entries (snd b)) k)"

lemma pair_cleanup_result:
  assumes "wf_pair b"
  shows "\<exists>b' calls. pair_cleanup cb b now = Some (b', calls) \<and> cleaned now b b'"
proof -
  obtain ks where ks: "pair_expired b now = Some ks" "set ks = expired_names now b"
    using pair_expired_result [OF assms] by blast
  obtain b' calls where b': "pair_delete_all cb b ks = Some (b', calls)" "wf_pair b'"
     "pair_names b' \<subseteq> set ks \<union> pair_names b"
     "live (entries (fst b')) = (\<lambda>k. if k \<in> set ks then None else live (entries (fst b)) k)"
     "live (entries (snd b')) = (\<lambda>k. if k \<in> set ks then None else live (entries (snd b)) k)"
    using pair_delete_all_result [OF assms, of cb ks] by blast
  have "expired_names now b \<subseteq> pair_names b"
  proof
    fix k assume "k \<in> expired_names now b"
    then have "live (entries (fst b)) k \<noteq> None \<or> live (entries (snd b)) k \<noteq> None"
      by (auto simp: expired_names_def stale_def split: option.splits)
    then show "k \<in> pair_names b" unfolding pair_names_def using live_name by blast
  qed
  with ks b' show ?thesis unfolding pair_cleanup_def cleaned_def by auto
qed

lemma cleanup_pairs_result:
  "(\<forall>b \<in> set bs. wf_pair b) \<Longrightarrow>
   \<exists>bs' calls. cleanup_pairs cb bs now = Some (bs', calls) \<and> list_all2 (cleaned now) bs bs'"
proof (induction bs)
  case (Cons b bs)
  obtain b' calls where "pair_cleanup cb b now = Some (b', calls)" "cleaned now b b'"
    using pair_cleanup_result Cons.prems by fastforce
  moreover obtain bs' calls' where "cleanup_pairs cb bs now = Some (bs', calls')" "list_all2 (cleaned now) bs bs'"
    using Cons by auto
  ultimately show ?case by auto
qed simp

lemma lru2_cleanup_effect:
  assumes wf: "wf_store s"
  obtains s' where "lru2_cleanup s now = Some s'" "wf_store s'" "bucket_of s' = bucket_of s"
    "lvl0 s' = (\<lambda>k. if stale now (lvl0 s k) \<or> stale now (lvl1 s k) then None else lvl0 s k)"
    "lvl1 s' = (\<lambda>k. if stale now (lvl0 s k) \<or> stale now (lvl1 s k) then None else lvl1 s k)"
proof -
  obtain bs' calls where bs: "cleanup_pairs (onEvicted s) (caches s) now = Some (bs', calls)"
      "list_all2 (cleaned now) (caches s) bs'"
    using cleanup_pairs_result [OF wf_store_pairs [OF wf]] by blast
  let ?s = "s\<lparr>caches := bs', evicted := evicted s @ calls\<rparr>"
  have len: "length bs' = length (caches s)" using bs(2) by (simp add: list_all2_lengthD)
  have bk: "bucket_of ?s = bucket_of s" by (simp add: bucket_of_def fun_eq_iff)
  have cl: "cleaned now (caches s ! i) (bs' ! i)" if "i < length (caches s)" for i
    using bs(2) that by (rule list_all2_nthD)
  have "wf_store ?s"
    using wf cl len bk unfolding wf_store_def cleaned_def by (auto simp: subset_iff)
  moreover have "lvl0 ?s k = (if stale now (lvl0 s k) \<or> stale now (lvl1 s k) then None else lvl0 s k)"
    "lvl1 ?s k = (if stale now (lvl0 s k) \<or> stale now (lvl1 s k) then None else lvl1 s k)" for k
    using cl [OF wf_store_pair(1) [OF wf, of k]]
    by (simp_all add: lvl0_def lvl1_def bk cleaned_def expired_names_def)
  ultimately show ?thesis
    using bs bk by (intro that [of ?s]) (simp_all add: lru2_cleanup_def fun_eq_iff)
qed

end
