(* ===== verification/Contract.thy ===== *)
theory Contract
  imports Prelude
begin

text \<open>
  The contract a store keeps towards the layers above it (\<open>type Store interface\<close> of
  \<open>store/store.go\<close>). A cache may forget at any time, so the contract does not promise that a
  value is found; it promises what a value that is found can be: one that was set under the same
  key since the key was last deleted or the store cleared. \<open>can\<close> names the values a state can
  still return, \<open>reply\<close> the answers of \<open>Get\<close> and \<open>GetValue\<close>; both stores and the dispatch over
  them are instances.
\<close>

datatype 'v store_op = PutOp string 'v | GetOp string | DelOp string | ClearOp | TidyOp

fun remember :: "'v store_op \<Rightarrow> (string \<Rightarrow> 'v set) \<Rightarrow> string \<Rightarrow> 'v set" where
  "remember (PutOp k v) W = W(k := insert v (W k))"
| "remember (DelOp k) W = W(k := {})"
| "remember ClearOp W = (\<lambda>_. {})"
| "remember _ W = W"

text \<open>The values set under each key since it was last removed.\<close>

definition history :: "'v store_op list \<Rightarrow> string \<Rightarrow> 'v set" where
  "history ops = fold remember ops (\<lambda>_. {})"

inductive runs :: "('s \<Rightarrow> 'v store_op \<Rightarrow> 's \<Rightarrow> bool) \<Rightarrow> 's \<Rightarrow> 'v store_op list \<Rightarrow> 's \<Rightarrow> bool"
  for step :: "'s \<Rightarrow> 'v store_op \<Rightarrow> 's \<Rightarrow> bool"
where
  runs_Nil: "runs step s [] s"
| runs_snoc: "runs step s ops s' \<Longrightarrow> step s' op s'' \<Longrightarrow> runs step s (ops @ [op]) s''"

lemma remember_mono: "(\<And>k. W k \<subseteq> W' k) \<Longrightarrow> remember op W k \<subseteq> remember op W' k"
  by (cases op) auto

locale store_contract =
  fixes inv :: "'s \<Rightarrow> bool"
    and can :: "'s \<Rightarrow> string \<Rightarrow> 'v set"
    and step :: "'s \<Rightarrow> 'v store_op \<Rightarrow> 's \<Rightarrow> bool"
    and reply :: "'s \<Rightarrow> string \<Rightarrow> 'v \<Rightarrow> bool"
  assumes step_inv: "inv s \<Longrightarrow> step s op s' \<Longrightarrow> inv s'"
    and step_can: "inv s \<Longrightarrow> step s op s' \<Longrightarrow> can s' k \<subseteq> remember op (can s) k"
    and reply_can: "inv s \<Longrightarrow> reply s k v \<Longrightarrow> v \<in> can s k"
begin

lemma runs_inv: "runs step s ops s' \<Longrightarrow> inv s \<Longrightarrow> inv s'"
  by (induction rule: runs.induct) (auto intro: step_inv)

lemma runs_can: "runs step s ops s' \<Longrightarrow> inv s \<Longrightarrow> (\<And>k. can s k = {}) \<Longrightarrow> can s' k \<subseteq> history ops k"
proof (induction arbitrary: k rule: runs.induct)
  case (runs_Nil s)
  then show ?case by simp
next
  case (runs_snoc s ops s' op s'')
  have "can s'' k \<subseteq> remember op (can s') k"
    using step_can runs_inv runs_snoc by blast
  also have "\<dots> \<subseteq> remember op (history ops) k"
    by (rule remember_mono) (use runs_snoc in blast)
  finally show ?case by (simp add: history_def)
qed

text \<open>A reply was set, and not deleted since.\<close>

lemma authentic:
  "runs step s ops s' \<Longrightarrow> inv s \<Longrightarrow> (\<And>k. can s k = {}) \<Longrightarrow> reply s' k v \<Longrightarrow> v \<in> history ops k"
  using runs_can runs_inv reply_can by blast

end

end
