(* ===== verification/Lru2Props.thy ===== *)
theory Lru2Props
  imports Lru2Spec Contract
begin

text \<open>
  The properties of the two-level store: the bucket operations implement their specification,
  the store's operations as seen by a client, and the places where the two levels disagree.
\<close>

section \<open>Buckets\<close>

lemma two_slots: "wf_bucket (Create 2)" "entries (Create 2) = []" "capacity (Create 2) = 2"
  using wf_Create [of 2] by (simp_all add: capacity_def Create_def)

text \<open>C1: On a well-formed bucket, an array of links used as a ring, put, get and del never index
  out of range and do to the entries, read from the head of the ring, what the specification
  says: the key moves to the front, or its deleted mark to the back, a full bucket drops its
  last entry, and the callback hears of that entry if it was not marked deleted.\<close>
theorem bucket_refines:
  assumes "wf_bucket c"
  shows "(\<exists>c'. put c key v e cb =
      Some (c', if key \<in> fst ` set (entries c) then 0 else 1, spec_calls (capacity c) cb key (entries c)) \<and>
      wf_bucket c' \<and> capacity c' = capacity c \<and> entries c' = spec_put (capacity c) key v e (entries c)) \<and>
    (\<exists>c'. get c key = Some (c', found_node key (map_of (entries c) key),
        if map_of (entries c) key = None then 0 else 1) \<and>
      wf_bucket c' \<and> capacity c' = capacity c \<and> entries c' = spec_get key (entries c)) \<and>
    (\<exists>c'. del c key = Some (c', del_reply key (map_of (entries c) key)) \<and>
      wf_bucket c' \<and> capacity c' = capacity c \<and> entries c' = spec_del key (entries c)) \<and>
    distinct (map fst (entries c)) \<and> length (entries c) \<le> capacity c"
  using bk.put_law [OF assms, of key v e cb] bk.get_law [OF assms, of key] bk.del_law [OF assms, of key]
    bk.keys_law [OF assms] bk.cap_law [OF assms]
  by blast

theorem bucket_refines_witness:
  "\<exists>c'. put (Create 2) ''k'' (Some (5 :: int)) 9 True = Some (c', 1, []) \<and> entries c' = [(''k'', Some 5, 9)]"
  using bucket_refines [OF two_slots(1), of "''k''" "Some (5 :: int)" 9 True]
  by (auto simp: two_slots spec_put_def spec_calls_def)

section \<open>The store\<close>

definition tiny :: Options where
  "tiny = NewOptions\<lparr>BucketCount := 1, CapPerBucket := 1, Level2Cap := 2\<rparr>"

lemma tiny_wf: "wf_store (newLRU2Cache tiny)"
  by (rule wf_new_store) (simp_all add: tiny_def NewOptions_def)

lemma tiny_empty: "lvl0 (newLRU2Cache tiny) k = None" "lvl1 (newLRU2Cache tiny) k = None"
  by (rule wf_new_store; simp add: tiny_def NewOptions_def)+

text \<open>C28: Get on a well-formed store never panics. A value in level one that has not expired is
  returned and moved to level two; an expired one is deleted in both levels; otherwise level two
  answers. No other key appears or changes its value.\<close>
theorem lru2_Get_correct:
  assumes "wf_store s" and "now \<le> now'"
  shows "\<exists>s'. lru2_Get s key now now' = Some (s', get_reply (lvl0 s key) (lvl1 s key) now now') \<and>
    wf_store s' \<and> lvl0 s' = (lvl0 s)(key := None) \<and>
    lvl1 s' key = (case lvl0 s key of
        Some (v, e) \<Rightarrow> if e \<le> now then None else Some (v, e) | None \<Rightarrow> lvl1 s key) \<and>
    (\<forall>k. k \<noteq> key \<longrightarrow> lvl1 s' k = lvl1 s k \<or> lvl1 s' k = None)"
  by (rule lru2_Get_effect [OF assms, of key]) (auto simp: forgets_def)

theorem lru2_Get_correct_witness:
  "\<exists>s'. lru2_Get (newLRU2Cache tiny :: int lru2Store) ''k'' 0 0 = Some (s', (None, False)) \<and> wf_store s'"
  using lru2_Get_correct [OF tiny_wf, of 0 0 "''k''", where 'a = int]
  by (auto simp: tiny_empty get_reply_def)



section \<open>Runs\<close>

definition lru2_can :: "'v lru2Store \<Rightarrow> string \<Rightarrow> 'v option set" where
  "lru2_can s k = {v. \<exists>e. lvl0 s k = Some (v, e) \<or> lvl1 s k = Some (v, e)}"

text \<open>One operation of the store at some reading of the clock.\<close>

definition lru2_step :: "'v lru2Store \<Rightarrow> 'v option store_op \<Rightarrow> 'v lru2Store \<Rightarrow> bool" where
  "lru2_step s op s' \<longleftrightarrow> (case op of
     PutOp k v \<Rightarrow> \<exists>d now. lru2_SetWithExpiration s k v d now = Some s'
   | GetOp k \<Rightarrow> \<exists>now now' r. now \<le> now' \<and> lru2_Get s k now now' = Some (s', r)
   | DelOp k \<Rightarrow> \<exists>b. lru2_Delete s k = Some (s', b)
   | ClearOp \<Rightarrow> lru2_Clear s = Some s'
   | TidyOp \<Rightarrow> \<exists>now. lru2_tick s now = Some s')"

definition lru2_reply :: "'v lru2Store \<Rightarrow> string \<Rightarrow> 'v option \<Rightarrow> bool" where
  "lru2_reply s k v \<longleftrightarrow> (\<exists>now now' s'. now \<le> now' \<and> lru2_Get s k now now' = Some (s', (v, True))) \<or>
     (\<exists>now. lru2_GetValue s k now = Some (v, True))"

lemma can_forgets:
  assumes "forgets (lvl0 s') (lvl0 s) key \<or> lvl0 s' = lvl0 s" and "forgets (lvl1 s') (lvl1 s) key \<or> lvl1 s' = lvl1 s"
    and "k \<noteq> key"
  shows "lru2_can s' k \<subseteq> lru2_can s k"
proof -
  have "lvl0 s' k = lvl0 s k \<or> lvl0 s' k = None" "lvl1 s' k = lvl1 s k \<or> lvl1 s' k = None"
    using assms by (auto simp: forgets_def)
  then show ?thesis unfolding lru2_can_def by (elim disjE; simp; blast?)
qed

lemma forgets_upd: "forgets (f(key := x)) f key"
  by (simp add: forgets_def)

lemma lru2_put_law:
  assumes wf: "wf_store s" and run: "lru2_SetWithExpiration s key v d now = Some s'"
  shows "wf_store s' \<and> (\<forall>k. lru2_can s' k \<subseteq> remember (PutOp key v) (lru2_can s) k)"
proof (rule lru2_Set_effect [OF wf, of key v d now])
  fix s1 assume s1: "lru2_SetWithExpiration s key v d now = Some s1" "wf_store s1"
    "lvl0 s1 key = (if 0 < expires_at now d then Some (v, expires_at now d) else None)"
    "forgets (lvl0 s1) (lvl0 s) key" "lvl1 s1 = lvl1 s"
  have eq: "s1 = s'" using s1(1) run by simp
  have "lru2_can s1 k \<subseteq> remember (PutOp key v) (lru2_can s) k" for k
  proof (cases "k = key")
    case True
    then show ?thesis using s1(3,5) by (auto simp: lru2_can_def split: if_splits)
  next
    case False
    then show ?thesis using can_forgets [of s1 s key k] s1(4,5) by simp
  qed
  with s1(2) eq show ?thesis by blast
qed

lemma lru2_get_law:
  assumes wf: "wf_store s" and run: "now \<le> now'" "lru2_Get s key now now' = Some (s', r)"
  shows "wf_store s' \<and> (\<forall>k. lru2_can s' k \<subseteq> remember (GetOp key) (lru2_can s) k)"
proof (rule lru2_Get_effect [OF wf run(1), of key])
  fix s1 assume s1: "lru2_Get s key now now' = Some (s1, get_reply (lvl0 s key) (lvl1 s key) now now')"
    "wf_store s1" "lvl0 s1 = (lvl0 s)(key := None)"
    "lvl1 s1 key = (case lvl0 s key of
      Some (v, e) \<Rightarrow> if e \<le> now then None else Some (v, e) | None \<Rightarrow> lvl1 s key)"
    "forgets (lvl1 s1) (lvl1 s) key"
  have eq: "s1 = s'" using s1(1) run by simp
  have "lru2_can s1 k \<subseteq> remember (GetOp key) (lru2_can s) k" for k
  proof (cases "k = key")
    case True
    then show ?thesis using s1(3,4) by (auto simp: lru2_can_def split: option.splits if_splits)
  next
    case False
    then show ?thesis using can_forgets [of s1 s key k] s1(3,5) forgets_upd [of "lvl0 s" key None] by simp
  qed
  with s1(2) eq show ?thesis by blast
qed

lemma lru2_tick_law:
  assumes wf: "wf_store s" and tick: "lru2_tick s now = Some s'"
  shows "wf_store s' \<and> (\<forall>k. lru2_can s' k \<subseteq> lru2_can s k)"
proof (cases "ticking s")
  case False
  then show ?thesis using tick wf by (simp add: lru2_tick_def)
next
  case True
  obtain s1 where s1: "lru2_cleanup s now = Some s1" "wf_store s1"
      "lvl0 s1 = (\<lambda>k. if stale now (lvl0 s k) \<or> stale now (lvl1 s k) then None else lvl0 s k)"
      "lvl1 s1 = (\<lambda>k. if stale now (lvl0 s k) \<or> stale now (lvl1 s k) then None else lvl1 s k)"
    by (rule lru2_cleanup_effect [OF wf, of now])
  have eq: "s1 = s'" using s1(1) tick True by (simp add: lru2_tick_def)
  show ?thesis using s1(2-4) unfolding eq by (auto simp: lru2_can_def split: if_splits)
qed

lemma lru2_step_law:
  assumes wf: "wf_store s" and st: "lru2_step s op s'"
  shows "wf_store s' \<and> (\<forall>k. lru2_can s' k \<subseteq> remember op (lru2_can s) k)"
proof (cases op)
  case (PutOp key v)
  then obtain d now where "lru2_SetWithExpiration s key v d now = Some s'" using st by (auto simp: lru2_step_def)
  from lru2_put_law [OF wf this] show ?thesis unfolding PutOp .
next
  case (GetOp key)
  then obtain now now' r where "now \<le> now'" "lru2_Get s key now now' = Some (s', r)"
    using st by (auto simp: lru2_step_def)
  from lru2_get_law [OF wf this] show ?thesis unfolding GetOp .
next
  case (DelOp key)
  then obtain b where run: "lru2_Delete s key = Some (s', b)" using st by (auto simp: lru2_step_def)
  obtain s1 where s1: "lru2_Delete s key = Some (s1, lvl0 s key \<noteq> None \<or> lvl1 s key \<noteq> None)"
      "wf_store s1" "lvl0 s1 = (lvl0 s)(key := None)" "lvl1 s1 = (lvl1 s)(key := None)"
    by (rule lru2_Delete_effect [OF wf, of key])
  have eq: "s1 = s'" using s1(1) run by simp
  show ?thesis using s1(2-4) unfolding eq by (auto simp: DelOp lru2_can_def)
next
  case ClearOp
  obtain s1 where s1: "lru2_Clear s = Some s1" "wf_store s1" "held s1 = {}"
    by (rule lru2_Clear_effect [OF wf])
  have eq: "s1 = s'" using s1(1) st ClearOp by (simp add: lru2_step_def)
  show ?thesis using s1(2,3) unfolding eq by (auto simp: ClearOp lru2_can_def held_def)
next
  case TidyOp
  then obtain now where "lru2_tick s now = Some s'" using st by (auto simp: lru2_step_def)
  from lru2_tick_law [OF wf this] show ?thesis by (simp add: TidyOp)
qed

lemma lru2_reply_can:
  assumes wf: "wf_store s" and "lru2_reply s k v"
  shows "v \<in> lru2_can s k"
  using assms(2) unfolding lru2_reply_def
proof
  assume "\<exists>now now' s'. now \<le> now' \<and> lru2_Get s k now now' = Some (s', (v, True))"
  then obtain now now' s' where r: "now \<le> now'" "lru2_Get s k now now' = Some (s', (v, True))" by blast
  have "get_reply (lvl0 s k) (lvl1 s k) now now' = (v, True)"
    by (rule lru2_Get_effect [OF wf r(1), of k]) (use r(2) in simp)
  then show ?thesis by (auto simp: get_reply_def lru2_can_def split: option.splits if_splits)
next
  assume "\<exists>now. lru2_GetValue s k now = Some (v, True)"
  then show ?thesis
    by (cases "lvl0 s k"; cases "lvl1 s k")
      (auto simp: lru2_GetValue_effect [OF wf] lru2_can_def split: if_splits)
qed

interpretation lru2c: store_contract wf_store lru2_can lru2_step lru2_reply
  by unfold_locales (use lru2_step_law lru2_reply_can in blast)+

lemma lru2_start:
  assumes "unat (BucketCount opts) \<le> 32768" and "CapPerBucket opts \<noteq> 65535" and "Level2Cap opts \<noteq> 65535"
  shows "wf_store (newLRU2Cache opts :: 'v lru2Store)" and "lru2_can (newLRU2Cache opts :: 'v lru2Store) k = {}"
  using wf_new_store [OF assms, where 'a = 'v] by (simp_all add: lru2_can_def)



text \<open>Keys lists every key held in either level exactly once; Clear empties both levels, and then
  Keys is empty and Len is 0.\<close>
theorem lru2_Keys_Clear:
  assumes "wf_store s"
  shows "(\<exists>ks. lru2_Keys s = Some ks \<and> distinct ks \<and> set ks = {k. lvl0 s k \<noteq> None \<or> lvl1 s k \<noteq> None}) \<and>
    (\<exists>s'. lru2_Clear s = Some s' \<and> wf_store s' \<and> lru2_Keys s' = Some [] \<and> lru2_Len s' = Some 0)"
proof
  show "\<exists>ks. lru2_Keys s = Some ks \<and> distinct ks \<and> set ks = {k. lvl0 s k \<noteq> None \<or> lvl1 s k \<noteq> None}"
    by (rule lru2_Keys_value [OF assms]) (simp add: held_def)
  obtain s' where s': "lru2_Clear s = Some s'" "wf_store s'" "held s' = {}"
    by (rule lru2_Clear_effect [OF assms])
  have "lru2_Keys s' = Some []"
    by (rule lru2_Keys_value [OF s'(2)]) (use s'(3) in simp)
  moreover have "live_keys (entries (fst b)) = [] \<and> live_keys (entries (snd b)) = []" if "b \<in> set (caches s')" for b
    using held_pairs [OF s'(2)] s'(3) that by (auto simp: pair_live_def)
  then have "lru2_Len s' = Some 0" by (simp add: lru2_Len_value [OF s'(2)])
  ultimately show "\<exists>s'. lru2_Clear s = Some s' \<and> wf_store s' \<and> lru2_Keys s' = Some [] \<and> lru2_Len s' = Some 0"
    using s' by blast
qed

theorem lru2_Keys_Clear_witness:
  "\<exists>s'. lru2_Clear (newLRU2Cache tiny :: int lru2Store) = Some s' \<and> lru2_Keys s' = Some []"
  using lru2_Keys_Clear [OF tiny_wf, where 'a = int] by blast

text \<open>C30: A cleanup tick removes exactly the keys of which level one or level two holds an expired
  value, from both levels, and leaves every other key as it was.\<close>
theorem lru2_cleanup_exact:
  assumes "wf_store s"
  shows "\<exists>s'. lru2_cleanup s now = Some s' \<and> wf_store s' \<and>
    (\<forall>k. if (\<exists>v e. (lvl0 s k = Some (v, e) \<or> lvl1 s k = Some (v, e)) \<and> e \<le> now)
         then lvl0 s' k = None \<and> lvl1 s' k = None
         else lvl0 s' k = lvl0 s k \<and> lvl1 s' k = lvl1 s k)"
proof -
  have st: "stale now l \<longleftrightarrow> (\<exists>v e. l = Some (v, e) \<and> e \<le> now)" for l :: "('a option \<times> int) option"
    by (auto simp: stale_def split: option.split)
  show ?thesis
    by (rule lru2_cleanup_effect [OF assms, of now]) (use st in \<open>simp; blast\<close>)
qed

theorem lru2_cleanup_exact_witness: "\<exists>s'. lru2_cleanup (newLRU2Cache tiny :: int lru2Store) 5 = Some s' \<and> wf_store s'"
  using lru2_cleanup_exact [OF tiny_wf, where 'a = int] by blast

section \<open>The number of buckets\<close>

text \<open>C38: For a bucket count of 1 to 32768 the mask is one less than the least power of two that is not
  below it, the store has that many bucket pairs, and every key's hash selects one of them.\<close>
theorem lru2_buckets:
  assumes "0 < BucketCount opts" and "unat (BucketCount opts) \<le> 32768"
  shows "\<exists>n. length (caches (newLRU2Cache opts)) = 2 ^ n \<and> unat (BucketCount opts) \<le> 2 ^ n \<and>
    2 ^ n < 2 * unat (BucketCount opts) \<and>
    bucket_of (newLRU2Cache opts :: 'v lru2Store) key = unat (hashBKRD key) mod 2 ^ n"
proof -
  let ?m = "maskOfNextPowOf2 (BucketCount opts)"
  have nz: "BucketCount opts \<noteq> 0" using assms(1) by (simp add: word_gt_0)
  then have bc: "BucketCount (lru2_defaults opts) = BucketCount opts" by (simp add: lru2_defaults_keep)
  obtain n where n: "unat ?m + 1 = 2 ^ n" "unat (BucketCount opts) \<le> 2 ^ n" "2 ^ n < 2 * unat (BucketCount opts)"
    using mask_bounds [OF nz] by blast
  have len: "length (caches (newLRU2Cache opts)) = 2 ^ n"
    using mask_small [OF assms(2)] n(1) by (simp add: newLRU2Cache_def Let_def bc)
  have "unat (ucast ?m :: u32) = unat ?m"
    using unsigned_less [where ?'a = nat, of ?m] by (simp add: unsigned_ucast_eq take_bit_nat_eq_self)
  also have "\<dots> = Bit_Operations.mask n" using n(1) by (simp add: mask_eq_exp_minus_1)
  finally have "unat (hashBKRD key AND ucast ?m) = unat (hashBKRD key) AND Bit_Operations.mask n"
    by (simp add: unsigned_and_eq)
  then have "bucket_of (newLRU2Cache opts :: 'v lru2Store) key = unat (hashBKRD key) mod 2 ^ n"
    by (simp add: bucket_of_def newLRU2Cache_def Let_def bc flip: take_bit_eq_mask take_bit_eq_mod)
  with len n show ?thesis by blast
qed

theorem lru2_buckets_witness:
  "\<exists>n. length (caches (newLRU2Cache (NewOptions\<lparr>BucketCount := 5\<rparr>) :: int lru2Store)) = 2 ^ n \<and> 5 \<le> (2 :: nat) ^ n"
  using lru2_buckets [of "NewOptions\<lparr>BucketCount := 5\<rparr>", where 'v = int] by auto

text \<open>For a larger bucket count the 16-bit sum mask+1 is 0: the store has no bucket at all and
  every Get, Set and Delete panics.\<close>
theorem lru2_too_many_buckets:
  assumes "32768 < unat (BucketCount opts)"
  shows "lru2_Get (newLRU2Cache opts :: 'v lru2Store) key now now' = None \<and>
    lru2_SetWithExpiration (newLRU2Cache opts :: 'v lru2Store) key v d now = None \<and>
    lru2_Delete (newLRU2Cache opts :: 'v lru2Store) key = None"
proof -
  let ?m = "maskOfNextPowOf2 (BucketCount opts)"
  have nz: "BucketCount opts \<noteq> 0" using assms by auto
  then have bc: "BucketCount (lru2_defaults opts) = BucketCount opts" by (simp add: lru2_defaults_keep)
  obtain n where n: "unat ?m + 1 = 2 ^ n" "unat (BucketCount opts) \<le> 2 ^ n" "2 ^ n < 2 * unat (BucketCount opts)"
    using mask_bounds [OF nz] by blast
  have "(2 :: nat) ^ 15 < 2 ^ n" using n(2) assms by simp
  then have "15 < n" using power_less_imp_less_exp [of "2 :: nat" 15 n] by simp
  moreover have "(2 :: nat) ^ n \<le> 2 ^ 16" using n(1) unsigned_less [where ?'a = nat, of ?m] by simp
  then have "n \<le> 16" using power_le_imp_le_exp [of "2 :: nat" n 16] by simp
  ultimately have "n = 16" by simp
  then have "unat (?m + 1) = 0" using n(1) by (simp add: unat_word_ariths)
  then have "caches (newLRU2Cache opts :: 'v lru2Store) = []" by (simp add: newLRU2Cache_def Let_def bc)
  then show ?thesis
    by (simp add: lru2_Get_def lru2_SetWithExpiration_def lru2_Delete_def slice_get_def)
qed

theorem lru2_too_many_buckets_witness:
  "lru2_Delete (newLRU2Cache (NewOptions\<lparr>BucketCount := 40000\<rparr>) :: int lru2Store) ''k'' = None"
  using lru2_too_many_buckets [of "NewOptions\<lparr>BucketCount := 40000\<rparr>", where 'v = int] by simp

section \<open>Where the levels disagree\<close>

definition stale_run :: "(int lru2Store \<times> int option \<times> bool) option" where
  "stale_run = do {
     s \<leftarrow> lru2_SetWithExpiration (newLRU2Cache tiny) ''k'' (Some 1) 100 0;
     (s, _) \<leftarrow> lru2_Get s ''k'' 1 1;
     s \<leftarrow> lru2_SetWithExpiration s ''k'' (Some 2) 100 2;
     s \<leftarrow> lru2_SetWithExpiration s ''j'' (Some 3) 100 3;
     lru2_Get s ''k'' 4 4 }"

text \<open>Set writes level one only and leaves an older value in level two, so a Get can return the
  value before last: after k := 1, a Get of k, k := 2 and an insertion that pushes k out of level
  one, Get returns 1.\<close>
theorem lru2_stale_value: "map_option snd stale_run = Some (Some 1, True)"
  by code_simp

definition lost_run :: "(int lru2Store \<times> int lru2Store) option" where
  "lost_run = do {
     s \<leftarrow> lru2_SetWithExpiration (newLRU2Cache tiny) ''k'' (Some 1) 10 0;
     (s, _) \<leftarrow> lru2_Get s ''k'' 1 1;
     s \<leftarrow> lru2_SetWithExpiration s ''k'' (Some 2) 100 2;
     s' \<leftarrow> lru2_cleanup s 50;
     Some (s, s') }"

text \<open>A cleanup tick deletes a key in both levels when one of them has expired: a value that lives
  until 102 is gone at 50, because level two still held an older value that expired at 10. Before
  the tick Len counts the key twice.\<close>
theorem lru2_fresh_value_cleaned:
  "(case lost_run of
      Some (s, s') \<Rightarrow> (lru2_GetValue s ''k'' 50, lru2_GetValue s' ''k'' 50, lru2_Len s, lru2_Keys s) =
        (Some (Some 2, True), Some (None, False), Some 2, Some [''k''])
    | None \<Rightarrow> False)"
  by code_simp

text \<open>A non-positive lifetime stores an entry that no operation can see, where the other store
  keeps such an entry for ever; and the key's older value in level one is lost.\<close>
theorem lru2_no_permanent:
  assumes "wf_store s" and "d \<le> 0"
  shows "\<exists>s'. lru2_SetWithExpiration s key v d now = Some s' \<and> lvl0 s' key = None \<and> lvl1 s' = lvl1 s"
  by (rule lru2_Set_effect [OF assms(1), of key v d now]) (use assms(2) in \<open>auto simp: expires_at_def\<close>)

theorem lru2_no_permanent_witness:
  "\<exists>s'. lru2_SetWithExpiration (newLRU2Cache tiny) ''k'' (Some (1 :: int)) 0 0 = Some s' \<and> lvl0 s' ''k'' = None"
  using lru2_no_permanent [OF tiny_wf, of 0 "''k''" "Some (1 :: int)" 0] by blast

end
