(* ===== verification/ConsHash.thy ===== *)
theory ConsHash
  imports Prelude Complex_Main
begin

text \<open>
  The consistent-hash ring of \<open>consistenthash/config.go\<close> and \<open>consistenthash/con_hash.go\<close>: the
  sorted hashes of the virtual nodes (\<open>keys\<close>), the node behind each hash (\<open>hashMap\<close>), the
  number of virtual nodes and the request counter per node, and the unhealthy nodes. Missing
  map entries read as Go's zero value. The lock is not reentrant: an operation that locks takes
  the flag \<open>held\<close>, whether its caller holds the lock already, and then never returns
  (\<open>Deadlock\<close>). A float64 is a rational, and \<open>fl\<close> is the rounding of each operation.
\<close>

unbundle bit_operations_syntax

section \<open>Configuration\<close>

record Config =
  DefaultReplicas :: int
  MinReplicas :: int
  MaxReplicas :: int
  HashFunc :: "string \<Rightarrow> u32"
  LoadBalanceThreshold :: rat

text \<open>\<open>hash/crc32\<close>: CRC-32 with the IEEE polynomial.\<close>

definition crc_bit :: "u32 \<Rightarrow> u32" where
  "crc_bit c = (if bit c 0 then drop_bit 1 c XOR 0xEDB88320 else drop_bit 1 c)"

definition ChecksumIEEE :: "string \<Rightarrow> u32" where
  "ChecksumIEEE data = NOT (foldl (\<lambda>c ch. (crc_bit ^^ 8) (c XOR of_char ch)) (NOT 0) data)"

definition DefaultConfig :: Config where
  "DefaultConfig = \<lparr>DefaultReplicas = 50, MinReplicas = 10, MaxReplicas = 200,
     HashFunc = ChecksumIEEE, LoadBalanceThreshold = 1 / 4\<rparr>"

section \<open>State\<close>

record Map =
  config :: Config
  keys :: "int list"
  hashMap :: "(int, string) gomap"
  nodeReplicas :: "(string, int) gomap"
  nodeCounts :: "(string, int) gomap"
  totalRequests :: int
  unhealthyNodes :: "(string, bool) gomap"

text \<open>\<open>WithConfig\<close> is the only option.\<close>

type_synonym Option = "Map \<Rightarrow> Map"

definition WithConfig :: "Config \<Rightarrow> Option" where
  "WithConfig c = (\<lambda>m. m\<lparr>config := c\<rparr>)"

definition New :: "Option list \<Rightarrow> Map" where
  "New opts = fold (\<lambda>opt m. opt m) opts
     \<lparr>config = DefaultConfig, keys = [], hashMap = [], nodeReplicas = [], nodeCounts = [],
      totalRequests = 0, unhealthyNodes = []\<rparr>"

datatype ring_error = NoNodes | InvalidNode | NodeNotFound string

definition zero_str :: "string option \<Rightarrow> string" where
  "zero_str v = (case v of Some s \<Rightarrow> s | None \<Rightarrow> [])"

definition unhealthy :: "Map \<Rightarrow> string \<Rightarrow> bool" where
  "unhealthy m node = (case map_of (unhealthyNodes m) node of Some v \<Rightarrow> v | None \<Rightarrow> False)"

text \<open>The node of the ring position \<open>i\<close>.\<close>

definition node_at :: "Map \<Rightarrow> nat \<Rightarrow> string" where
  "node_at m i = zero_str (map_of (hashMap m) (keys m ! i))"

section \<open>Membership\<close>

text \<open>\<open>%d\<close> of a number that is not negative.\<close>

fun decimal :: "nat \<Rightarrow> string" where
  "decimal n = (if n < 10 then [char_of (48 + n)] else decimal (n div 10) @ [char_of (48 + n mod 10)])"

declare decimal.simps [simp del]

definition virtual :: "string \<Rightarrow> nat \<Rightarrow> string" where
  "virtual node i = node @ ''-'' @ decimal i"

definition vhash :: "Config \<Rightarrow> string \<Rightarrow> nat \<Rightarrow> int" where
  "vhash cfg node i = uint (HashFunc cfg (virtual node i))"

definition addNode :: "Map \<Rightarrow> string \<Rightarrow> int \<Rightarrow> Map" where
  "addNode m node replicas =
     (let m = fold (\<lambda>i m. (let hash = vhash (config m) node i
                          in m\<lparr>keys := keys m @ [hash], hashMap := AList.update hash node (hashMap m)\<rparr>))
                [0..<nat replicas] m;
          m = m\<lparr>nodeReplicas := AList.update node replicas (nodeReplicas m)\<rparr>
      in if map_of (nodeCounts m) node = None then m\<lparr>nodeCounts := AList.update node 0 (nodeCounts m)\<rparr> else m)"

definition ring_Add :: "Map \<Rightarrow> string list \<Rightarrow> ring_error + Map" where
  "ring_Add m nodes =
     (if length nodes = 0 then Inl NoNodes
      else
        (let m = fold (\<lambda>node m. if node = [] then m else addNode m node (DefaultReplicas (config m))) nodes m
         in Inr (m\<lparr>keys := sort (keys m)\<rparr>)))"

text \<open>The inner loop of \<open>Remove\<close> takes the first occurrence of the hash out of \<open>keys\<close>.\<close>

fun remove_hash :: "int \<Rightarrow> int list \<Rightarrow> int list" where
  "remove_hash hash [] = []"
| "remove_hash hash (k # ks) = (if k = hash then ks else k # remove_hash hash ks)"

definition ring_Remove :: "bool \<Rightarrow> Map \<Rightarrow> string \<Rightarrow> (ring_error + Map) locking" where
  "ring_Remove held m node =
     (if node = [] then Returns (Inl InvalidNode)
      else if held then Deadlock
      else
        (let replicas = (case map_of (nodeReplicas m) node of Some r \<Rightarrow> r | None \<Rightarrow> 0)
         in if replicas = 0 then Returns (Inl (NodeNotFound node))
            else
              (let m = fold (\<lambda>i m. (let hash = vhash (config m) node i
                              in m\<lparr>hashMap := AList.delete hash (hashMap m), keys := remove_hash hash (keys m)\<rparr>))
                         [0..<nat replicas] m
               in Returns (Inr (m\<lparr>nodeReplicas := AList.delete node (nodeReplicas m),
                    nodeCounts := AList.delete node (nodeCounts m),
                    unhealthyNodes := AList.delete node (unhealthyNodes m)\<rparr>)))))"

section \<open>Lookup\<close>

definition find_idx :: "Map \<Rightarrow> string \<Rightarrow> nat" where
  "find_idx m key =
     (let hash = uint (HashFunc (config m) key);
          idx = sort_search (length (keys m)) (\<lambda>i. keys m ! i \<ge> hash)
      in if idx = length (keys m) then 0 else idx)"

definition count_request :: "Map \<Rightarrow> string \<Rightarrow> Map" where
  "count_request m node =
     (let m = (case map_of (nodeCounts m) node of
                 Some c \<Rightarrow> m\<lparr>nodeCounts := AList.update node (wrap64 (c + 1)) (nodeCounts m)\<rparr>
               | None \<Rightarrow> m)
      in m\<lparr>totalRequests := wrap64 (totalRequests m + 1)\<rparr>)"

definition ring_Get :: "Map \<Rightarrow> string \<Rightarrow> Map \<times> string" where
  "ring_Get m key =
     (if key = [] then (m, [])
      else if length (keys m) = 0 then (m, [])
      else
        (let node = node_at m (find_idx m key)
         in (count_request m node, node)))"

text \<open>The loop of \<open>GetHealthy\<close> over the remaining offsets \<open>i\<close>.\<close>

fun healthy_loop :: "Map \<Rightarrow> nat \<Rightarrow> nat list \<Rightarrow> (string, bool) gomap \<Rightarrow> Map \<times> string" where
  "healthy_loop m idx [] seen = (m, [])"
| "healthy_loop m idx (i # is) seen =
     (let node = node_at m ((idx + i) mod length (keys m))
      in if \<not> unhealthy m node then (count_request m node, node)
         else
           (let seen = AList.update node True seen
            in if length seen \<ge> length (nodeReplicas m) then (m, node)
               else healthy_loop m idx is seen))"

definition GetHealthy :: "Map \<Rightarrow> string \<Rightarrow> Map \<times> string" where
  "GetHealthy m key =
     (if key = [] then (m, [])
      else if length (keys m) = 0 then (m, [])
      else healthy_loop m (find_idx m key) [0..<length (keys m)] [])"

text \<open>The loops of \<open>GetN\<close> and \<open>GetNHealthy\<close>, which differ in the nodes they skip.\<close>

fun collect_loop :: "(string \<Rightarrow> bool) \<Rightarrow> Map \<Rightarrow> nat \<Rightarrow> int \<Rightarrow> nat list \<Rightarrow> (string, bool) gomap \<Rightarrow> string list \<Rightarrow> string list" where
  "collect_loop skip m idx n [] seen result = result"
| "collect_loop skip m idx n (i # is) seen result =
     (if int (length result) < n then
        (let node = node_at m ((idx + i) mod length (keys m))
         in if map_of seen node = None \<and> \<not> skip node
            then collect_loop skip m idx n is (AList.update node True seen) (result @ [node])
            else collect_loop skip m idx n is seen result)
      else result)"

definition GetN :: "Map \<Rightarrow> string \<Rightarrow> int \<Rightarrow> string list" where
  "GetN m key n =
     (if key = [] \<or> n \<le> 0 \<or> length (keys m) = 0 then []
      else collect_loop (\<lambda>_. False) m (find_idx m key) n [0..<length (keys m)] [] [])"

definition GetNHealthy :: "Map \<Rightarrow> string \<Rightarrow> int \<Rightarrow> string list" where
  "GetNHealthy m key n =
     (if key = [] \<or> n \<le> 0 \<or> length (keys m) = 0 then []
      else collect_loop (unhealthy m) m (find_idx m key) n [0..<length (keys m)] [] [])"

definition GetReplica :: "Map \<Rightarrow> string \<Rightarrow> string" where
  "GetReplica m key = (let nodes = GetN m key 2 in if length nodes \<ge> 2 then nodes ! 1 else [])"

definition GetReplicaHealthy :: "Map \<Rightarrow> string \<Rightarrow> string" where
  "GetReplicaHealthy m key =
     (let nodes = GetNHealthy m key 2
      in if length nodes \<ge> 2 then nodes ! 1
         else if length nodes = 1 then nodes ! 0 else [])"

text \<open>\<open>ord\<close> is the order in which Go visits a map.\<close>

definition GetAllNodes :: "(string list \<Rightarrow> string list) \<Rightarrow> Map \<Rightarrow> string list" where
  "GetAllNodes ord m = ord (map fst (nodeReplicas m))"

definition GetNodeForKey :: "Map \<Rightarrow> string \<Rightarrow> Map \<times> string" where
  "GetNodeForKey m key = ring_Get m key"

definition getNodeUnlocked :: "Map \<Rightarrow> string \<Rightarrow> string" where
  "getNodeUnlocked m key = (if length (keys m) = 0 then [] else node_at m (find_idx m key))"

definition KeysBelongToNode :: "Map \<Rightarrow> string list \<Rightarrow> string \<Rightarrow> string list" where
  "KeysBelongToNode m ks targetNode =
     (if length (keys m) = 0 then []
      else fold (\<lambda>key result. let node = getNodeUnlocked m key
                 in if node = targetNode then result @ [node] else result) ks [])"

definition MarkUnhealthy :: "Map \<Rightarrow> string \<Rightarrow> Map" where
  "MarkUnhealthy m node = m\<lparr>unhealthyNodes := AList.update node True (unhealthyNodes m)\<rparr>"

definition MarkHealthy :: "Map \<Rightarrow> string \<Rightarrow> Map" where
  "MarkHealthy m node = m\<lparr>unhealthyNodes := AList.delete node (unhealthyNodes m)\<rparr>"

definition IsHealthy :: "Map \<Rightarrow> string \<Rightarrow> bool" where
  "IsHealthy m node = (\<not> unhealthy m node)"

fun target_idx :: "Map \<Rightarrow> string \<Rightarrow> nat list \<Rightarrow> int" where
  "target_idx m node [] = -1"
| "target_idx m node (i # is) = (if node_at m i = node then int i else target_idx m node is)"

text \<open>The loops of \<open>GetPredecessor\<close> and \<open>GetSuccessor\<close>, over the positions they visit.\<close>

fun neighbour_loop :: "Map \<Rightarrow> nat list \<Rightarrow> (string, bool) gomap \<Rightarrow> string" where
  "neighbour_loop m [] seen = []"
| "neighbour_loop m (i # is) seen =
     (let candidate = node_at m i
      in if map_of seen candidate = None then candidate
         else neighbour_loop m is (AList.update candidate True seen))"

definition GetPredecessor :: "Map \<Rightarrow> string \<Rightarrow> string" where
  "GetPredecessor m node =
     (if length (keys m) = 0 then []
      else
        (let t = target_idx m node [0..<length (keys m)]
         in if t = -1 then []
            else neighbour_loop m
              (map (\<lambda>i. nat ((t - int i + int (length (keys m))) mod int (length (keys m)))) [1..<length (keys m)])
              [(node, True)]))"

definition GetSuccessor :: "Map \<Rightarrow> string \<Rightarrow> string" where
  "GetSuccessor m node =
     (if length (keys m) = 0 then []
      else
        (let t = target_idx m node [0..<length (keys m)]
         in if t = -1 then []
            else neighbour_loop m
              (map (\<lambda>i. nat ((t + int i) mod int (length (keys m)))) [1..<length (keys m)])
              [(node, True)]))"

definition HasNode :: "Map \<Rightarrow> string \<Rightarrow> bool" where
  "HasNode m node = (map_of (nodeReplicas m) node \<noteq> None)"

section \<open>Load balancing\<close>

text \<open>\<open>int(x)\<close> of a float64 truncates.\<close>

definition trunc :: "rat \<Rightarrow> int" where
  "trunc x = (if 0 \<le> x then \<lfloor>x\<rfloor> else \<lceil>x\<rceil>)"

definition avg_load :: "(rat \<Rightarrow> rat) \<Rightarrow> int \<Rightarrow> Map \<Rightarrow> rat" where
  "avg_load fl requests m = fl (fl (of_int requests) / fl (of_nat (length (nodeReplicas m))))"

definition new_replicas :: "(rat \<Rightarrow> rat) \<Rightarrow> Config \<Rightarrow> rat \<Rightarrow> int \<Rightarrow> int \<Rightarrow> int" where
  "new_replicas fl cfg avgLoad n currentReplicas =
     (let loadRatio = fl (fl (of_int n) / avgLoad);
          r = (if loadRatio > 1 then trunc (fl (fl (of_int currentReplicas) / loadRatio))
               else trunc (fl (fl (of_int currentReplicas) * fl (2 - loadRatio))));
          r = (if r > MaxReplicas cfg then MaxReplicas cfg else r)
      in if r < MinReplicas cfg then MinReplicas cfg else r)"

text \<open>
  The loop of \<open>rebalanceNodes\<close> runs with the lock held; a node that a previous turn deleted is
  not visited any more.
\<close>

fun rebalance_loop :: "(rat \<Rightarrow> rat) \<Rightarrow> rat \<Rightarrow> string list \<Rightarrow> Map \<Rightarrow> Map locking" where
  "rebalance_loop fl avgLoad [] m = Returns m"
| "rebalance_loop fl avgLoad (node # ns) m = (case map_of (nodeCounts m) node of
     None \<Rightarrow> rebalance_loop fl avgLoad ns m
   | Some n \<Rightarrow>
       (let currentReplicas = (case map_of (nodeReplicas m) node of Some r \<Rightarrow> r | None \<Rightarrow> 0);
            newReplicas = new_replicas fl (config m) avgLoad n currentReplicas
        in if newReplicas \<noteq> currentReplicas then
             (case ring_Remove True m node of
                Deadlock \<Rightarrow> Deadlock
              | Returns (Inl e) \<Rightarrow> rebalance_loop fl avgLoad ns m
              | Returns (Inr m) \<Rightarrow> rebalance_loop fl avgLoad ns (addNode m node newReplicas))
           else rebalance_loop fl avgLoad ns m))"

definition rebalanceNodes :: "(rat \<Rightarrow> rat) \<Rightarrow> (string list \<Rightarrow> string list) \<Rightarrow> Map \<Rightarrow> Map locking" where
  "rebalanceNodes fl ord m =
     (case rebalance_loop fl (avg_load fl (totalRequests m) m) (ord (map fst (nodeCounts m))) m of
        Deadlock \<Rightarrow> Deadlock
      | Returns m \<Rightarrow>
          Returns (m\<lparr>nodeCounts := map (\<lambda>(node, c). (node, 0)) (nodeCounts m), totalRequests := 0,
            keys := sort (keys m)\<rparr>))"

definition checkAndRebalance :: "(rat \<Rightarrow> rat) \<Rightarrow> (string list \<Rightarrow> string list) \<Rightarrow> Map \<Rightarrow> Map locking" where
  "checkAndRebalance fl ord m =
     (if totalRequests m < 1000 then Returns m
      else
        (let avgLoad = avg_load fl (totalRequests m) m;
             maxDiff = fold (\<lambda>node maxDiff.
               (let n = (case map_of (nodeCounts m) node of Some c \<Rightarrow> c | None \<Rightarrow> 0);
                    diff = \<bar>fl (fl (of_int n) - avgLoad)\<bar>
                in if fl (diff / avgLoad) > maxDiff then fl (diff / avgLoad) else maxDiff))
               (ord (map fst (nodeCounts m))) 0
         in if maxDiff > LoadBalanceThreshold (config m) then rebalanceNodes fl ord m else Returns m))"

text \<open>\<open>GetStats\<close>: each counter as a share of the total.\<close>

definition GetStats :: "Map \<Rightarrow> (string, stat) gomap" where
  "GetStats m =
     (if totalRequests m = 0 then []
      else map (\<lambda>(node, c). (node, StatDiv c [totalRequests m])) (nodeCounts m))"

end
