(* ===== verification/Ring.thy ===== *)
theory Ring
  imports ConsHash
begin

text \<open>
  The ring as a circle: the hashes from the key's hash clockwise around (\<open>ring_order\<close>), which
  every lookup walks; the well-formedness of a ring (\<open>ring_ok\<close>) and what adding and removing a
  node do to it, when no two virtual nodes have the same hash.
\<close>

section \<open>Walking clockwise\<close>

definition khash :: "Map \<Rightarrow> string \<Rightarrow> int" where
  "khash m key = uint (HashFunc (config m) key)"

definition ring_order :: "int list \<Rightarrow> int \<Rightarrow> int list" where
  "ring_order ks h = filter (\<lambda>x. h \<le> x) ks @ filter (\<lambda>x. x < h) ks"

lemma set_ring_order [simp]: "set (ring_order ks h) = set ks"
  by (auto simp: ring_order_def)

lemma length_ring_order [simp]: "length (ring_order ks h) = length ks"
  using sum_length_filter_compl [of "\<lambda>x. h \<le> x" ks] by (simp add: ring_order_def not_le)

lemma ring_order_filter: "ring_order (filter Q ks) h = filter Q (ring_order ks h)"
  by (simp add: ring_order_def filter_filter conj_commute)

lemma take_drop_filter:
  "(\<And>k. k < i \<Longrightarrow> k < length xs \<Longrightarrow> \<not> P (xs ! k)) \<Longrightarrow> (\<And>k. i \<le> k \<Longrightarrow> k < length xs \<Longrightarrow> P (xs ! k)) \<Longrightarrow>
   filter P xs = drop i xs \<and> filter (\<lambda>x. \<not> P x) xs = take i xs"
proof (induction xs arbitrary: i)
  case (Cons x xs)
  show ?case
  proof (cases i)
    case 0
    then have all: "\<forall>y \<in> set (x # xs). P y"
      using Cons.prems(2) by (metis in_set_conv_nth zero_le)
    then have "filter P (x # xs) = x # xs" "filter (\<lambda>x. \<not> P x) (x # xs) = []"
      by (auto intro: filter_True filter_False)
    then show ?thesis using 0 by simp
  next
    case (Suc j)
    have "\<not> P x" using Cons.prems(1) [of 0] Suc by simp
    moreover have "filter P xs = drop j xs \<and> filter (\<lambda>x. \<not> P x) xs = take j xs"
      using Cons.prems(1) [of "Suc _"] Cons.prems(2) [of "Suc _"] Suc by (intro Cons.IH) auto
    ultimately show ?thesis using Suc by simp
  qed
qed simp

lemma find_idx_rotate:
  assumes "sorted (keys m)" and "keys m \<noteq> []"
  shows "find_idx m key < length (keys m)"
    and "rotate (find_idx m key) (keys m) = ring_order (keys m) (khash m key)"
proof -
  let ?ks = "keys m" and ?h = "khash m key"
  let ?s = "sort_search (length ?ks) (\<lambda>i. ?ks ! i \<ge> ?h)"
  have mono: "\<forall>a b. a \<le> b \<longrightarrow> b < length ?ks \<longrightarrow> ?ks ! a \<ge> ?h \<longrightarrow> ?ks ! b \<ge> ?h"
    using sorted_nth_mono [OF assms(1)] by (meson order_trans)
  note s = sort_search_least [OF mono]
  have f: "filter (\<lambda>x. ?h \<le> x) ?ks = drop ?s ?ks" "filter (\<lambda>x. \<not> ?h \<le> x) ?ks = take ?s ?ks"
    using take_drop_filter [of ?s ?ks "\<lambda>x. ?h \<le> x"] s(2,3) by blast+
  have order: "ring_order ?ks ?h = drop ?s ?ks @ take ?s ?ks"
    using f by (simp add: ring_order_def not_le)
  have idx: "find_idx m key = (if ?s = length ?ks then 0 else ?s)"
    by (simp add: find_idx_def khash_def Let_def)
  then show "find_idx m key < length ?ks" using s(1) assms(2) by simp
  show "rotate (find_idx m key) ?ks = ring_order ?ks ?h"
    using s(1) by (simp add: idx order rotate_drop_take)
qed

text \<open>The nodes met on the way around.\<close>

definition node_of :: "Map \<Rightarrow> int \<Rightarrow> string" where
  "node_of m h = zero_str (map_of (hashMap m) h)"

definition circle :: "Map \<Rightarrow> string \<Rightarrow> string list" where
  "circle m key = map (node_of m) (ring_order (keys m) (khash m key))"

lemma walk_circle:
  assumes "sorted (keys m)" and "keys m \<noteq> []"
  shows "map (\<lambda>i. node_at m ((find_idx m key + i) mod length (keys m))) [0..<length (keys m)] = circle m key"
proof -
  have "map (\<lambda>i. keys m ! ((find_idx m key + i) mod length (keys m))) [0..<length (keys m)] =
      rotate (find_idx m key) (keys m)"
    by (intro nth_equalityI) (simp_all add: nth_rotate)
  then have "map (node_of m) (map (\<lambda>i. keys m ! ((find_idx m key + i) mod length (keys m))) [0..<length (keys m)]) =
      circle m key"
    by (simp add: find_idx_rotate(2) [OF assms] circle_def)
  then show ?thesis by (simp add: node_at_def node_of_def comp_def)
qed

lemma circle_nonempty: "keys m \<noteq> [] \<Longrightarrow> circle m key \<noteq> []"
  using length_ring_order [of "keys m" "khash m key"] by (auto simp: circle_def simp del: length_ring_order)

lemma ring_Get_circle:
  assumes "sorted (keys m)" and "keys m \<noteq> []" and "key \<noteq> []"
  shows "snd (ring_Get m key) = hd (circle m key)"
proof -
  have "hd (map (\<lambda>i. node_at m ((find_idx m key + i) mod length (keys m))) [0..<length (keys m)]) =
      node_at m (find_idx m key)"
    using assms(2) find_idx_rotate(1) [OF assms(1,2), of key] by (simp add: hd_map hd_conv_nth)
  then show ?thesis using assms by (simp add: ring_Get_def Let_def walk_circle)
qed

section \<open>Well-formed rings\<close>

definition vset :: "Config \<Rightarrow> string \<Rightarrow> int \<Rightarrow> int set" where
  "vset cfg node r = vhash cfg node ` {..<nat r}"

definition ring_ok :: "Map \<Rightarrow> bool" where
  "ring_ok m \<longleftrightarrow> sorted (keys m) \<and> distinct (keys m) \<and> map_ok (hashMap m) \<and> map_ok (nodeReplicas m) \<and>
     map_ok (nodeCounts m) \<and> dom (map_of (hashMap m)) = set (keys m) \<and>
     dom (map_of (nodeCounts m)) = dom (map_of (nodeReplicas m)) \<and>
     (\<forall>h node. map_of (hashMap m) h = Some node \<longleftrightarrow>
        (\<exists>r. map_of (nodeReplicas m) node = Some r \<and> h \<in> vset (config m) node r)) \<and>
     (\<forall>node r. map_of (nodeReplicas m) node = Some r \<longrightarrow> node \<noteq> [] \<and> 0 < r)"

definition nodes_of :: "Map \<Rightarrow> string set" where
  "nodes_of m = dom (map_of (nodeReplicas m))"

lemma ring_ok_sorted: "ring_ok m \<Longrightarrow> sorted (keys m)"
  by (simp add: ring_ok_def)

lemma ring_ok_dom: "ring_ok m \<Longrightarrow> h \<in> set (keys m) \<longleftrightarrow> (\<exists>node. map_of (hashMap m) h = Some node)"
proof -
  assume "ring_ok m"
  then have "set (keys m) = dom (map_of (hashMap m))" by (simp add: ring_ok_def)
  then show ?thesis by (simp only: domIff not_None_eq)
qed

lemma ring_ok_map: "ring_ok m \<Longrightarrow> map_of (hashMap m) h = Some node \<longleftrightarrow>
    (\<exists>r. map_of (nodeReplicas m) node = Some r \<and> h \<in> vset (config m) node r)"
  by (simp add: ring_ok_def)

lemma ring_ok_point:
  assumes "ring_ok m" and "h \<in> set (keys m)"
  obtains r where "map_of (hashMap m) h = Some (node_of m h)" "map_of (nodeReplicas m) (node_of m h) = Some r"
    "h \<in> vset (config m) (node_of m h) r"
proof -
  obtain node where n: "map_of (hashMap m) h = Some node"
    using assms ring_ok_dom by blast
  then have "node = node_of m h" by (simp add: node_of_def zero_str_def)
  moreover obtain r where "map_of (nodeReplicas m) node = Some r" "h \<in> vset (config m) node r"
    using n ring_ok_map [OF assms(1)] by blast
  ultimately show ?thesis using that n by blast
qed

lemma node_of_owner:
  assumes "ring_ok m"
  shows "h \<in> set (keys m) \<and> node_of m h = node \<longleftrightarrow>
    (\<exists>r. map_of (nodeReplicas m) node = Some r \<and> h \<in> vset (config m) node r)"
proof
  assume a: "h \<in> set (keys m) \<and> node_of m h = node"
  then have "h \<in> set (keys m)" by simp
  then obtain r where "map_of (nodeReplicas m) (node_of m h) = Some r" "h \<in> vset (config m) (node_of m h) r"
    by (rule ring_ok_point [OF assms])
  with a show "\<exists>r. map_of (nodeReplicas m) node = Some r \<and> h \<in> vset (config m) node r" by blast
next
  assume "\<exists>r. map_of (nodeReplicas m) node = Some r \<and> h \<in> vset (config m) node r"
  then have s: "map_of (hashMap m) h = Some node" using ring_ok_map [OF assms] by blast
  then have "h \<in> set (keys m)" using ring_ok_dom [OF assms] by blast
  then show "h \<in> set (keys m) \<and> node_of m h = node"
    using s by (simp add: node_of_def zero_str_def)
qed

lemma set_circle: "ring_ok m \<Longrightarrow> set (circle m key) = nodes_of m"
proof -
  assume ok: "ring_ok m"
  have "set (circle m key) = node_of m ` set (keys m)" by (simp add: circle_def)
  also have "\<dots> = nodes_of m"
  proof (intro set_eqI iffI)
    fix node assume "node \<in> node_of m ` set (keys m)"
    then obtain h where "h \<in> set (keys m)" "node_of m h = node" by blast
    then show "node \<in> nodes_of m" using node_of_owner [OF ok, of h node] by (auto simp: nodes_of_def)
  next
    fix node assume "node \<in> nodes_of m"
    then obtain r where r: "map_of (nodeReplicas m) node = Some r" by (auto simp: nodes_of_def)
    then have "0 < r" using ok by (simp add: ring_ok_def)
    then have "vhash (config m) node 0 \<in> vset (config m) node r" by (auto simp: vset_def)
    then have "vhash (config m) node 0 \<in> set (keys m) \<and> node_of m (vhash (config m) node 0) = node"
      using node_of_owner [OF ok, of "vhash (config m) node 0" node] r by blast
    then show "node \<in> node_of m ` set (keys m)" by (intro image_eqI [of _ _ "vhash (config m) node 0"]) simp_all
  qed
  finally show ?thesis .
qed

lemma nodes_empty: "ring_ok m \<Longrightarrow> keys m = [] \<longleftrightarrow> nodes_of m = {}"
  using set_circle [of m "[]"] circle_nonempty [of m "[]"] by (cases "keys m = []") (auto simp: circle_def ring_order_def)

lemma finite_nodes: "finite (nodes_of m)"
  by (simp add: nodes_of_def finite_dom_map_of)

lemma owner_member: "ring_ok m \<Longrightarrow> keys m \<noteq> [] \<Longrightarrow> key \<noteq> [] \<Longrightarrow> snd (ring_Get m key) \<in> nodes_of m"
  using set_circle [of m key] circle_nonempty [of m key]
  by (simp add: ring_Get_circle ring_ok_sorted) (metis hd_in_set)

section \<open>Adding and removing a node\<close>

definition no_collision :: "Map \<Rightarrow> string \<Rightarrow> bool" where
  "no_collision m node \<longleftrightarrow> inj_on (vhash (config m) node) {..<nat (DefaultReplicas (config m))} \<and>
     vset (config m) node (DefaultReplicas (config m)) \<inter> set (keys m) = {}"

lemma add_points:
  "let m' = fold (\<lambda>i m. (let hash = vhash (config m) node i
       in m\<lparr>keys := keys m @ [hash], hashMap := AList.update hash node (hashMap m)\<rparr>)) js m
   in config m' = config m \<and> keys m' = keys m @ map (vhash (config m) node) js \<and>
     (map_ok (hashMap m) \<longrightarrow> map_ok (hashMap m')) \<and>
     map_of (hashMap m') = (\<lambda>h. if h \<in> vhash (config m) node ` set js then Some node else map_of (hashMap m) h) \<and>
     nodeReplicas m' = nodeReplicas m \<and> nodeCounts m' = nodeCounts m \<and> unhealthyNodes m' = unhealthyNodes m \<and>
     totalRequests m' = totalRequests m"
proof (induction js arbitrary: m)
  case (Cons i js)
  let ?m = "m\<lparr>keys := keys m @ [vhash (config m) node i],
      hashMap := AList.update (vhash (config m) node i) node (hashMap m)\<rparr>"
  show ?case using Cons [of ?m] by (auto simp: Let_def fun_eq_iff map_ok_update)
qed simp

lemma addNode_result:
  shows "config (addNode m node r) = config m"
    and "keys (addNode m node r) = keys m @ map (vhash (config m) node) [0..<nat r]"
    and "map_ok (hashMap m) \<Longrightarrow> map_ok (hashMap (addNode m node r))"
    and "map_of (hashMap (addNode m node r)) =
      (\<lambda>h. if h \<in> vset (config m) node r then Some node else map_of (hashMap m) h)"
    and "nodeReplicas (addNode m node r) = AList.update node r (nodeReplicas m)"
    and "dom (map_of (nodeCounts (addNode m node r))) = insert node (dom (map_of (nodeCounts m)))"
    and "map_ok (nodeCounts m) \<Longrightarrow> map_ok (nodeCounts (addNode m node r))"
    and "unhealthyNodes (addNode m node r) = unhealthyNodes m"
  using add_points [where node = node and js = "[0..<nat r]" and m = m]
  by (auto simp: addNode_def Let_def map_ok_update vset_def atLeast0LessThan)

text \<open>The ring \<open>m'\<close> is \<open>m\<close> with the new member \<open>node\<close> and its \<open>r\<close> virtual nodes.\<close>

definition with_node :: "Map \<Rightarrow> string \<Rightarrow> int \<Rightarrow> Map \<Rightarrow> bool" where
  "with_node m node r m' \<longleftrightarrow> config m' = config m \<and> unhealthyNodes m' = unhealthyNodes m \<and>
     sorted (keys m') \<and> distinct (keys m') \<and> set (keys m') = set (keys m) \<union> vset (config m) node r \<and>
     map_of (hashMap m') = (\<lambda>h. if h \<in> vset (config m) node r then Some node else map_of (hashMap m) h) \<and>
     map_of (nodeReplicas m') = (map_of (nodeReplicas m))(node \<mapsto> r) \<and>
     dom (map_of (nodeCounts m')) = insert node (dom (map_of (nodeCounts m))) \<and>
     map_ok (hashMap m') \<and> map_ok (nodeReplicas m') \<and> map_ok (nodeCounts m')"

lemma ring_Add_result:
  assumes ok: "ring_ok m" and node: "node \<noteq> []" and nc: "no_collision m node"
  obtains m' where "ring_Add m [node] = Inr m'" "with_node m node (DefaultReplicas (config m)) m'"
proof -
  let ?a = "addNode m node (DefaultReplicas (config m))"
  note a = addNode_result [of m node "DefaultReplicas (config m)"]
  have "with_node m node (DefaultReplicas (config m)) (?a\<lparr>keys := sort (keys ?a)\<rparr>)"
    using ok nc
    by (auto simp: with_node_def a ring_ok_def no_collision_def distinct_map vset_def atLeast0LessThan AList.update_conv')
  then show thesis using node by (intro that) (simp add: ring_Add_def Let_def)
qed

lemma with_node_ok:
  assumes ok: "ring_ok m" and w: "with_node m node r m'" and node: "node \<noteq> []" "node \<notin> nodes_of m" "0 < r"
    and apart: "vset (config m) node r \<inter> set (keys m) = {}"
  shows "ring_ok m'"
proof -
  have cfg: "config m' = config m" and rep: "map_of (nodeReplicas m') = (map_of (nodeReplicas m))(node \<mapsto> r)"
    and hm: "map_of (hashMap m') = (\<lambda>h. if h \<in> vset (config m) node r then Some node else map_of (hashMap m) h)"
    using w by (simp_all add: with_node_def)
  have dm: "dom (map_of (hashMap m)) = set (keys m)" using ok by (simp add: ring_ok_def)
  have old: "map_of (nodeReplicas m) node = None" using node(2) by (auto simp: nodes_of_def)
  have "map_of (hashMap m') h = Some n \<longleftrightarrow>
      (\<exists>r. map_of (nodeReplicas m') n = Some r \<and> h \<in> vset (config m) n r)" for h n
  proof (cases "n = node")
    case True
    have "map_of (hashMap m) h \<noteq> Some node" using ring_ok_map [OF ok, of h node] old by simp
    then show ?thesis using True hm rep by auto
  next
    case False
    have "h \<notin> vset (config m) node r" if "map_of (hashMap m) h = Some n" using that dm apart by blast
    then show ?thesis using False ring_ok_map [OF ok, of h n] by (auto simp: hm rep)
  qed
  moreover have "dom (map_of (hashMap m')) = dom (map_of (hashMap m)) \<union> vset (config m) node r"
    by (intro set_eqI) (simp only: domIff hm Un_iff, simp)
  then have "dom (map_of (hashMap m')) = set (keys m')" using dm w by (simp add: with_node_def)
  moreover have "dom (map_of (nodeCounts m')) = dom (map_of (nodeReplicas m'))"
    using ok w by (simp add: ring_ok_def with_node_def)
  moreover have "\<forall>n r. map_of (nodeReplicas m') n = Some r \<longrightarrow> n \<noteq> [] \<and> 0 < r"
    using ok node(1,3) unfolding rep ring_ok_def by auto
  ultimately show ?thesis using w unfolding ring_ok_def cfg with_node_def by simp
qed

lemma with_node_keys:
  assumes ok: "ring_ok m" and w: "with_node m node r m'" and new: "node \<notin> nodes_of m"
    and apart: "vset (config m) node r \<inter> set (keys m) = {}"
  shows "keys m = filter (\<lambda>h. node_of m' h \<noteq> node) (keys m')" and "\<forall>h \<in> set (keys m). node_of m' h = node_of m h"
proof -
  have own: "node_of m' h = (if h \<in> vset (config m) node r then node else node_of m h)" for h
    using w by (simp add: with_node_def node_of_def zero_str_def)
  have ne: "node_of m h \<noteq> node" if "h \<in> set (keys m)" for h
    using node_of_owner [OF ok, of h node] that new by (auto simp: nodes_of_def)
  have "set (filter (\<lambda>h. node_of m' h \<noteq> node) (keys m')) = set (keys m)"
    using w apart ne by (auto simp: own with_node_def)
  moreover have "sorted (filter (\<lambda>h. node_of m' h \<noteq> node) (keys m'))" "distinct (filter (\<lambda>h. node_of m' h \<noteq> node) (keys m'))"
    using w by (simp_all add: with_node_def sorted_wrt_filter)
  moreover have "sorted (keys m)" "distinct (keys m)" using ok by (simp_all add: ring_ok_def)
  ultimately show "keys m = filter (\<lambda>h. node_of m' h \<noteq> node) (keys m')"
    using sorted_distinct_set_unique by metis
  show "\<forall>h \<in> set (keys m). node_of m' h = node_of m h" using apart by (auto simp: own)
qed

lemma ring_Add_one:
  assumes ok: "ring_ok m" and node: "node \<noteq> []" "node \<notin> nodes_of m" and nc: "no_collision m node"
    and pos: "0 < DefaultReplicas (config m)"
  obtains m' where "ring_Add m [node] = Inr m'" "ring_ok m'" "config m' = config m"
    "nodes_of m' = insert node (nodes_of m)" "unhealthyNodes m' = unhealthyNodes m"
    "keys m = filter (\<lambda>h. node_of m' h \<noteq> node) (keys m')"
    "\<forall>h \<in> set (keys m). node_of m' h = node_of m h"
proof -
  obtain m' where m': "ring_Add m [node] = Inr m'" and w: "with_node m node (DefaultReplicas (config m)) m'"
    by (rule ring_Add_result [OF ok node(1) nc])
  have apart: "vset (config m) node (DefaultReplicas (config m)) \<inter> set (keys m) = {}" using nc by (simp add: no_collision_def)
  show ?thesis
    by (rule that [OF m' with_node_ok [OF ok w node pos apart] _ _ _ with_node_keys [OF ok w node(2) apart]])
      (use w in \<open>auto simp: with_node_def nodes_of_def\<close>)
qed

lemma remove_hash_remove1: "remove_hash h ks = remove1 h ks"
  by (induction ks) auto

lemma remove_points:
  "let m' = fold (\<lambda>i m. (let hash = vhash (config m) node i
       in m\<lparr>hashMap := AList.delete hash (hashMap m), keys := remove_hash hash (keys m)\<rparr>)) js m
   in config m' = config m \<and>
     (distinct (keys m) \<longrightarrow> keys m' = filter (\<lambda>h. h \<notin> vhash (config m) node ` set js) (keys m)) \<and>
     (map_ok (hashMap m) \<longrightarrow> map_ok (hashMap m')) \<and>
     map_of (hashMap m') = (\<lambda>h. if h \<in> vhash (config m) node ` set js then None else map_of (hashMap m) h) \<and>
     nodeReplicas m' = nodeReplicas m \<and> nodeCounts m' = nodeCounts m \<and> unhealthyNodes m' = unhealthyNodes m"
proof (induction js arbitrary: m)
  case (Cons i js)
  let ?m = "m\<lparr>hashMap := AList.delete (vhash (config m) node i) (hashMap m),
      keys := remove_hash (vhash (config m) node i) (keys m)\<rparr>"
  have "distinct (keys m) \<Longrightarrow> remove_hash x (keys m) = filter (\<lambda>h. h \<noteq> x) (keys m)" for x
    by (simp add: remove_hash_remove1 distinct_remove1_removeAll removeAll_filter_not_eq eq_commute)
  then show ?case using Cons [of ?m] by (auto simp: Let_def fun_eq_iff map_ok_delete filter_filter intro!: filter_cong)
qed simp

text \<open>The ring \<open>m'\<close> is \<open>m\<close> after its member \<open>node\<close> with \<open>r\<close> virtual nodes was taken out.\<close>

definition taken_out :: "Map \<Rightarrow> string \<Rightarrow> int \<Rightarrow> Map \<Rightarrow> bool" where
  "taken_out m node r m' \<longleftrightarrow> config m' = config m \<and>
     keys m' = filter (\<lambda>h. h \<notin> vset (config m) node r) (keys m) \<and>
     map_of (hashMap m') = (\<lambda>h. if h \<in> vset (config m) node r then None else map_of (hashMap m) h) \<and>
     map_of (nodeReplicas m') = (map_of (nodeReplicas m))(node := None) \<and>
     dom (map_of (nodeCounts m')) = dom (map_of (nodeCounts m)) - {node} \<and>
     map_of (unhealthyNodes m') = (map_of (unhealthyNodes m))(node := None) \<and>
     map_ok (hashMap m') \<and> map_ok (nodeReplicas m') \<and> map_ok (nodeCounts m')"

lemma ring_Remove_result:
  assumes ok: "ring_ok m" and r: "map_of (nodeReplicas m) node = Some r"
  obtains m' where "ring_Remove False m node = Returns (Inr m')" "taken_out m node r m'"
proof -
  have r0: "0 < r" "node \<noteq> []" using ok r by (simp_all add: ring_ok_def)
  let ?f = "fold (\<lambda>i m. (let hash = vhash (config m) node i
       in m\<lparr>hashMap := AList.delete hash (hashMap m), keys := remove_hash hash (keys m)\<rparr>)) [0..<nat r] m"
  let ?m = "?f\<lparr>nodeReplicas := AList.delete node (nodeReplicas ?f),
     nodeCounts := AList.delete node (nodeCounts ?f), unhealthyNodes := AList.delete node (unhealthyNodes ?f)\<rparr>"
  have P: "vhash (config m) node ` set [0..<nat r] = vset (config m) node r" by (simp add: vset_def atLeast0LessThan)
  have "taken_out m node r ?m"
    using remove_points [where node = node and js = "[0..<nat r]" and m = m] ok
    unfolding Let_def P by (auto simp: taken_out_def ring_ok_def)
  moreover have "ring_Remove False m node = Returns (Inr ?m)"
    using r r0 by (simp add: ring_Remove_def Let_def)
  ultimately show thesis by (rule that [rotated])
qed

lemma taken_out_points:
  assumes ok: "ring_ok m" and r: "map_of (nodeReplicas m) node = Some r" and w: "taken_out m node r m'"
  shows "map_of (hashMap m') h = Some n \<longleftrightarrow> (\<exists>s. map_of (nodeReplicas m') n = Some s \<and> h \<in> vset (config m) n s)"
proof -
  have hm: "map_of (hashMap m') h = (if h \<in> vset (config m) node r then None else map_of (hashMap m) h)"
    and rep: "map_of (nodeReplicas m') n = (if n = node then None else map_of (nodeReplicas m) n)"
    using w by (simp_all add: taken_out_def)
  have mine: "map_of (hashMap m) h = Some node \<longleftrightarrow> h \<in> vset (config m) node r" using ring_ok_map [OF ok, of h node] r by simp
  show ?thesis
  proof (cases "h \<in> vset (config m) node r")
    case True
    then have "map_of (hashMap m) h \<noteq> Some n" if "n \<noteq> node" using mine that by simp
    then have "\<not> (map_of (nodeReplicas m') n = Some s \<and> h \<in> vset (config m) n s)" for s
      using ring_ok_map [OF ok, of h n] unfolding rep by auto
    then show ?thesis using True hm by simp
  next
    case False
    then have "map_of (hashMap m) h \<noteq> Some node" using mine by simp
    then show ?thesis using False ring_ok_map [OF ok, of h n] unfolding rep hm by auto
  qed
qed

lemma taken_out_ok:
  assumes ok: "ring_ok m" and r: "map_of (nodeReplicas m) node = Some r" and w: "taken_out m node r m'"
  shows "ring_ok m'"
proof -
  have cfg: "config m' = config m" using w by (simp add: taken_out_def)
  have dom: "dom (map_of (hashMap m')) = set (keys m')"
  proof (intro set_eqI)
    fix h
    show "h \<in> dom (map_of (hashMap m')) \<longleftrightarrow> h \<in> set (keys m')"
      using w ring_ok_dom [OF ok, of h] by (auto simp: taken_out_def domIff)
  qed
  have "sorted (keys m')" "distinct (keys m')" using w ok by (simp_all add: taken_out_def ring_ok_def sorted_wrt_filter)
  moreover have "dom (map_of (nodeCounts m')) = dom (map_of (nodeReplicas m'))"
    using w ok by (auto simp: taken_out_def ring_ok_def)
  moreover have "\<forall>n s. map_of (nodeReplicas m') n = Some s \<longrightarrow> n \<noteq> [] \<and> 0 < s"
    using w ok by (auto simp: taken_out_def ring_ok_def)
  ultimately show ?thesis using w dom taken_out_points [OF ok r w] unfolding ring_ok_def cfg by (simp add: taken_out_def)
qed

lemma ring_Remove_one:
  assumes ok: "ring_ok m" and node: "node \<in> nodes_of m"
  obtains m' where "ring_Remove False m node = Returns (Inr m')" "ring_ok m'" "config m' = config m"
    "nodes_of m' = nodes_of m - {node}"
    "keys m' = filter (\<lambda>h. node_of m h \<noteq> node) (keys m)"
    "\<forall>h \<in> set (keys m'). node_of m' h = node_of m h"
    "map_of (unhealthyNodes m') = (map_of (unhealthyNodes m))(node := None)"
proof -
  obtain r where r: "map_of (nodeReplicas m) node = Some r" using node by (auto simp: nodes_of_def)
  obtain m' where m': "ring_Remove False m node = Returns (Inr m')" and w: "taken_out m node r m'"
    by (rule ring_Remove_result [OF ok r])
  have mine: "h \<in> vset (config m) node r \<longleftrightarrow> node_of m h = node" if "h \<in> set (keys m)" for h
    using node_of_owner [OF ok, of h node] that r by auto
  have keys: "keys m' = filter (\<lambda>h. node_of m h \<noteq> node) (keys m)"
    using w mine by (simp add: taken_out_def cong: filter_cong)
  have own: "\<forall>h \<in> set (keys m'). node_of m' h = node_of m h"
    using w by (simp add: taken_out_def node_of_def)
  have nodes: "nodes_of m' = nodes_of m - {node}" using w by (auto simp: nodes_of_def taken_out_def)
  show ?thesis
    by (rule that [OF m' taken_out_ok [OF ok r w] _ nodes keys own]) (use w in \<open>simp_all add: taken_out_def\<close>)
qed

section \<open>What moves\<close>

text \<open>A ring \<open>m'\<close> is \<open>m\<close> without one of its nodes; lookups only change for that node's keys.\<close>

definition without_node :: "Map \<Rightarrow> string \<Rightarrow> Map \<Rightarrow> bool" where
  "without_node m node m' \<longleftrightarrow> config m' = config m \<and>
     keys m' = filter (\<lambda>h. node_of m h \<noteq> node) (keys m) \<and>
     (\<forall>h \<in> set (keys m'). node_of m' h = node_of m h)"

lemma circle_without:
  assumes "without_node m node m'"
  shows "circle m' key = filter (\<lambda>n. n \<noteq> node) (circle m key)"
proof -
  let ?h = "khash m key"
  have h: "khash m' key = ?h" using assms by (simp add: without_node_def khash_def)
  have ks: "ring_order (keys m') ?h = filter (\<lambda>h. node_of m h \<noteq> node) (ring_order (keys m) ?h)"
    using assms by (simp add: without_node_def ring_order_filter)
  have "map (node_of m') (ring_order (keys m') ?h) = map (node_of m) (ring_order (keys m') ?h)"
    using assms by (intro map_cong refl) (simp add: without_node_def)
  then show ?thesis by (simp add: circle_def h ks filter_map comp_def)
qed

lemma owner_without:
  assumes "ring_ok m" and "ring_ok m'" and "without_node m node m'" and "key \<noteq> []" and "keys m' \<noteq> []"
  shows "snd (ring_Get m' key) = hd (filter (\<lambda>n. n \<noteq> node) (circle m key))"
  using assms ring_Get_circle [of m' key] by (simp add: ring_ok_sorted circle_without)

lemma hd_filter_same: "xs \<noteq> [] \<Longrightarrow> P (hd xs) \<Longrightarrow> hd (filter P xs) = hd xs"
  by (cases xs) auto

lemma owner_stays:
  assumes ok: "ring_ok m" "ring_ok m'" and w: "without_node m node m'" and key: "key \<noteq> []"
    and other: "snd (ring_Get m key) \<noteq> node"
  shows "snd (ring_Get m' key) = snd (ring_Get m key)"
proof (cases "keys m = []")
  case True
  then have "keys m' = []" using w by (simp add: without_node_def)
  with True show ?thesis using key by (simp add: ring_Get_def)
next
  case False
  note c = circle_nonempty [OF False, of key]
  have g: "snd (ring_Get m key) = hd (circle m key)"
    using ring_Get_circle [OF ring_ok_sorted [OF ok(1)] False key] .
  have "filter (\<lambda>n. n \<noteq> node) (circle m key) \<noteq> []"
    using c other g hd_in_set [OF c] by (auto simp: filter_empty_conv)
  then have "circle m' key \<noteq> []" by (simp add: circle_without [OF w])
  then have ne: "keys m' \<noteq> []" by (auto simp: circle_def ring_order_def)
  show ?thesis
    using owner_without [OF ok w key ne] hd_filter_same [OF c, of "\<lambda>n. n \<noteq> node"] other g by simp
qed

section \<open>Collecting distinct nodes\<close>

fun fresh :: "(string \<Rightarrow> bool) \<Rightarrow> string set \<Rightarrow> string list \<Rightarrow> string list" where
  "fresh skip S [] = []"
| "fresh skip S (x # xs) = (if x \<notin> S \<and> \<not> skip x then x # fresh skip (insert x S) xs else fresh skip S xs)"

lemma fresh_props: "distinct (fresh skip S xs) \<and> set (fresh skip S xs) = {x \<in> set xs. x \<notin> S \<and> \<not> skip x}"
  by (induction xs arbitrary: S) auto

lemma fresh_hd: "filter (\<lambda>x. x \<notin> S \<and> \<not> skip x) xs \<noteq> [] \<Longrightarrow>
    fresh skip S xs \<noteq> [] \<and> hd (fresh skip S xs) = hd (filter (\<lambda>x. x \<notin> S \<and> \<not> skip x) xs)"
  by (induction xs) auto

lemma collect_fresh:
  "dom (map_of seen) = S \<Longrightarrow> collect_loop skip m idx n js seen result =
     result @ take (nat (n - int (length result)))
       (fresh skip S (map (\<lambda>i. node_at m ((idx + i) mod length (keys m))) js))"
proof (induction js arbitrary: seen result S)
  case (Cons i js)
  let ?x = "node_at m ((idx + i) mod length (keys m))"
  show ?case
  proof (cases "int (length result) < n")
    case True
    then have n: "nat (n - int (length result)) = Suc (nat (n - int (length (result @ [?x]))))" by auto
    have notin: "map_of seen ?x = None \<longleftrightarrow> ?x \<notin> S" using Cons.prems by auto
    have "dom (map_of (AList.update ?x True seen)) = insert ?x S" using Cons.prems by simp
    note IH = Cons.IH [OF this, of "result @ [?x]"]
    show ?thesis
    proof (cases "?x \<notin> S \<and> \<not> skip ?x")
      case new: True
      then show ?thesis using True notin IH unfolding n by (simp add: Let_def)
    next
      case False
      then show ?thesis using True notin Cons.IH [OF Cons.prems, of result] by (auto simp: Let_def)
    qed
  qed simp
qed simp

lemma GetN_value:
  assumes "ring_ok m" and "key \<noteq> []" and "0 < n"
  shows "GetN m key n = take (nat n) (fresh (\<lambda>_. False) {} (circle m key))"
    and "GetNHealthy m key n = take (nat n) (fresh (unhealthy m) {} (circle m key))"
proof -
  have "GetN m key n = take (nat n) (fresh (\<lambda>_. False) {} (circle m key)) \<and>
    GetNHealthy m key n = take (nat n) (fresh (unhealthy m) {} (circle m key))"
  proof (cases "keys m = []")
    case True
    then show ?thesis by (simp add: GetN_def GetNHealthy_def circle_def ring_order_def)
  next
    case False
    then show ?thesis
      using collect_fresh [of "[]" "{}"] assms
      by (simp add: GetN_def GetNHealthy_def walk_circle [OF ring_ok_sorted [OF assms(1)] False])
  qed
  then show "GetN m key n = take (nat n) (fresh (\<lambda>_. False) {} (circle m key))"
    and "GetNHealthy m key n = take (nat n) (fresh (unhealthy m) {} (circle m key))" by auto
qed

lemma fresh_card:
  assumes "ring_ok m"
  shows "distinct (fresh skip {} (circle m key))" and "set (fresh skip {} (circle m key)) = {x \<in> nodes_of m. \<not> skip x}"
    and "length (fresh skip {} (circle m key)) = card {x \<in> nodes_of m. \<not> skip x}"
  using fresh_props [of skip "{}" "circle m key"] distinct_card [of "fresh skip {} (circle m key)"]
  by (simp_all add: set_circle [OF assms])

section \<open>The first healthy node\<close>

lemma healthy_loop_found:
  assumes h: "\<exists>x. map_of (nodeReplicas m) x \<noteq> None \<and> \<not> unhealthy m x" and mo: "map_ok (nodeReplicas m)"
  shows "map_ok seen \<Longrightarrow> (\<forall>x \<in> fst ` set seen. unhealthy m x \<and> map_of (nodeReplicas m) x \<noteq> None) \<Longrightarrow>
    (\<forall>i \<in> set js. map_of (nodeReplicas m) (node_at m ((idx + i) mod length (keys m))) \<noteq> None) \<Longrightarrow>
    filter (\<lambda>x. \<not> unhealthy m x) (map (\<lambda>i. node_at m ((idx + i) mod length (keys m))) js) \<noteq> [] \<Longrightarrow>
    snd (healthy_loop m idx js seen) =
      hd (filter (\<lambda>x. \<not> unhealthy m x) (map (\<lambda>i. node_at m ((idx + i) mod length (keys m))) js))"
proof (induction js arbitrary: seen)
  case (Cons i js)
  let ?x = "node_at m ((idx + i) mod length (keys m))"
  show ?case
  proof (cases "unhealthy m ?x")
    case True
    let ?seen = "AList.update ?x True seen"
    have ok: "map_ok ?seen" using Cons.prems(1) by (rule map_ok_update)
    have keys: "fst ` set ?seen = insert ?x (fst ` set seen)"
      using keys_dom [of ?seen] keys_dom [of seen] by simp
    have sub: "fst ` set ?seen \<subseteq> fst ` set (nodeReplicas m)"
    proof
      fix x assume "x \<in> fst ` set ?seen"
      then have "map_of (nodeReplicas m) x \<noteq> None" using keys Cons.prems(2,3) by auto
      then show "x \<in> fst ` set (nodeReplicas m)" using map_of_eq_None_iff [of "nodeReplicas m" x] by metis
    qed
    obtain x where x: "map_of (nodeReplicas m) x \<noteq> None" "\<not> unhealthy m x" using h by blast
    have "x \<notin> fst ` set ?seen" using x(2) True keys Cons.prems(2) by auto
    moreover have "x \<in> fst ` set (nodeReplicas m)" using x(1) map_of_eq_None_iff [of "nodeReplicas m" x] by metis
    ultimately have "fst ` set ?seen \<subset> fst ` set (nodeReplicas m)" using sub by blast
    then have "card (fst ` set ?seen) < card (fst ` set (nodeReplicas m))" by (intro psubset_card_mono) simp_all
    moreover have "card (fst ` set ?seen) = length ?seen" "card (fst ` set (nodeReplicas m)) = length (nodeReplicas m)"
      using ok mo distinct_card [of "map fst ?seen"] distinct_card [of "map fst (nodeReplicas m)"]
      by (simp_all add: map_ok_def)
    ultimately have "\<not> length ?seen \<ge> length (nodeReplicas m)" by simp
    moreover have "\<forall>x \<in> fst ` set ?seen. unhealthy m x \<and> map_of (nodeReplicas m) x \<noteq> None"
      unfolding keys using Cons.prems(2,3) True by auto
    ultimately show ?thesis
      using Cons.IH [OF ok] Cons.prems(3,4) True by (simp add: Let_def)
  qed (simp add: Let_def)
qed simp

lemma GetHealthy_found:
  assumes ok: "ring_ok m" and key: "key \<noteq> []" and h: "x \<in> nodes_of m" "\<not> unhealthy m x"
  shows "snd (GetHealthy m key) = hd (filter (\<lambda>x. \<not> unhealthy m x) (circle m key))"
proof -
  have ne: "keys m \<noteq> []" using nodes_empty [OF ok] h(1) by auto
  note wc = walk_circle [OF ring_ok_sorted [OF ok] ne, of key]
  have ex: "\<exists>x. map_of (nodeReplicas m) x \<noteq> None \<and> \<not> unhealthy m x"
    using h by (auto simp: nodes_of_def)
  have mo: "map_ok (nodeReplicas m)" using ok by (simp add: ring_ok_def)
  have in_nodes: "n \<in> nodes_of m" if "n \<in> set (circle m key)" for n using set_circle [OF ok, of key] that by simp
  have "\<forall>i \<in> set [0..<length (keys m)].
      map_of (nodeReplicas m) (node_at m ((find_idx m key + i) mod length (keys m))) \<noteq> None"
  proof
    fix i assume "i \<in> set [0..<length (keys m)]"
    then have "node_at m ((find_idx m key + i) mod length (keys m)) \<in> set (circle m key)"
      unfolding wc [symmetric] by simp
    then show "map_of (nodeReplicas m) (node_at m ((find_idx m key + i) mod length (keys m))) \<noteq> None"
      using in_nodes by (auto simp: nodes_of_def)
  qed
  moreover have "filter (\<lambda>x. \<not> unhealthy m x) (circle m key) \<noteq> []"
    using h set_circle [OF ok, of key] by (auto simp: filter_empty_conv)
  ultimately show ?thesis
    using healthy_loop_found [OF ex mo, of "[]" "[0..<length (keys m)]" "find_idx m key"] key ne
    by (simp add: GetHealthy_def wc)
qed

end
