(* ===== verification/RingProps.thy ===== *)
theory RingProps
  imports Ring
begin

text \<open>
  The properties of the consistent-hash ring: consistency when a node joins or leaves, the
  distinct nodes for replication, health, and the rebalancing that cannot finish.
\<close>

section \<open>A small ring\<close>

text \<open>Two virtual nodes per node, and a hash that is quickly computed.\<close>

definition small_hash :: "string \<Rightarrow> u32" where
  "small_hash s = word_of_int (foldl (\<lambda>h c. (h * 31 + of_char c) mod 1009) 7 s)"

definition two_points :: Config where
  "two_points = DefaultConfig\<lparr>DefaultReplicas := 2, HashFunc := small_hash\<rparr>"

definition ring0 :: Map where
  "ring0 = New [WithConfig two_points]"

definition joined :: "Map \<Rightarrow> string \<Rightarrow> Map" where
  "joined m node = (case ring_Add m [node] of Inr m \<Rightarrow> m | Inl _ \<Rightarrow> m)"

lemma ring_New_ok: "ring_ok (New [WithConfig cfg])"
  by (simp add: New_def WithConfig_def ring_ok_def)

lemma no_collision_distinct:
  "distinct (map (vhash (config m) node) [0..<nat (DefaultReplicas (config m))] @ keys m) \<Longrightarrow> no_collision m node"
  by (auto simp: no_collision_def distinct_map vset_def atLeast0LessThan)

lemma add_one_ok:
  assumes "ring_ok m" and "node \<noteq> []" and "node \<notin> nodes_of m" and "no_collision m node"
    and "0 < DefaultReplicas (config m)"
  shows "ring_ok (joined m node)" and "nodes_of (joined m node) = insert node (nodes_of m)"
    and "config (joined m node) = config m" and "ring_Add m [node] = Inr (joined m node)"
  by (rule ring_Add_one [OF assms], simp add: joined_def)+

definition ring1 :: Map where
  "ring1 = joined ring0 ''a''"

definition ring2 :: Map where
  "ring2 = joined ring1 ''b''"

lemma ring0_facts: "ring_ok ring0" "nodes_of ring0 = {}" "config ring0 = two_points" "keys ring0 = []"
  using ring_New_ok by (simp_all add: ring0_def nodes_of_def) (simp_all add: New_def WithConfig_def)

lemma two_points_pos: "0 < DefaultReplicas two_points"
  by (simp add: two_points_def DefaultConfig_def)

lemma ring1_apart: "no_collision ring0 ''a''"
  by (rule no_collision_distinct) code_simp

lemma ring1_facts: "ring_ok ring1" "nodes_of ring1 = {''a''}" "config ring1 = two_points"
    "ring_Add ring0 [''a''] = Inr ring1"
  using add_one_ok [OF ring0_facts(1) _ _ ring1_apart] ring0_facts two_points_pos by (simp_all add: ring1_def)

lemma ring2_apart: "no_collision ring1 ''b''"
  by (rule no_collision_distinct) code_simp

lemma ring2_facts: "ring_ok ring2" "nodes_of ring2 = {''a'', ''b''}" "config ring2 = two_points"
    "ring_Add ring1 [''b''] = Inr ring2"
  using add_one_ok [OF ring1_facts(1) _ _ ring2_apart] ring1_facts two_points_pos by (auto simp: ring2_def)

lemma node_keys: "ring_ok m \<Longrightarrow> nodes_of m \<noteq> {} \<Longrightarrow> keys m \<noteq> []"
  using nodes_empty by blast

section \<open>Consistency\<close>

text \<open>C5: Adding a new node to a well-formed ring, with no two virtual nodes of equal hash, keeps the ring
  well formed, and every key either keeps its node or moves to the new one.\<close>
theorem ring_Add_consistent:
  assumes "ring_ok m" and "node \<noteq> []" and "node \<notin> nodes_of m" and "no_collision m node"
    and "0 < DefaultReplicas (config m)"
  shows "\<exists>m'. ring_Add m [node] = Inr m' \<and> ring_ok m' \<and> nodes_of m' = insert node (nodes_of m) \<and>
    (\<forall>key. snd (ring_Get m' key) = node \<or> snd (ring_Get m' key) = snd (ring_Get m key))"
proof -
  obtain m' where m': "ring_Add m [node] = Inr m'" "ring_ok m'" "config m' = config m"
    "nodes_of m' = insert node (nodes_of m)" "unhealthyNodes m' = unhealthyNodes m" "keys m = filter (\<lambda>h. node_of m' h \<noteq> node) (keys m')"
    "\<forall>h \<in> set (keys m). node_of m' h = node_of m h"
    by (rule ring_Add_one [OF assms])
  have "without_node m' node m" using m' by (simp add: without_node_def)
  then have "snd (ring_Get m' key) = node \<or> snd (ring_Get m' key) = snd (ring_Get m key)" for key
    using owner_stays [OF m'(2) assms(1), of node key] by (cases "key = []") (simp add: ring_Get_def, metis)
  with m' show ?thesis by blast
qed

theorem ring_Add_consistent_witness:
  "ring_Add ring1 [''b''] = Inr ring2 \<and>
   (snd (ring_Get ring2 ''key'') = ''b'' \<or> snd (ring_Get ring2 ''key'') = snd (ring_Get ring1 ''key''))"
proof -
  have "''b'' \<notin> nodes_of ring1" "0 < DefaultReplicas (config ring1)"
    using ring1_facts two_points_pos by simp_all
  from ring_Add_consistent [OF ring1_facts(1) _ this(1) ring2_apart this(2)] ring2_facts(4)
  show ?thesis by auto
qed

text \<open>C13: Removing a node of a well-formed ring keeps the ring well formed, moves no key of another node,
  and leaves no key with the removed node.\<close>
theorem ring_Remove_consistent:
  assumes "ring_ok m" and "node \<in> nodes_of m"
  shows "\<exists>m'. ring_Remove False m node = Returns (Inr m') \<and> ring_ok m' \<and> nodes_of m' = nodes_of m - {node} \<and>
    (\<forall>key. snd (ring_Get m key) \<noteq> node \<longrightarrow> snd (ring_Get m' key) = snd (ring_Get m key)) \<and>
    (\<forall>key. snd (ring_Get m' key) \<noteq> node)"
proof -
  obtain m' where m': "ring_Remove False m node = Returns (Inr m')" "ring_ok m'" "config m' = config m"
    "nodes_of m' = nodes_of m - {node}" "keys m' = filter (\<lambda>h. node_of m h \<noteq> node) (keys m)"
    "\<forall>h \<in> set (keys m'). node_of m' h = node_of m h"
    "map_of (unhealthyNodes m') = (map_of (unhealthyNodes m))(node := None)"
    by (rule ring_Remove_one [OF assms])
  have w: "without_node m node m'" using m' by (simp add: without_node_def)
  have ne: "node \<noteq> []" using assms by (auto simp: ring_ok_def nodes_of_def)
  have "snd (ring_Get m' key) = snd (ring_Get m key)" if "snd (ring_Get m key) \<noteq> node" for key
    using owner_stays [OF assms(1) m'(2) w _ that] by (cases "key = []") (auto simp: ring_Get_def)
  moreover have "snd (ring_Get m' key) \<noteq> node" for key
  proof (cases "keys m' = [] \<or> key = []")
    case True
    then show ?thesis using ne by (auto simp: ring_Get_def)
  next
    case False
    then show ?thesis using owner_member [OF m'(2), of key] m'(4) by auto
  qed
  ultimately show ?thesis using m' by blast
qed

theorem ring_Remove_consistent_witness:
  "\<exists>m'. ring_Remove False ring2 ''a'' = Returns (Inr m') \<and> snd (ring_Get m' ''key'') \<noteq> ''a''"
  using ring_Remove_consistent [OF ring2_facts(1), of "''a''"] ring2_facts(2) by blast

section \<open>Replicas\<close>

lemma GetN_facts:
  assumes "ring_ok m" and "key \<noteq> []" and "0 < n"
  shows "distinct (GetN m key n) \<and> set (GetN m key n) \<subseteq> nodes_of m \<and>
    length (GetN m key n) = min (nat n) (card (nodes_of m)) \<and>
    (nodes_of m \<noteq> {} \<longrightarrow> hd (GetN m key n) = snd (ring_Get m key)) \<and>
    distinct (GetNHealthy m key n) \<and> set (GetNHealthy m key n) \<subseteq> {x \<in> nodes_of m. IsHealthy m x} \<and>
    length (GetNHealthy m key n) = min (nat n) (card {x \<in> nodes_of m. IsHealthy m x})"
proof -
  note v = GetN_value [OF assms]
  note c = fresh_card [OF assms(1), where skip = "\<lambda>_. False" and key = key]
  note d = fresh_card [OF assms(1), where skip = "unhealthy m" and key = key]
  have h: "{x \<in> nodes_of m. IsHealthy m x} = {x \<in> nodes_of m. \<not> unhealthy m x}" by (simp add: IsHealthy_def)
  have "hd (GetN m key n) = snd (ring_Get m key)" if "nodes_of m \<noteq> {}"
  proof -
    note ne = node_keys [OF assms(1) that]
    have "fresh (\<lambda>_. False) {} (circle m key) \<noteq> [] \<and>
        hd (fresh (\<lambda>_. False) {} (circle m key)) = hd (circle m key)"
      using fresh_hd [of "{}" "\<lambda>_. False" "circle m key"] circle_nonempty [OF ne, of key] by simp
    then show ?thesis
      using v(1) assms(3) ring_Get_circle [OF ring_ok_sorted [OF assms(1)] ne assms(2)] by (simp add: hd_take)
  qed
  then show ?thesis
    using v c d set_take_subset [of "nat n" "fresh (\<lambda>_. False) {} (circle m key)"]
      set_take_subset [of "nat n" "fresh (unhealthy m) {} (circle m key)"]
    by (auto simp: h min.commute)
qed



text \<open>C32: The replica of a key is the node that takes the key over: with two nodes or more, GetReplica
  returns another node than Get, namely the one that Get returns once that node is removed.\<close>
theorem replica_takes_over:
  assumes "ring_ok m" and "key \<noteq> []" and "2 \<le> card (nodes_of m)"
  shows "GetReplica m key \<noteq> snd (ring_Get m key) \<and>
    (\<exists>m'. ring_Remove False m (snd (ring_Get m key)) = Returns (Inr m') \<and>
      snd (ring_Get m' key) = GetReplica m key)"
proof -
  let ?p = "snd (ring_Get m key)" and ?f = "fresh (\<lambda>_. False) {} (circle m key)"
  have "nodes_of m \<noteq> {}" using assms(3) by auto
  note ne = node_keys [OF assms(1) this]
  have p: "?p = hd (circle m key)" using ring_Get_circle [OF ring_ok_sorted [OF assms(1)] ne assms(2)] .
  obtain xs where xs: "circle m key = ?p # xs" using circle_nonempty [OF ne, of key] p by (cases "circle m key") auto
  have f: "?f = ?p # fresh (\<lambda>_. False) {?p} xs" by (subst xs) simp
  have "length ?f = card (nodes_of m)" using fresh_card(3) [OF assms(1), of "\<lambda>_. False" key] by simp
  then have len: "fresh (\<lambda>_. False) {?p} xs \<noteq> []" using assms(3) f by auto
  then have "set (fresh (\<lambda>_. False) {?p} xs) \<noteq> {}" by simp
  then have filt: "filter (\<lambda>n. n \<noteq> ?p) xs \<noteq> []"
    using fresh_props [of "\<lambda>_. False" "{?p}" xs] by (auto simp: filter_empty_conv)
  have snd: "hd (fresh (\<lambda>_. False) {?p} xs) = hd (filter (\<lambda>n. n \<noteq> ?p) xs)"
    using fresh_hd [of "{?p}" "\<lambda>_. False" xs] filt by simp
  have "GetN m key 2 = take 2 ?f" using GetN_value(1) [OF assms(1,2), of 2] by simp
  moreover obtain y ys where y: "fresh (\<lambda>_. False) {?p} xs = y # ys" using len by (cases "fresh (\<lambda>_. False) {?p} xs") auto
  ultimately have "GetN m key 2 = [?p, y]" using f by (simp add: numeral_2_eq_2)
  then have rep: "GetReplica m key = hd (filter (\<lambda>n. n \<noteq> ?p) xs)"
    using snd y by (simp add: GetReplica_def Let_def)
  have mem: "?p \<in> nodes_of m" by (rule owner_member [OF assms(1) ne assms(2)])
  obtain m' where m': "ring_Remove False m ?p = Returns (Inr m')" "ring_ok m'" "config m' = config m"
    "nodes_of m' = nodes_of m - {?p}" "keys m' = filter (\<lambda>h. node_of m h \<noteq> ?p) (keys m)"
    "\<forall>h \<in> set (keys m'). node_of m' h = node_of m h"
    "map_of (unhealthyNodes m') = (map_of (unhealthyNodes m))(?p := None)"
    by (rule ring_Remove_one [OF assms(1) mem])
  have w: "without_node m ?p m'" using m' by (simp add: without_node_def)
  have "filter (\<lambda>n. n \<noteq> ?p) (circle m key) = filter (\<lambda>n. n \<noteq> ?p) xs" by (subst xs) simp
  moreover from this have "circle m' key \<noteq> []" using circle_without [OF w, of key] filt by simp
  then have "keys m' \<noteq> []" by (auto simp: circle_def ring_order_def)
  ultimately have "snd (ring_Get m' key) = GetReplica m key"
    using owner_without [OF assms(1) m'(2) w assms(2)] rep by simp
  moreover have "GetReplica m key \<noteq> ?p"
    using rep hd_in_set [OF filt] by auto
  ultimately show ?thesis using m'(1) by blast
qed

theorem replica_takes_over_witness: "GetReplica ring2 ''key'' \<noteq> snd (ring_Get ring2 ''key'')"
  using replica_takes_over [OF ring2_facts(1), of "''key''"] ring2_facts(2) by simp

text \<open>As long as some node is healthy, GetHealthy returns a healthy node: the first one clockwise from
  the key, so the node of Get if that one is healthy.\<close>
theorem GetHealthy_correct:
  assumes "ring_ok m" and "key \<noteq> []" and "x \<in> nodes_of m" and "IsHealthy m x"
  shows "IsHealthy m (snd (GetHealthy m key)) \<and> snd (GetHealthy m key) \<in> nodes_of m \<and>
    (IsHealthy m (snd (ring_Get m key)) \<longrightarrow> snd (GetHealthy m key) = snd (ring_Get m key)) \<and>
    snd (GetHealthy m key) = hd (GetNHealthy m key 1)"
proof -
  have u: "\<not> unhealthy m x" using assms(4) by (simp add: IsHealthy_def)
  let ?c = "filter (\<lambda>x. \<not> unhealthy m x) (circle m key)"
  have g: "snd (GetHealthy m key) = hd ?c" by (rule GetHealthy_found [OF assms(1-3) u])
  have nec: "?c \<noteq> []" using assms(3) u set_circle [OF assms(1), of key] by (auto simp: filter_empty_conv)
  then have "hd ?c \<in> set ?c" by (rule hd_in_set)
  then have "\<not> unhealthy m (hd ?c)" "hd ?c \<in> nodes_of m" using set_circle [OF assms(1), of key] by auto
  moreover have "hd ?c = snd (ring_Get m key)" if "IsHealthy m (snd (ring_Get m key))"
  proof -
    have ne: "keys m \<noteq> []" using node_keys [OF assms(1)] assms(3) by blast
    show ?thesis
      using that hd_filter_same [OF circle_nonempty [OF ne], of "\<lambda>x. \<not> unhealthy m x" key]
        ring_Get_circle [OF ring_ok_sorted [OF assms(1)] ne assms(2)] by (simp add: IsHealthy_def)
  qed
  moreover have "hd (GetNHealthy m key 1) = hd ?c"
    using GetN_value(2) [OF assms(1,2), of 1] fresh_hd [of "{}" "unhealthy m" "circle m key"] nec by (simp add: hd_take)
  ultimately show ?thesis using g by (simp add: IsHealthy_def)
qed

lemma marked: "ring_ok (MarkUnhealthy m n) = ring_ok m" "nodes_of (MarkUnhealthy m n) = nodes_of m"
  by (simp_all add: MarkUnhealthy_def ring_ok_def nodes_of_def)

theorem GetHealthy_correct_witness: "IsHealthy (MarkUnhealthy ring2 ''a'') (snd (GetHealthy (MarkUnhealthy ring2 ''a'') ''key''))"
proof -
  have "unhealthyNodes ring2 = []" by code_simp
  then have "IsHealthy (MarkUnhealthy ring2 ''a'') ''b''"
    by (simp add: IsHealthy_def unhealthy_def MarkUnhealthy_def)
  moreover have "ring_ok (MarkUnhealthy ring2 ''a'')" "''b'' \<in> nodes_of (MarkUnhealthy ring2 ''a'')"
    using ring2_facts by (simp_all add: marked)
  ultimately show ?thesis
    using GetHealthy_correct [of "MarkUnhealthy ring2 ''a''" "''key''" "''b''"] by blast
qed

section \<open>Rebalancing\<close>

definition wants_change :: "(rat \<Rightarrow> rat) \<Rightarrow> rat \<Rightarrow> Map \<Rightarrow> string \<Rightarrow> bool" where
  "wants_change fl avg m node \<longleftrightarrow> (case map_of (nodeCounts m) node of
     None \<Rightarrow> False
   | Some c \<Rightarrow> (let r = (case map_of (nodeReplicas m) node of Some r \<Rightarrow> r | None \<Rightarrow> 0)
       in new_replicas fl (config m) avg c r \<noteq> r))"

lemma rebalance_loop_value:
  "(\<forall>node \<in> set ns. node \<noteq> []) \<Longrightarrow>
   rebalance_loop fl avg ns m = (if \<exists>node \<in> set ns. wants_change fl avg m node then Deadlock else Returns m)"
  by (induction ns) (auto simp: wants_change_def ring_Remove_def Let_def split: option.split)

text \<open>C37: rebalanceNodes holds the lock when it calls Remove, which takes it: for a well-formed ring it
  never returns if a single node's number of virtual nodes is to change, and otherwise it
  changes nothing but the counters. Rebalancing never moves a virtual node.\<close>
theorem rebalance_deadlock:
  assumes "ring_ok m" and "visits ord"
  shows "rebalanceNodes fl ord m =
    (if \<exists>node c r. map_of (nodeCounts m) node = Some c \<and> map_of (nodeReplicas m) node = Some r \<and>
          new_replicas fl (config m) (avg_load fl (totalRequests m) m) c r \<noteq> r
     then Deadlock
     else Returns (m\<lparr>nodeCounts := map (\<lambda>(node, c). (node, 0)) (nodeCounts m), totalRequests := 0\<rparr>))"
proof -
  let ?avg = "avg_load fl (totalRequests m) m" and ?ns = "ord (map fst (nodeCounts m))"
  have dom: "dom (map_of (nodeCounts m)) = dom (map_of (nodeReplicas m))"
    and ne: "map_of (nodeReplicas m) node = Some r \<Longrightarrow> node \<noteq> []" for node r
    using assms(1) by (auto simp: ring_ok_def)
  have set: "set ?ns = dom (map_of (nodeCounts m))"
    using visits_set [OF assms(2)] keys_dom [of "nodeCounts m"] by simp
  have "\<forall>node \<in> set ?ns. node \<noteq> []" unfolding set dom using ne by blast
  note loop = rebalance_loop_value [OF this]
  have dn: "map_of (nodeCounts m) node = None \<longleftrightarrow> map_of (nodeReplicas m) node = None" for node
    using dom by (metis domIff)
  have wants: "wants_change fl ?avg m node \<longleftrightarrow> (\<exists>c r. map_of (nodeCounts m) node = Some c \<and>
      map_of (nodeReplicas m) node = Some r \<and> new_replicas fl (config m) ?avg c r \<noteq> r)" for node
    using dn [of node] unfolding wants_change_def
    by (cases "map_of (nodeCounts m) node"; cases "map_of (nodeReplicas m) node") auto
  have "(\<exists>node \<in> set ?ns. wants_change fl ?avg m node) \<longleftrightarrow>
      (\<exists>node c r. map_of (nodeCounts m) node = Some c \<and> map_of (nodeReplicas m) node = Some r \<and>
          new_replicas fl (config m) ?avg c r \<noteq> r)"
    unfolding set wants by blast
  moreover have "sort (keys m) = keys m" using assms(1) by (simp add: ring_ok_def sorted_sort_id)
  ultimately show ?thesis unfolding rebalanceNodes_def loop by auto
qed

text \<open>The load of two nodes after 1000 requests, 900 of them for one node.\<close>

definition ring_busy :: Map where
  "ring_busy = ring2\<lparr>nodeCounts := [(''a'', 900), (''b'', 100)], totalRequests := 1000,
     config := two_points\<lparr>MinReplicas := 1\<rparr>\<rparr>"

theorem rebalance_deadlock_witness: "checkAndRebalance id id ring_busy = Deadlock"
proof -
  have f2: "nodeReplicas ring2 = [(''a'', 2), (''b'', 2)]" by code_simp
  then have f: "nodeReplicas ring_busy = [(''a'', 2), (''b'', 2)]" by (simp add: ring_busy_def)
  have ok: "ring_ok ring_busy"
  proof -
    have "vset (two_points\<lparr>MinReplicas := 1\<rparr>) = vset two_points"
      by (simp add: vset_def vhash_def fun_eq_iff)
    then show ?thesis
      using f2 ring2_facts(1,3) by (simp add: ring_ok_def ring_busy_def map_ok_def)
  qed
  have fl: "\<lfloor>10 / 9 :: rat\<rfloor> = 1" by (simp add: floor_eq_iff)
  have "rebalanceNodes id id ring_busy = Deadlock"
    unfolding rebalance_deadlock [OF ok visits_id(1)]
    by (rule if_P, rule exI [of _ "''a''"], rule exI [of _ 900], rule exI [of _ 2])
      (simp add: f, simp add: ring_busy_def new_replicas_def avg_load_def f2 fl trunc_def
        two_points_def DefaultConfig_def Let_def)
  moreover have "checkAndRebalance id id ring_busy = rebalanceNodes id id ring_busy"
    by (simp add: checkAndRebalance_def ring_busy_def avg_load_def f2 two_points_def DefaultConfig_def Let_def)
  ultimately show ?thesis by simp
qed

section \<open>Corners\<close>

definition twice :: Map where
  "twice = (case ring_Add ring1 [''a''] of Inr m \<Rightarrow> m | Inl _ \<Rightarrow> ring1)"

text \<open>Adding a node that is already there duplicates its hashes, and Remove takes only one copy of each
  out of the ring: afterwards the ring has no node, Get answers the empty node for every key, and
  no call can remove the left-over positions.\<close>
theorem Add_twice_phantom:
  "(case ring_Remove False twice ''a'' of
      Returns (Inr m) \<Rightarrow> length (keys m) = 2 \<and> nodeReplicas m = [] \<and> snd (ring_Get m ''key'') = [] \<and>
        GetN m ''key'' 2 = [[]] \<and> (case ring_Remove False m ''a'' of Returns (Inl e) \<Rightarrow> e = NodeNotFound ''a'' | _ \<Rightarrow> False)
    | _ \<Rightarrow> False)"
  by code_simp

lemma fold_replicate: "fold (\<lambda>key result. let node = f key in if node = t then result @ [node] else result) ks acc =
    acc @ replicate (length (filter (\<lambda>k. f k = t) ks)) t"
  by (induction ks arbitrary: acc) (auto simp: Let_def replicate_append_same)

text \<open>KeysBelongToNode is meant to return the keys that belong to a node; it returns the node's own
  name instead, once per such key.\<close>
theorem KeysBelongToNode_names:
  assumes "keys m \<noteq> []"
  shows "KeysBelongToNode m ks targetNode =
    replicate (length (filter (\<lambda>k. getNodeUnlocked m k = targetNode) ks)) targetNode"
  using assms by (simp add: KeysBelongToNode_def fold_replicate)

theorem KeysBelongToNode_names_witness: "KeysBelongToNode ring1 [''x'', ''y''] ''a'' = [''a'', ''a'']"
proof -
  have "keys ring1 \<noteq> []" using node_keys [OF ring1_facts(1)] ring1_facts(2) by simp
  from KeysBelongToNode_names [OF this, of "[''x'', ''y'']" "''a''"]
  have "KeysBelongToNode ring1 [''x'', ''y''] ''a'' =
      replicate (length (filter (\<lambda>k. getNodeUnlocked ring1 k = ''a'') [''x'', ''y''])) ''a''" .
  moreover have "length (filter (\<lambda>k. getNodeUnlocked ring1 k = ''a'') [''x'', ''y'']) = 2" by code_simp
  ultimately show ?thesis by (simp add: numeral_2_eq_2)
qed

end
