(* ===== verification/RingRuns.thy ===== *)
theory RingRuns
  imports RingProps
begin

text \<open>
  A ring in use: joins, departures, lookups, health marks and turns of the balancer from a new ring
  on. The representation stays well-formed throughout, and with it every answer is well-typed: a
  member of the ring, or the empty string of an empty ring.
\<close>

text \<open>The steps. A node joins when it is not a member and its virtual nodes hit no others
  (\<open>no_collision\<close>); Go stores them under 32-bit hashes and does not check either.\<close>

inductive ring_step :: "Map \<Rightarrow> Map \<Rightarrow> bool" where
  joins: "node \<noteq> [] \<Longrightarrow> node \<notin> nodes_of m \<Longrightarrow> no_collision m node \<Longrightarrow> ring_Add m [node] = Inr m' \<Longrightarrow> ring_step m m'"
| leaves: "ring_Remove False m node = Returns (Inr m') \<Longrightarrow> ring_step m m'"
| looks_up: "ring_step m (fst (ring_Get m key))"
| looks_up_healthy: "ring_step m (fst (GetHealthy m key))"
| marks_down: "ring_step m (MarkUnhealthy m node)"
| marks_up: "ring_step m (MarkHealthy m node)"
| balances: "visits ord \<Longrightarrow> checkAndRebalance fl ord m = Returns m' \<Longrightarrow> ring_step m m'"

section \<open>Virtual nodes\<close>

text \<open>Every member has all its virtual nodes, and they do not hit each other.\<close>

definition full_ring :: "Map \<Rightarrow> bool" where
  "full_ring m \<longleftrightarrow> (\<forall>node r. map_of (nodeReplicas m) node = Some r \<longrightarrow>
     r = DefaultReplicas (config m) \<and> inj_on (vhash (config m) node) {..<nat r})"

lemma full_ring_keys:
  assumes ok: "ring_ok m" and full: "full_ring m"
  shows "length (keys m) = card (nodes_of m) * nat (DefaultReplicas (config m))"
proof -
  let ?d = "DefaultReplicas (config m)" and ?V = "\<lambda>node. vset (config m) node (DefaultReplicas (config m))"
  have rep: "map_of (nodeReplicas m) node = Some r \<longleftrightarrow> node \<in> nodes_of m \<and> r = ?d" for node r
    using full by (auto simp: full_ring_def nodes_of_def)
  have point: "map_of (hashMap m) h = Some node \<longleftrightarrow> node \<in> nodes_of m \<and> h \<in> ?V node" for h node
    unfolding ring_ok_map [OF ok] rep by blast
  have set: "set (keys m) = (\<Union>node \<in> nodes_of m. ?V node)"
  proof (intro set_eqI)
    fix h
    show "h \<in> set (keys m) \<longleftrightarrow> h \<in> (\<Union>node \<in> nodes_of m. ?V node)"
      unfolding ring_ok_dom [OF ok] point by blast
  qed
  have one: "card (?V node) = nat ?d" if "node \<in> nodes_of m" for node
  proof -
    have "inj_on (vhash (config m) node) {..<nat ?d}" using full that rep [of node ?d] unfolding full_ring_def by blast
    then show ?thesis by (simp add: vset_def card_image)
  qed
  have apart: "?V a \<inter> ?V b = {}" if "a \<in> nodes_of m" "b \<in> nodes_of m" "a \<noteq> b" for a b
  proof -
    have "h \<notin> ?V a \<or> h \<notin> ?V b" for h using point [of h a] point [of h b] that by auto
    then show ?thesis by blast
  qed
  have "distinct (keys m)" using ok by (simp add: ring_ok_def)
  then have "length (keys m) = card (\<Union>node \<in> nodes_of m. ?V node)" by (simp add: set distinct_card [symmetric])
  also have "\<dots> = (\<Sum>node \<in> nodes_of m. card (?V node))"
    by (rule card_UN_disjoint) (use finite_nodes apart in \<open>auto simp: vset_def\<close>)
  also have "\<dots> = card (nodes_of m) * nat ?d" using one by simp
  finally show ?thesis .
qed

section \<open>The steps keep the ring well-formed\<close>

text \<open>Everything but membership, counters and health marks.\<close>

definition same_ring :: "Map \<Rightarrow> Map \<Rightarrow> bool" where
  "same_ring m m' \<longleftrightarrow> config m' = config m \<and> keys m' = keys m \<and> hashMap m' = hashMap m \<and>
     nodeReplicas m' = nodeReplicas m \<and> dom (map_of (nodeCounts m')) = dom (map_of (nodeCounts m)) \<and>
     (map_ok (nodeCounts m) \<longrightarrow> map_ok (nodeCounts m'))"

lemma same_ring_ok: "same_ring m m' \<Longrightarrow> ring_ok m \<and> full_ring m \<Longrightarrow> ring_ok m' \<and> full_ring m' \<and> config m' = config m"
  by (simp add: same_ring_def ring_ok_def full_ring_def)

lemma count_same: "same_ring m (count_request m node)"
  by (auto simp: same_ring_def count_request_def Let_def map_ok_update AList.update_conv split: option.split)

lemma healthy_loop_same: "same_ring m (fst (healthy_loop m idx is seen))"
proof (induction "is" arbitrary: seen)
  case Nil
  then show ?case by (simp add: same_ring_def)
next
  case (Cons i js)
  then show ?case using count_same by (auto simp: Let_def same_ring_def)
qed

lemma lookup_same: "same_ring m (fst (ring_Get m key))" "same_ring m (fst (GetHealthy m key))"
  using count_same healthy_loop_same by (auto simp: ring_Get_def GetHealthy_def Let_def same_ring_def)

lemma mark_same: "same_ring m (MarkUnhealthy m node)" "same_ring m (MarkHealthy m node)"
  by (simp_all add: same_ring_def MarkUnhealthy_def MarkHealthy_def)

lemma rebalance_result:
  assumes ok: "ring_ok m" and ord: "visits ord" and run: "rebalanceNodes fl ord m = Returns m'"
  shows "m' = m\<lparr>nodeCounts := map (\<lambda>(node, c). (node, 0)) (nodeCounts m), totalRequests := 0\<rparr>"
proof -
  have set: "set (ord (map fst (nodeCounts m))) = dom (map_of (nodeCounts m))"
    using visits_set [OF ord] keys_dom [of "nodeCounts m"] by simp
  have "\<forall>node \<in> dom (map_of (nodeCounts m)). node \<noteq> []" using ok by (auto simp: ring_ok_def)
  with rebalance_loop_value [of "ord (map fst (nodeCounts m))"] run set ok
  show ?thesis by (auto simp: rebalanceNodes_def ring_ok_def sorted_sort_id split: if_split_asm)
qed

lemma balance_same:
  assumes ok: "ring_ok m" and ord: "visits ord" and run: "checkAndRebalance fl ord m = Returns m'"
  shows "same_ring m m'"
proof -
  let ?z = "map (\<lambda>(node, c). (node, 0 :: int)) (nodeCounts m)"
  have f: "map fst ?z = map fst (nodeCounts m)" by (simp add: comp_def case_prod_beta)
  then have "map_ok ?z = map_ok (nodeCounts m)" by (simp only: map_ok_def)
  moreover have "dom (map_of ?z) = dom (map_of (nodeCounts m))" by (simp only: keys_dom [symmetric] f)
  moreover have "m' = m \<or> m' = m\<lparr>nodeCounts := map (\<lambda>(node, c). (node, 0)) (nodeCounts m), totalRequests := 0\<rparr>"
    using run rebalance_result [OF ok ord, of fl m'] by (auto simp: checkAndRebalance_def Let_def split: if_split_asm)
  ultimately show ?thesis by (elim disjE) (simp_all add: same_ring_def)
qed

lemma add_replicas: "ring_Add m [node] = Inr m' \<Longrightarrow> node \<noteq> [] \<Longrightarrow>
    nodeReplicas m' = AList.update node (DefaultReplicas (config m)) (nodeReplicas m)"
  using addNode_result(5) [of m node "DefaultReplicas (config m)"] by (auto simp: ring_Add_def Let_def)

lemma remove_replicas:
  assumes "ring_Remove False m node = Returns (Inr m')"
  shows "nodeReplicas m' = AList.delete node (nodeReplicas m) \<and> node \<in> nodes_of m"
  using assms remove_points [where node = node and m = m]
  by (auto simp: ring_Remove_def Let_def nodes_of_def split: if_split_asm option.splits)

lemma ring_step_ok:
  assumes st: "ring_step m m'" and ok: "ring_ok m \<and> full_ring m" and pos: "0 < DefaultReplicas (config m)"
  shows "ring_ok m' \<and> full_ring m' \<and> config m' = config m"
  using st
proof cases
  case (joins node)
  obtain m1 where m1: "ring_Add m [node] = Inr m1" "ring_ok m1" "config m1 = config m"
    by (rule ring_Add_one [OF conjunct1 [OF ok] joins(1-3) pos])
  then have "m1 = m'" using joins(4) by simp
  moreover have "full_ring m'"
    using ok joins(3) m1(3) add_replicas [OF joins(4,1)] \<open>m1 = m'\<close>
    by (auto simp: full_ring_def no_collision_def AList.update_conv split: if_split_asm)
  ultimately show ?thesis using m1 by simp
next
  case (leaves node)
  note r = remove_replicas [OF leaves]
  obtain m1 where m1: "ring_Remove False m node = Returns (Inr m1)" "ring_ok m1" "config m1 = config m"
    by (rule ring_Remove_one [OF conjunct1 [OF ok] conjunct2 [OF r]])
  then have "m1 = m'" using leaves by simp
  moreover have "full_ring m'" using ok m1(3) r \<open>m1 = m'\<close> by (auto simp: full_ring_def AList.delete_conv split: if_split_asm)
  ultimately show ?thesis using m1 by simp
next
  case (looks_up key)
  then show ?thesis using same_ring_ok [OF lookup_same(1)] ok by simp
next
  case (looks_up_healthy key)
  then show ?thesis using same_ring_ok [OF lookup_same(2)] ok by simp
next
  case (marks_down node)
  then show ?thesis using same_ring_ok [OF mark_same(1)] ok by simp
next
  case (marks_up node)
  then show ?thesis using same_ring_ok [OF mark_same(2)] ok by simp
next
  case (balances ord fl)
  then show ?thesis using same_ring_ok [OF balance_same] ok by blast
qed

lemma ring_run_ok:
  assumes "0 < DefaultReplicas cfg" and "ring_step\<^sup>*\<^sup>* (New [WithConfig cfg]) m"
  shows "ring_ok m \<and> full_ring m \<and> config m = cfg"
  using assms(2)
proof (induction rule: rtranclp_induct)
  case base
  then show ?case using ring_New_ok [of cfg] by (simp add: full_ring_def New_def WithConfig_def)
next
  case (step m m')
  then show ?case using ring_step_ok [OF step.hyps(2)] assms(1) by auto
qed

section \<open>Answers\<close>

lemma ring_node_at:
  assumes ok: "ring_ok m" and i: "i < length (keys m)"
  shows "node_at m i \<in> nodes_of m"
proof -
  have "keys m ! i \<in> set (keys m)" using i by simp
  from ring_ok_point [OF ok this] obtain r where "map_of (nodeReplicas m) (node_of m (keys m ! i)) = Some r" by blast
  then show ?thesis by (auto simp: node_at_def node_of_def nodes_of_def)
qed

text \<open>Without a healthy member, \<open>GetHealthy\<close> answers the last member that it meets.\<close>

lemma all_down:
  assumes down: "\<forall>x \<in> nodes_of m. unhealthy m x" and mo: "map_ok (nodeReplicas m)"
    and at: "\<And>i. i < length (keys m) \<Longrightarrow> node_at m i \<in> nodes_of m" and ne: "keys m \<noteq> []"
  shows "is \<noteq> [] \<Longrightarrow> map_ok seen \<Longrightarrow>
    fst ` set seen \<union> (\<lambda>i. node_at m ((idx + i) mod length (keys m))) ` set is = nodes_of m \<Longrightarrow>
    snd (healthy_loop m idx is seen) \<in> nodes_of m"
proof (induction "is" arbitrary: seen)
  case (Cons i js)
  let ?node = "node_at m ((idx + i) mod length (keys m))"
  let ?seen = "AList.update ?node True seen"
  have n: "?node \<in> nodes_of m" using at ne by simp
  have sk: "fst ` set ?seen = insert ?node (fst ` set seen)"
    using keys_dom [of ?seen] keys_dom [of seen] by simp
  have all: "fst ` set ?seen \<union> (\<lambda>i. node_at m ((idx + i) mod length (keys m))) ` set js = nodes_of m"
    using Cons.prems(3) unfolding sk by auto
  have ok: "map_ok ?seen" using Cons.prems(2) by (rule map_ok_update)
  show ?case
  proof (cases "length ?seen \<ge> length (nodeReplicas m)")
    case True
    then show ?thesis using n down by (simp add: Let_def)
  next
    case False
    have "js \<noteq> []"
    proof
      assume "js = []"
      then have "fst ` set ?seen = fst ` set (nodeReplicas m)" using all by (simp add: nodes_of_def dom_map_of_conv_image_fst)
      moreover have "card (fst ` set ?seen) = length ?seen" "card (fst ` set (nodeReplicas m)) = length (nodeReplicas m)"
        using ok mo distinct_card [of "map fst ?seen"] distinct_card [of "map fst (nodeReplicas m)"]
        by (simp_all add: map_ok_def)
      ultimately show False using False by simp
    qed
    with Cons.IH [OF _ ok all] False n down show ?thesis by (simp add: Let_def)
  qed
qed simp

lemma GetHealthy_member:
  assumes ok: "ring_ok m" and key: "key \<noteq> []" and ne: "nodes_of m \<noteq> {}"
  shows "snd (GetHealthy m key) \<in> nodes_of m"
proof (cases "\<exists>x \<in> nodes_of m. \<not> unhealthy m x")
  case True
  then obtain x where x: "x \<in> nodes_of m" "\<not> unhealthy m x" by blast
  then have "filter (\<lambda>x. \<not> unhealthy m x) (circle m key) \<noteq> []"
    using set_circle [OF ok, of key] by (auto simp: filter_empty_conv)
  from hd_in_set [OF this] GetHealthy_found [OF ok key x] set_circle [OF ok, of key] show ?thesis by simp
next
  case False
  have k: "keys m \<noteq> []" by (rule node_keys [OF ok ne])
  have "(\<lambda>i. node_at m ((find_idx m key + i) mod length (keys m))) ` set [0..<length (keys m)] = nodes_of m"
    using arg_cong [OF walk_circle [OF ring_ok_sorted [OF ok] k, of key], of set] set_circle [OF ok, of key] by simp
  moreover have "map_ok (nodeReplicas m)" using ok by (simp add: ring_ok_def)
  ultimately have "snd (healthy_loop m (find_idx m key) [0..<length (keys m)] []) \<in> nodes_of m"
    using all_down [of m "[0..<length (keys m)]" "[]" "find_idx m key"] ring_node_at [OF ok] False k by simp
  then show ?thesis using key k by (simp add: GetHealthy_def)
qed



end
