(* ===== verification/Singleflight.thy ===== *)
theory Singleflight
  imports Prelude
begin

text \<open>
  \<open>singleflight/singleflight.go\<close>: concurrent calls of \<open>Do\<close> with the same key share one run of the
  function. A \<open>call\<close> object lives at an address; \<open>m\<close> is the \<open>sync.Map\<close> from keys to addresses. A
  thread is one invocation of \<open>Do\<close>, and its program counter stands before one of the atomic
  actions: \<open>LoadOrStore\<close>, the function's return or panic, \<open>wg.Done\<close>, \<open>m.Delete\<close>, \<open>wg.Wait\<close>. The
  function is arbitrary: it may return any result or panic. \<open>val\<close> is \<open>None\<close> for Go's zero values
  \<open>(nil, nil)\<close>. \<open>runs_of\<close> is a ghost record of the results functions returned, by key.
\<close>

record 'r call =
  val :: "'r option"
  wg_done :: bool

datatype 'r pc =
    Idle
  | Calling string
  | Running string nat
  | Ending string nat bool
  | Deleting string nat bool
  | Waiting string nat
  | Returned string "'r option"
  | Panicked string

record 'r sf =
  heap :: "nat \<rightharpoonup> 'r call"
  calls_m :: "string \<rightharpoonup> nat"
  pcs :: "nat \<Rightarrow> 'r pc"
  runs_of :: "(string \<times> 'r) set"

definition new_call :: "'r call" where
  "new_call = \<lparr>val = None, wg_done = False\<rparr>"

abbreviation goto :: "nat \<Rightarrow> 'r pc \<Rightarrow> 'r sf \<Rightarrow> 'r sf" where
  "goto t p s \<equiv> s\<lparr>pcs := (pcs s)(t := p)\<rparr>"

inductive sf_step :: "'r sf \<Rightarrow> 'r sf \<Rightarrow> bool" where
  enter: "pcs s t = Idle \<Longrightarrow> sf_step s (goto t (Calling key) s)"
| lead: "pcs s t = Calling key \<Longrightarrow> calls_m s key = None \<Longrightarrow> heap s c = None \<Longrightarrow>
    sf_step s (goto t (Running key c) (s\<lparr>heap := (heap s)(c \<mapsto> new_call), calls_m := (calls_m s)(key \<mapsto> c)\<rparr>))"
| join: "pcs s t = Calling key \<Longrightarrow> calls_m s key = Some c \<Longrightarrow> sf_step s (goto t (Waiting key c) s)"
| fn_returns: "pcs s t = Running key c \<Longrightarrow> heap s c = Some k \<Longrightarrow>
    sf_step s (goto t (Ending key c False)
      (s\<lparr>heap := (heap s)(c \<mapsto> k\<lparr>val := Some r\<rparr>), runs_of := insert (key, r) (runs_of s)\<rparr>))"
| fn_panics: "pcs s t = Running key c \<Longrightarrow> sf_step s (goto t (Ending key c True) s)"
| release: "pcs s t = Ending key c p \<Longrightarrow> heap s c = Some k \<Longrightarrow>
    sf_step s (goto t (Deleting key c p) (s\<lparr>heap := (heap s)(c \<mapsto> k\<lparr>wg_done := True\<rparr>)\<rparr>))"
| delete: "pcs s t = Deleting key c p \<Longrightarrow> heap s c = Some k \<Longrightarrow>
    sf_step s (goto t (if p then Panicked key else Returned key (val k)) (s\<lparr>calls_m := (calls_m s)(key := None)\<rparr>))"
| wake: "pcs s t = Waiting key c \<Longrightarrow> heap s c = Some k \<Longrightarrow> wg_done k \<Longrightarrow>
    sf_step s (goto t (Returned key (val k)) s)"

definition sf_start :: "'r sf" where
  "sf_start = \<lparr>heap = Map.empty, calls_m = Map.empty, pcs = (\<lambda>_. Idle), runs_of = {}\<rparr>"

definition sf_reach :: "'r sf \<Rightarrow> bool" where
  "sf_reach = sf_step\<^sup>*\<^sup>* sf_start"

text \<open>The return of a function, by itself.\<close>

abbreviation fn_ends :: "nat \<Rightarrow> string \<Rightarrow> nat \<Rightarrow> 'r call \<Rightarrow> 'r \<Rightarrow> 'r sf \<Rightarrow> 'r sf" where
  "fn_ends t key c k r s \<equiv> goto t (Ending key c False)
     (s\<lparr>heap := (heap s)(c \<mapsto> k\<lparr>val := Some r\<rparr>), runs_of := insert (key, r) (runs_of s)\<rparr>)"

lemma fn_ends_step: "pcs s t = Running key c \<Longrightarrow> heap s c = Some k \<Longrightarrow> sf_step s (fn_ends t key c k r s)"
  by (rule sf_step.fn_returns)

text \<open>A step in which no running function ends.\<close>

definition local_step :: "'r sf \<Rightarrow> 'r sf \<Rightarrow> bool" where
  "local_step s s' \<longleftrightarrow> sf_step s s' \<and> (\<forall>t key c. pcs s t = Running key c \<longrightarrow> pcs s' t = Running key c)"

section \<open>The leader of a key\<close>

text \<open>The thread that runs the function for a key, from \<open>LoadOrStore\<close> to \<open>m.Delete\<close>.\<close>

fun leads :: "'r pc \<Rightarrow> (string \<times> nat) option" where
  "leads (Running key c) = Some (key, c)"
| "leads (Ending key c p) = Some (key, c)"
| "leads (Deleting key c p) = Some (key, c)"
| "leads _ = None"

text \<open>What is known of a call object: of which key it is, and whether its function panicked.\<close>

definition table_ok :: "'r sf \<Rightarrow> bool" where
  "table_ok s \<longleftrightarrow> (\<forall>key c. calls_m s key = Some c \<longleftrightarrow> (\<exists>t. leads (pcs s t) = Some (key, c))) \<and>
     (\<forall>t t' key c c'. leads (pcs s t) = Some (key, c) \<longrightarrow> leads (pcs s t') = Some (key, c') \<longrightarrow> t = t')"

definition objects_ok :: "'r sf \<Rightarrow> (nat \<Rightarrow> string) \<Rightarrow> bool" where
  "objects_ok s owner \<longleftrightarrow>
     (\<forall>t key c. leads (pcs s t) = Some (key, c) \<or> pcs s t = Waiting key c \<longrightarrow> heap s c \<noteq> None \<and> owner c = key)"

text \<open>A call object that is not done yet has its leader before \<open>wg.Done\<close>.\<close>

definition pending_ok :: "'r sf \<Rightarrow> bool" where
  "pending_ok s \<longleftrightarrow> (\<forall>c k. heap s c = Some k \<longrightarrow> \<not> wg_done k \<longrightarrow>
     (\<exists>t key p. pcs s t = Running key c \<or> pcs s t = Ending key c p))"

definition values_ok :: "'r sf \<Rightarrow> (nat \<Rightarrow> string) \<Rightarrow> bool" where
  "values_ok s owner \<longleftrightarrow>
     (\<forall>c k r. heap s c = Some k \<longrightarrow> val k = Some r \<longrightarrow> (owner c, r) \<in> runs_of s) \<and>
     (\<forall>t key r. pcs s t = Returned key (Some r) \<longrightarrow> (key, r) \<in> runs_of s)"

text \<open>The two steps that change who leads: storing a call in the map, and deleting it.\<close>

lemma table_lead:
  assumes ok: "table_ok s" and none: "calls_m s key = None" and idle: "leads (pcs s t) = None"
    and new: "\<And>u. leads (pcs s' u) = (if u = t then Some (key, c) else leads (pcs s u))"
    and m: "calls_m s' = (calls_m s)(key \<mapsto> c)"
  shows "table_ok s'"
  unfolding table_ok_def
proof (intro conjI allI impI)
  have free: "leads (pcs s u) \<noteq> Some (key, c')" for u c'
    using ok none unfolding table_ok_def by (metis option.distinct(1))
  fix key' c'
  have old: "calls_m s key' = Some c' \<longleftrightarrow> (\<exists>t. leads (pcs s t) = Some (key', c'))" using ok by (simp add: table_ok_def)
  show "calls_m s' key' = Some c' \<longleftrightarrow> (\<exists>t. leads (pcs s' t) = Some (key', c'))"
  proof (cases "key' = key")
    case True
    have "(\<exists>u. leads (pcs s' u) = Some (key', c')) \<longleftrightarrow> c = c'"
      unfolding new using free True by (metis option.inject prod.inject)
    then show ?thesis using m True by simp
  next
    case False
    have "(\<exists>u. leads (pcs s' u) = Some (key', c')) \<longleftrightarrow> (\<exists>t. leads (pcs s t) = Some (key', c'))"
      unfolding new using idle False by (metis option.distinct(1) option.inject prod.inject)
    then show ?thesis using m False old by simp
  qed
  fix u u' c1 c2
  assume "leads (pcs s' u) = Some (key', c1)" "leads (pcs s' u') = Some (key', c2)"
  then show "u = u'" using free ok unfolding new table_ok_def by (metis option.inject prod.inject)
qed

lemma table_delete:
  assumes ok: "table_ok s" and me: "leads (pcs s t) = Some (key, c)"
    and new: "\<And>u. leads (pcs s' u) = (if u = t then None else leads (pcs s u))"
    and m: "calls_m s' = (calls_m s)(key := None)"
  shows "table_ok s'"
  unfolding table_ok_def
proof (intro conjI allI impI)
  have only: "leads (pcs s u) = Some (key, c') \<Longrightarrow> u = t" for u c' using ok me unfolding table_ok_def by blast
  fix key' c'
  have old: "calls_m s key' = Some c' \<longleftrightarrow> (\<exists>t. leads (pcs s t) = Some (key', c'))" using ok by (simp add: table_ok_def)
  show "calls_m s' key' = Some c' \<longleftrightarrow> (\<exists>t. leads (pcs s' t) = Some (key', c'))"
  proof (cases "key' = key")
    case True
    have "\<not> (\<exists>u. leads (pcs s' u) = Some (key', c'))" unfolding new using only True by (metis option.distinct(1))
    then show ?thesis using m True by simp
  next
    case False
    have "(\<exists>u. leads (pcs s' u) = Some (key', c')) \<longleftrightarrow> (\<exists>t. leads (pcs s t) = Some (key', c'))"
      unfolding new using me False by (metis option.distinct(1) option.inject prod.inject)
    then show ?thesis using m False old by simp
  qed
  fix u u' c1 c2
  assume "leads (pcs s' u) = Some (key', c1)" "leads (pcs s' u') = Some (key', c2)"
  then show "u = u'" using ok unfolding new table_ok_def by (metis option.distinct(1))
qed

lemma table_same:
  "table_ok s \<Longrightarrow> (\<And>u. leads (pcs s' u) = leads (pcs s u)) \<Longrightarrow> calls_m s' = calls_m s \<Longrightarrow> table_ok s'"
  by (simp add: table_ok_def)

inductive_cases sf_stepE: "sf_step s s'"

lemma table_step:
  assumes "sf_step s s'" and ok: "table_ok s"
  shows "table_ok s'"
  using assms(1)
proof cases
  case (lead t key c)
  show ?thesis by (rule table_lead [OF ok lead(3), of t s' c]) (use lead in auto)
next
  case (delete t key c p k)
  show ?thesis by (rule table_delete [OF ok, of t key c s']) (use delete in auto)
qed (rule table_same [OF ok]; simp)+

definition rest_ok :: "'r sf \<Rightarrow> (nat \<Rightarrow> string) \<Rightarrow> bool" where
  "rest_ok s owner \<longleftrightarrow> objects_ok s owner \<and> pending_ok s \<and> values_ok s owner"

lemma objectsD: "objects_ok s owner \<Longrightarrow> leads (pcs s t) = Some (key, c) \<or> pcs s t = Waiting key c \<Longrightarrow>
    heap s c \<noteq> None \<and> owner c = key"
  unfolding objects_ok_def by blast

lemma lead_rest:
  assumes ok: "rest_ok s owner" and t: "pcs s t = Calling key" and c: "heap s c = None"
    and s': "s' = goto t (Running key c) (s\<lparr>heap := (heap s)(c \<mapsto> new_call), calls_m := (calls_m s)(key \<mapsto> c)\<rparr>)"
  shows "rest_ok s' (owner(c := key))"
  unfolding rest_ok_def
proof (intro conjI)
  have other: "c' \<noteq> c" if "leads (pcs s u) = Some (k, c') \<or> pcs s u = Waiting k c'" for u k c'
    using objectsD [of s owner u k c'] ok that c by (auto simp: rest_ok_def)
  show "objects_ok s' (owner(c := key))"
    unfolding objects_ok_def
  proof (intro allI impI)
    fix u k c' assume a: "leads (pcs s' u) = Some (k, c') \<or> pcs s' u = Waiting k c'"
    show "heap s' c' \<noteq> None \<and> (owner(c := key)) c' = k"
    proof (cases "u = t")
      case True
      then show ?thesis using a by (simp add: s')
    next
      case False
      then have b: "leads (pcs s u) = Some (k, c') \<or> pcs s u = Waiting k c'" using a by (simp add: s')
      then show ?thesis using objectsD [of s owner u k c'] ok other [OF b] by (simp add: s' rest_ok_def)
    qed
  qed
  show "pending_ok s'"
    unfolding pending_ok_def
  proof (intro allI impI)
    fix c' k' assume h: "heap s' c' = Some k'" and nd: "\<not> wg_done k'"
    show "\<exists>u k p. pcs s' u = Running k c' \<or> pcs s' u = Ending k c' p"
    proof (cases "c' = c")
      case True
      then have "pcs s' t = Running key c'" by (simp add: s')
      then show ?thesis by blast
    next
      case False
      then have "heap s c' = Some k'" using h by (simp add: s')
      then obtain u k p where "pcs s u = Running k c' \<or> pcs s u = Ending k c' p"
        using nd ok unfolding rest_ok_def pending_ok_def by blast
      then have "pcs s' u = Running k c' \<or> pcs s' u = Ending k c' p" using t by (auto simp: s')
      then show ?thesis by blast
    qed
  qed
  show "values_ok s' (owner(c := key))"
    using ok by (auto simp: rest_ok_def values_ok_def s' new_call_def split: if_splits)
qed

text \<open>Every other step moves one thread and keeps the call objects, which only grow.\<close>

lemma objects_move:
  assumes ok: "objects_ok s owner" and pcs: "pcs s' = (pcs s)(t := p')"
    and dom: "\<And>c. heap s' c = None \<longleftrightarrow> heap s c = None"
    and refers: "\<And>key c. leads p' = Some (key, c) \<or> p' = Waiting key c \<Longrightarrow>
      leads (pcs s t) = Some (key, c) \<or> heap s c \<noteq> None \<and> owner c = key"
  shows "objects_ok s' owner"
  unfolding objects_ok_def
proof (intro allI impI)
  fix u k c assume a: "leads (pcs s' u) = Some (k, c) \<or> pcs s' u = Waiting k c"
  have "heap s c \<noteq> None \<and> owner c = k"
  proof (cases "u = t")
    case True
    then have "leads p' = Some (k, c) \<or> p' = Waiting k c" using a by (simp add: pcs)
    from refers [OF this] show ?thesis using objectsD [OF ok, of t k c] by blast
  next
    case False
    then show ?thesis using a objectsD [OF ok, of u k c] by (simp add: pcs)
  qed
  then show "heap s' c \<noteq> None \<and> owner c = k" using dom by simp
qed

lemma pending_move:
  assumes ok: "pending_ok s" and pcs: "pcs s' = (pcs s)(t := p')"
    and pend: "\<And>c k'. heap s' c = Some k' \<Longrightarrow> \<not> wg_done k' \<Longrightarrow>
      (\<exists>k. heap s c = Some k \<and> \<not> wg_done k) \<and>
      ((\<exists>key p. pcs s t = Running key c \<or> pcs s t = Ending key c p) \<longrightarrow> (\<exists>key p. p' = Running key c \<or> p' = Ending key c p))"
  shows "pending_ok s'"
  unfolding pending_ok_def
proof (intro allI impI)
  fix c k' assume h: "heap s' c = Some k'" and nd: "\<not> wg_done k'"
  from pend [OF h nd] obtain k where k: "heap s c = Some k" "\<not> wg_done k"
    and stays: "(\<exists>key p. pcs s t = Running key c \<or> pcs s t = Ending key c p) \<Longrightarrow>
      \<exists>key p. p' = Running key c \<or> p' = Ending key c p" by metis
  obtain u key p where u: "pcs s u = Running key c \<or> pcs s u = Ending key c p"
    using ok k unfolding pending_ok_def by blast
  show "\<exists>u k p. pcs s' u = Running k c \<or> pcs s' u = Ending k c p"
  proof (cases "u = t")
    case True
    have "\<exists>key p. p' = Running key c \<or> p' = Ending key c p"
      by (rule stays) (use u True in blast)
    moreover have "pcs s' t = p'" by (simp add: pcs)
    ultimately show ?thesis by metis
  next
    case False
    then have "pcs s' u = pcs s u" by (simp add: pcs)
    with u show ?thesis by metis
  qed
qed

lemma rest_move:
  assumes ok: "rest_ok s owner" and pcs: "pcs s' = (pcs s)(t := p')"
    and dom: "\<And>c. heap s' c = None \<longleftrightarrow> heap s c = None"
    and runs: "runs_of s \<subseteq> runs_of s'"
    and refers: "\<And>key c. leads p' = Some (key, c) \<or> p' = Waiting key c \<Longrightarrow>
      leads (pcs s t) = Some (key, c) \<or> heap s c \<noteq> None \<and> owner c = key"
    and pend: "\<And>c k'. heap s' c = Some k' \<Longrightarrow> \<not> wg_done k' \<Longrightarrow>
      (\<exists>k. heap s c = Some k \<and> \<not> wg_done k) \<and>
      ((\<exists>key p. pcs s t = Running key c \<or> pcs s t = Ending key c p) \<longrightarrow> (\<exists>key p. p' = Running key c \<or> p' = Ending key c p))"
    and vals: "\<And>c k' r. heap s' c = Some k' \<Longrightarrow> val k' = Some r \<Longrightarrow> (owner c, r) \<in> runs_of s'"
    and ret: "\<And>key r. p' = Returned key (Some r) \<Longrightarrow> (key, r) \<in> runs_of s'"
  shows "rest_ok s' owner"
  unfolding rest_ok_def
proof (intro conjI)
  have parts: "objects_ok s owner" "pending_ok s" "values_ok s owner" using ok by (simp_all add: rest_ok_def)
  show "objects_ok s' owner" by (rule objects_move [OF parts(1) pcs dom refers])
  show "pending_ok s'" by (rule pending_move [OF parts(2) pcs pend])
  show "values_ok s' owner"
    unfolding values_ok_def
  proof (intro conjI allI impI)
    fix c k r assume "heap s' c = Some k" "val k = Some r"
    then show "(owner c, r) \<in> runs_of s'" by (rule vals)
  next
    fix u key r assume "pcs s' u = Returned key (Some r)"
    then show "(key, r) \<in> runs_of s'"
      using ret parts(3) runs by (cases "u = t") (auto simp: pcs values_ok_def)
  qed
qed

lemma valuesD: "rest_ok s owner \<Longrightarrow> heap s c = Some k \<Longrightarrow> val k = Some r \<Longrightarrow> (owner c, r) \<in> runs_of s"
  unfolding rest_ok_def values_ok_def by blast

lemma rest_step:
  assumes st: "sf_step s s'" and ok: "rest_ok s owner" and tab: "table_ok s"
  shows "\<exists>owner'. rest_ok s' owner'"
  using st
proof cases
  case (lead t key c)
  then show ?thesis using lead_rest [OF ok lead(2) lead(4) lead(1)] by blast
next
  case (enter t key)
  have "rest_ok s' owner"
    by (rule rest_move [OF ok, of s' t "Calling key"]) (use enter valuesD [OF ok] in auto)
  then show ?thesis by blast
next
  case (join t key c)
  obtain u where "leads (pcs s u) = Some (key, c)" using tab join(3) unfolding table_ok_def by blast
  then have "heap s c \<noteq> None \<and> owner c = key" using objectsD [of s owner u key c] ok by (simp add: rest_ok_def)
  then have "rest_ok s' owner"
    by (intro rest_move [OF ok, of s' t "Waiting key c"]) (use join valuesD [OF ok] in auto)
  then show ?thesis by blast
next
  case (fn_returns t key c k r)
  have own: "owner c = key" using objectsD [of s owner t key c] ok fn_returns(2) by (simp add: rest_ok_def)
  have "rest_ok s' owner"
    by (rule rest_move [OF ok, of s' t "Ending key c False"])
      (use fn_returns own valuesD [OF ok] in \<open>auto split: if_splits\<close>)
  then show ?thesis by blast
next
  case (fn_panics t key c)
  have "rest_ok s' owner"
    by (rule rest_move [OF ok, of s' t "Ending key c True"]) (use fn_panics valuesD [OF ok] in auto)
  then show ?thesis by blast
next
  case (release t key c p k)
  have "rest_ok s' owner"
    by (rule rest_move [OF ok, of s' t "Deleting key c p"])
      (use release valuesD [OF ok] in \<open>auto split: if_splits\<close>)
  then show ?thesis by blast
next
  case (delete t key c p k)
  have own: "owner c = key" using objectsD [of s owner t key c] ok delete(2) by (simp add: rest_ok_def)
  have "rest_ok s' owner"
    by (rule rest_move [OF ok, of s' t "if p then Panicked key else Returned key (val k)"])
      (use delete own valuesD [OF ok] in \<open>auto split: if_splits\<close>)
  then show ?thesis by blast
next
  case (wake t key c k)
  have own: "owner c = key" using objectsD [of s owner t key c] ok wake(2) by (simp add: rest_ok_def)
  have "rest_ok s' owner"
    by (rule rest_move [OF ok, of s' t "Returned key (val k)"])
      (use wake own valuesD [OF ok] in \<open>auto split: if_splits\<close>)
  then show ?thesis by blast
qed

lemma sf_start_ok: "table_ok sf_start" "rest_ok sf_start owner"
  by (auto simp: sf_start_def table_ok_def rest_ok_def objects_ok_def pending_ok_def values_ok_def)

lemma sf_reach_ok: "sf_reach s \<Longrightarrow> table_ok s \<and> (\<exists>owner. rest_ok s owner)"
  unfolding sf_reach_def
proof (induction rule: rtranclp_induct)
  case base
  then show ?case using sf_start_ok by blast
next
  case (step s s')
  then show ?case using table_step rest_step by blast
qed

lemma sf_reach_step: "sf_reach s \<Longrightarrow> sf_step s s' \<Longrightarrow> sf_reach s'"
  unfolding sf_reach_def by (rule rtranclp.rtrancl_into_rtrancl)

section \<open>Properties\<close>

text \<open>A leader and a waiter of the same call, for the witnesses.\<close>

definition sf_pair :: "'r pc \<Rightarrow> 'r pc \<Rightarrow> 'r call \<Rightarrow> nat option \<Rightarrow> (string \<times> 'r) set \<Rightarrow> 'r sf" where
  "sf_pair p q k c rs = \<lparr>heap = Map.empty(0 \<mapsto> k), calls_m = (\<lambda>key. if key = ''k'' then c else None),
     pcs = (\<lambda>t. if t = 0 then p else if t = 1 then q else Idle), runs_of = rs\<rparr>"

lemma sf_pair_running: "sf_reach (sf_pair (Running ''k'' 0) (Waiting ''k'' 0) new_call (Some 0) {} :: 'r sf)"
proof -
  let ?s0 = "sf_start :: 'r sf"
  let ?s1 = "goto 0 (Calling ''k'') ?s0"
  let ?s2 = "goto 0 (Running ''k'' 0) (?s1\<lparr>heap := (heap ?s1)(0 \<mapsto> new_call), calls_m := (calls_m ?s1)(''k'' \<mapsto> 0)\<rparr>)"
  let ?s3 = "goto 1 (Calling ''k'') ?s2"
  let ?s4 = "goto 1 (Waiting ''k'' 0) ?s3"
  have 1: "sf_step ?s0 ?s1" by (rule sf_step.enter) (simp add: sf_start_def)
  have 2: "sf_step ?s1 ?s2" by (rule sf_step.lead) (simp_all add: sf_start_def)
  have 3: "sf_step ?s2 ?s3" by (rule sf_step.enter) (simp add: sf_start_def)
  have 4: "sf_step ?s3 ?s4" by (rule sf_step.join) simp_all
  have "sf_reach ?s0" by (simp add: sf_reach_def)
  note sf_reach_step [OF this 1]
  note sf_reach_step [OF this 2]
  note sf_reach_step [OF this 3]
  note r = sf_reach_step [OF this 4]
  have "?s4 = sf_pair (Running ''k'' 0) (Waiting ''k'' 0) new_call (Some 0) {}"
    (is "?l = ?r")
  proof (rule sf.equality)
    show "heap ?l = heap ?r" by (simp add: sf_start_def sf_pair_def)
    show "calls_m ?l = calls_m ?r" by (rule ext) (simp add: sf_start_def sf_pair_def)
    show "pcs ?l = pcs ?r" by (rule ext) (simp add: sf_start_def sf_pair_def)
    show "runs_of ?l = runs_of ?r" by (simp add: sf_start_def sf_pair_def)
  qed simp
  with r show ?thesis by (simp only:)
qed

text \<open>C19: At most one thread at a time runs the function for a key, and the map entry of the key is the
  call of that thread.\<close>
theorem sf_one_in_flight:
  assumes "sf_reach s" and "pcs s t = Running key c" and "pcs s t' = Running key c'"
  shows "t = t' \<and> c = c' \<and> calls_m s key = Some c"
proof -
  have ok: "table_ok s" using sf_reach_ok [OF assms(1)] by blast
  have l: "leads (pcs s t) = Some (key, c)" "leads (pcs s t') = Some (key, c')" using assms(2,3) by simp_all
  then have "t = t'" using ok unfolding table_ok_def by blast
  moreover have "calls_m s key = Some c" using ok l(1) unfolding table_ok_def by blast
  ultimately show ?thesis using assms(2,3) by simp
qed

theorem sf_one_in_flight_witness:
  "calls_m (sf_pair (Running ''k'' 0) (Waiting ''k'' 0) (new_call :: int call) (Some 0) {}) ''k'' = Some 0"
proof -
  have p: "pcs (sf_pair (Running ''k'' 0) (Waiting ''k'' 0) (new_call :: int call) (Some 0) {}) 0 = Running ''k'' 0"
    by (simp add: sf_pair_def)
  from sf_one_in_flight [OF sf_pair_running p p] show ?thesis by blast
qed



text \<open>When the function panics, the waiting callers do not: they return Go's zero values, no value and
  no error, although no run returned anything.\<close>
theorem sf_panic_hidden:
  "\<exists>s. sf_reach (s :: int sf) \<and> pcs s 0 = Panicked ''k'' \<and> pcs s 1 = Returned ''k'' None \<and> runs_of s = {}"
proof -
  let ?k = "new_call\<lparr>wg_done := True\<rparr> :: int call"
  let ?s = "sf_pair (Running ''k'' 0) (Waiting ''k'' 0) (new_call :: int call) (Some 0) {}"
  let ?s1 = "goto 0 (Ending ''k'' 0 True) ?s"
  let ?s2 = "goto 0 (Deleting ''k'' 0 True) (?s1\<lparr>heap := (heap ?s1)(0 \<mapsto> ?k)\<rparr>)"
  let ?s3 = "goto 1 (Returned ''k'' (val ?k)) ?s2"
  let ?s4 = "goto 0 (Panicked ''k'') (?s3\<lparr>calls_m := (calls_m ?s3)(''k'' := None)\<rparr>)"
  have "sf_step ?s ?s1" by (rule sf_step.fn_panics) (simp add: sf_pair_def)
  moreover have "sf_step ?s1 ?s2" using sf_step.release [of ?s1 0 "''k''" 0 True new_call] by (simp add: sf_pair_def)
  moreover have "sf_step ?s2 ?s3" by (rule sf_step.wake) (simp_all add: sf_pair_def)
  moreover have "sf_step ?s3 ?s4" using sf_step.delete [of ?s3 0 "''k''" 0 True ?k] by (simp add: sf_pair_def)
  ultimately have "sf_reach ?s4" using sf_pair_running sf_reach_step by blast
  moreover have "pcs ?s4 0 = Panicked ''k''" "pcs ?s4 1 = Returned ''k'' None" "runs_of ?s4 = {}"
    by (simp_all add: sf_pair_def new_call_def)
  ultimately show ?thesis by blast
qed

end
