(* ===== verification/FlightEnd.thy ===== *)
theory FlightEnd
  imports Singleflight
begin

text \<open>
  Every \<open>Do\<close> ends: as long as no new caller comes and the functions that run return or panic, the
  threads inside \<open>Do\<close> can always go on, and all of them have left it after a number of steps that
  their program counters bound. And when no function panics, every caller gets a result.
\<close>

section \<open>Threads inside \<open>Do\<close>\<close>

text \<open>The steps that a thread has at most before it, by its program counter.\<close>

fun steps_left :: "'r pc \<Rightarrow> nat" where
  "steps_left (Calling key) = 4"
| "steps_left (Running key c) = 3"
| "steps_left (Ending key c p) = 2"
| "steps_left (Deleting key c p) = 1"
| "steps_left (Waiting key c) = 1"
| "steps_left _ = 0"

definition busy :: "'r sf \<Rightarrow> nat set" where
  "busy s = {t. steps_left (pcs s t) \<noteq> 0}"

definition work :: "'r sf \<Rightarrow> nat" where
  "work s = (\<Sum>t \<in> busy s. steps_left (pcs s t))"

text \<open>A step by which no thread enters \<open>Do\<close>.\<close>

definition sf_move :: "'r sf \<Rightarrow> 'r sf \<Rightarrow> bool" where
  "sf_move s s' \<longleftrightarrow> sf_step s s' \<and> (\<forall>t. pcs s t = Idle \<longrightarrow> pcs s' t = Idle)"

lemma one_moves:
  assumes "sf_step s s'"
  shows "\<exists>t. pcs s' = (pcs s)(t := pcs s' t) \<and>
    (pcs s t = Idle \<and> pcs s' t \<noteq> Idle \<or> steps_left (pcs s' t) < steps_left (pcs s t)) \<and>
    (finite (dom (heap s)) \<longrightarrow> finite (dom (heap s')))"
  using assms
proof cases
  case (lead t key c)
  then show ?thesis by (intro exI [of _ t]) simp
next
  case (enter t key)
  then show ?thesis by (intro exI [of _ t]) simp
next
  case (join t key c)
  then show ?thesis by (intro exI [of _ t]) simp
next
  case (fn_returns t key c k r)
  then show ?thesis by (intro exI [of _ t]) simp
next
  case (fn_panics t key c)
  then show ?thesis by (intro exI [of _ t]) simp
next
  case (release t key c p k)
  then show ?thesis by (intro exI [of _ t]) simp
next
  case (delete t key c p k)
  then show ?thesis by (intro exI [of _ t]) simp
next
  case (wake t key c k)
  then show ?thesis by (intro exI [of _ t]) simp
qed

lemma busy_update: "pcs s' = (pcs s)(t := p) \<Longrightarrow> busy s' \<subseteq> insert t (busy s)"
  by (auto simp: busy_def split: if_split_asm)

text \<open>Only finitely many threads are inside \<open>Do\<close>, and only finitely many call objects exist.\<close>

lemma sf_reach_finite: "sf_reach s \<Longrightarrow> finite (busy s) \<and> finite (dom (heap s))"
  unfolding sf_reach_def
proof (induction rule: rtranclp_induct)
  case base
  then show ?case by (simp add: busy_def sf_start_def)
next
  case (step s s')
  from one_moves [OF step.hyps(2)] obtain t where "pcs s' = (pcs s)(t := pcs s' t)" "finite (dom (heap s'))"
    using step.IH by blast
  with busy_update [of s' s t "pcs s' t"] step.IH show ?case by (meson finite_insert finite_subset)
qed

section \<open>Each move takes work away\<close>

lemma work_over: "finite T \<Longrightarrow> busy s \<subseteq> T \<Longrightarrow> work s = (\<Sum>t \<in> T. steps_left (pcs s t))"
  unfolding work_def by (rule sum.mono_neutral_left) (auto simp: busy_def)

lemma move_less:
  assumes fin: "finite (busy s)" and mv: "sf_move s s'"
  shows "work s' < work s"
proof -
  from mv have "sf_step s s'" "\<forall>t. pcs s t = Idle \<longrightarrow> pcs s' t = Idle" by (simp_all add: sf_move_def)
  with one_moves [OF this(1)] obtain t where p: "pcs s' = (pcs s)(t := pcs s' t)" "steps_left (pcs s' t) < steps_left (pcs s t)"
    by blast
  have t: "t \<in> busy s" using p(2) by (simp add: busy_def)
  have "work s' = (\<Sum>u \<in> busy s. steps_left (pcs s' u))"
    by (rule work_over [OF fin]) (use busy_update [OF p(1)] t in blast)
  also have "\<dots> < (\<Sum>u \<in> busy s. steps_left (pcs s u))"
  proof (rule sum_strict_mono_ex1 [OF fin])
    have "steps_left (pcs s' u) \<le> steps_left (pcs s u)" for u using p fun_upd_other [of u t "pcs s" "pcs s' t"] by (cases "u = t") simp_all
    then show "\<forall>u \<in> busy s. steps_left (pcs s' u) \<le> steps_left (pcs s u)" by blast
    show "\<exists>u \<in> busy s. steps_left (pcs s' u) < steps_left (pcs s u)" using t p(2) by blast
  qed
  finally show ?thesis by (simp add: work_def)
qed

section \<open>Nobody is stuck\<close>

lemma moveI: "sf_step s s' \<Longrightarrow> pcs s' = (pcs s)(t := p) \<Longrightarrow> pcs s t \<noteq> Idle \<Longrightarrow> \<exists>s'. sf_move s s'"
  unfolding sf_move_def by (metis fun_upd_other)

lemma leader_moves:
  assumes ok: "rest_ok s owner" and l: "leads (pcs s t) = Some (key, c)"
  shows "\<exists>s'. sf_move s s'"
proof -
  obtain k where k: "heap s c = Some k" using objectsD [of s owner t key c] ok l by (auto simp: rest_ok_def)
  show ?thesis
  proof (cases "pcs s t")
    case (Running key' c')
    show ?thesis by (rule moveI [where t = t, OF sf_step.fn_panics [OF Running]]) (use Running in simp_all)
  next
    case (Ending key' c' p)
    then have "c' = c" using l by simp
    show ?thesis by (rule moveI [where t = t, OF sf_step.release [OF Ending]]) (use Ending \<open>c' = c\<close> k in simp_all)
  next
    case (Deleting key' c' p)
    then have "c' = c" using l by simp
    show ?thesis by (rule moveI [where t = t, OF sf_step.delete [OF Deleting]]) (use Deleting \<open>c' = c\<close> k in simp_all)
  qed (use l in simp_all)
qed

lemma busy_moves:
  assumes reach: "sf_reach s" and t: "t \<in> busy s"
  shows "\<exists>s'. sf_move s s'"
proof -
  obtain owner where ok: "rest_ok s owner" using sf_reach_ok [OF reach] by blast
  have "finite (dom (heap s))" using sf_reach_finite [OF reach] by blast
  from ex_new_if_finite [OF infinite_UNIV_nat this] obtain c0 where c0: "heap s c0 = None" by (auto simp: domIff)
  show ?thesis
  proof (cases "leads (pcs s t)")
    case (Some l)
    then show ?thesis using leader_moves [OF ok] by (cases l) blast
  next
    case None
    then consider key where "pcs s t = Calling key" | key c where "pcs s t = Waiting key c"
      using t by (cases "pcs s t") (auto simp: busy_def)
    then show ?thesis
    proof cases
      case (1 key)
      show ?thesis
      proof (cases "calls_m s key")
        case n: None
        show ?thesis by (rule moveI [where t = t, OF sf_step.lead [OF 1 n c0]]) (use 1 in simp_all)
      next
        case (Some c)
        show ?thesis by (rule moveI [where t = t, OF sf_step.join [OF 1 Some]]) (use 1 in simp_all)
      qed
    next
      case (2 key c)
      then obtain k where k: "heap s c = Some k" using objectsD [of s owner t key c] ok by (auto simp: rest_ok_def)
      show ?thesis
      proof (cases "wg_done k")
        case True
        show ?thesis by (rule moveI [where t = t, OF sf_step.wake [OF 2 k True]]) (use 2 in simp_all)
      next
        case False
        then obtain u key' p where "pcs s u = Running key' c \<or> pcs s u = Ending key' c p"
          using ok k unfolding rest_ok_def pending_ok_def by blast
        then have "leads (pcs s u) = Some (key', c)" by auto
        then show ?thesis by (rule leader_moves [OF ok])
      qed
    qed
  qed
qed

lemma moves_reach: "(sf_move ^^ n) s s' \<Longrightarrow> sf_reach s \<Longrightarrow> sf_reach s' \<and> n + work s' \<le> work s"
proof (induction n arbitrary: s')
  case (Suc n)
  then obtain s1 where s1: "(sf_move ^^ n) s s1" "sf_move s1 s'" by auto
  with Suc have "sf_reach s1 \<and> n + work s1 \<le> work s" by blast
  moreover from this s1(2) have "sf_reach s'" using sf_reach_step by (auto simp: sf_move_def)
  moreover have "work s' < work s1" using move_less [OF _ s1(2)] sf_reach_finite calculation(1) by blast
  ultimately show ?case by simp
qed simp

text \<open>C21: Every Do ends. From any reachable state, as long as no new caller comes, the threads make at most
  as many steps as their program counters allow, four each, whatever the scheduler does; and
  while a thread is still inside Do, waiting or not, some thread can take a step (a running
  function returns or panics). So every run comes to a state in which all callers have left Do.\<close>
theorem sf_all_return:
  assumes "sf_reach s"
  shows "finite (busy s) \<and> work s \<le> 4 * card (busy s) \<and>
    (\<forall>n s'. (sf_move ^^ n) s s' \<longrightarrow> n \<le> work s \<and> ((\<exists>s''. sf_move s' s'') \<longleftrightarrow> busy s' \<noteq> {}))"
proof (intro conjI allI impI)
  show fin: "finite (busy s)" using sf_reach_finite [OF assms] by blast
  have "steps_left p \<le> 4" for p :: "'a pc" by (cases p) simp_all
  then show "work s \<le> 4 * card (busy s)"
    unfolding work_def using sum_bounded_above [of "busy s" "\<lambda>t. steps_left (pcs s t)" 4] by (simp add: mult.commute)
  fix n s' assume run: "(sf_move ^^ n) s s'"
  from moves_reach [OF run assms] have r: "sf_reach s'" "n + work s' \<le> work s" by simp_all
  then show "n \<le> work s" by simp
  show "(\<exists>s''. sf_move s' s'') \<longleftrightarrow> busy s' \<noteq> {}"
  proof
    assume "\<exists>s''. sf_move s' s''"
    then obtain s'' where "sf_move s' s''" by blast
    from move_less [OF _ this] sf_reach_finite [OF r(1)] have "work s'' < work s'" by blast
    then show "busy s' \<noteq> {}" by (auto simp: work_def)
  next
    assume "busy s' \<noteq> {}"
    then show "\<exists>s''. sf_move s' s''" using busy_moves [OF r(1)] by blast
  qed
qed

theorem sf_all_return_witness:
  "work (sf_pair (Running ''k'' 0) (Waiting ''k'' 0) (new_call :: int call) (Some 0) {}) \<le> 8 \<and>
   (\<exists>s'. sf_move (sf_pair (Running ''k'' 0) (Waiting ''k'' 0) (new_call :: int call) (Some 0) {}) s')"
proof -
  let ?s = "sf_pair (Running ''k'' 0) (Waiting ''k'' 0) (new_call :: int call) (Some 0) {}"
  have b: "busy ?s = {0, 1}" by (auto simp: busy_def sf_pair_def split: if_split_asm)
  have "(sf_move ^^ 0) ?s ?s" by simp
  from sf_all_return [OF sf_pair_running] this have w: "work ?s \<le> 4 * card (busy ?s)"
    "(\<exists>s''. sf_move ?s s'') \<longleftrightarrow> busy ?s \<noteq> {}" by metis+
  then show ?thesis by (simp add: b)
qed

section \<open>Every caller gets a result\<close>

text \<open>Runs in which no function panics: every finished call has a value.\<close>

definition calm :: "'r sf \<Rightarrow> bool" where
  "calm s \<longleftrightarrow> (\<forall>t key c p. pcs s t = Ending key c p \<or> pcs s t = Deleting key c p \<longrightarrow>
       \<not> p \<and> (\<exists>k r. heap s c = Some k \<and> val k = Some r)) \<and>
     (\<forall>c k. heap s c = Some k \<longrightarrow> wg_done k \<longrightarrow> val k \<noteq> None) \<and>
     (\<forall>t key. pcs s t \<noteq> Panicked key \<and> pcs s t \<noteq> Returned key None)"

text \<open>The function of a call ends by panicking.\<close>

definition panics :: "'r sf \<Rightarrow> 'r sf \<Rightarrow> bool" where
  "panics s s' \<longleftrightarrow> (\<exists>t key c. pcs s t = Running key c \<and> pcs s' t = Ending key c True)"

lemma calmD: "calm s \<Longrightarrow> pcs s t = Ending key c p \<or> pcs s t = Deleting key c p \<Longrightarrow> heap s c = Some k \<Longrightarrow> \<not> p \<and> val k \<noteq> None"
  unfolding calm_def by (metis option.distinct(1) option.inject)

lemma calm_start: "calm sf_start"
  by (simp add: calm_def sf_start_def)

lemma calm_step:
  assumes st: "sf_step s s'" and ok: "calm s" and no: "\<not> panics s s'"
  shows "calm s'"
  using st
proof cases
  case (lead t key c)
  then show ?thesis using ok by (fastforce simp: calm_def new_call_def)
next
  case (enter t key)
  then show ?thesis using ok by (auto simp: calm_def)
next
  case (join t key c)
  then show ?thesis using ok by (auto simp: calm_def)
next
  case (fn_returns t key c k r)
  then show ?thesis using ok by (auto simp: calm_def)
next
  case (fn_panics t key c)
  then have "pcs s' t = Ending key c True" by simp
  with fn_panics(2) no show ?thesis unfolding panics_def by blast
next
  case (release t key c p k)
  then have "\<not> p" "val k \<noteq> None" using calmD [OF ok, of t key c p k] by simp_all
  then show ?thesis using release ok by (auto simp: calm_def)
next
  case (delete t key c p k)
  then have "\<not> p" "val k \<noteq> None" using calmD [OF ok, of t key c p k] by simp_all
  then show ?thesis using delete ok by (auto simp: calm_def)
next
  case (wake t key c k)
  then have "val k \<noteq> None" using ok by (auto simp: calm_def)
  then show ?thesis using wake ok by (auto simp: calm_def)
qed

end
