(* ===== verification/Store.thy ===== *)
theory Store
  imports LruRuns Lru2Props
begin

text \<open>
  \<open>NewStore\<close> and the interface \<open>Store\<close> of \<open>store/store.go\<close>: a store is one of the two
  implementations, and an operation of the interface is that implementation's operation. What
  an operation reads from its surroundings (the clock, read twice, the size of a value, the
  order in which Go visits a map) is the argument \<open>env\<close>. Both implementations, and so the
  interface, keep the contract of \<open>Contract\<close>.
\<close>

datatype 'v Store = LruStore "'v lruCache" | Lru2Store "'v lru2Store"

record 'v env =
  sizes :: "'v \<Rightarrow> int"
  clock :: int
  clock' :: int
  visit :: "string list \<Rightarrow> string list"

definition env_ok :: "'v env \<Rightarrow> bool" where
  "env_ok E \<longleftrightarrow> visits (visit E) \<and> clock E \<le> clock' E"

definition NewStore :: "CacheType \<Rightarrow> Options \<Rightarrow> 'v Store" where
  "NewStore cacheType opts = (case cacheType of
     LRU2 \<Rightarrow> Lru2Store (newLRU2Cache opts)
   | LRU \<Rightarrow> LruStore (newLRUCache opts)
   | OtherType _ \<Rightarrow> LruStore (newLRUCache opts))"

definition store_Get :: "'v env \<Rightarrow> 'v Store \<Rightarrow> string \<Rightarrow> ('v Store \<times> ('v option \<times> bool) \<times> string option) option" where
  "store_Get E S key = (case S of
     LruStore c \<Rightarrow> do { (c, r, spawned) \<leftarrow> lru_Get c key (clock E); Some (LruStore c, r, spawned) }
   | Lru2Store s \<Rightarrow> do { (s, r) \<leftarrow> lru2_Get s key (clock E) (clock' E); Some (Lru2Store s, r, None) })"

definition store_SetWithExpiration :: "'v env \<Rightarrow> 'v Store \<Rightarrow> string \<Rightarrow> 'v option \<Rightarrow> int \<Rightarrow> 'v Store option" where
  "store_SetWithExpiration E S key value d = (case S of
     LruStore c \<Rightarrow> map_option LruStore (lru_SetWithExpiration (sizes E) (clock E) (clock' E) (visit E) c key value d)
   | Lru2Store s \<Rightarrow> map_option Lru2Store (lru2_SetWithExpiration s key value d (clock E)))"

definition store_Set :: "'v env \<Rightarrow> 'v Store \<Rightarrow> string \<Rightarrow> 'v option \<Rightarrow> 'v Store option" where
  "store_Set E S key value = (case S of
     LruStore c \<Rightarrow> map_option LruStore (lru_Set (sizes E) (clock E) (clock' E) (visit E) c key value)
   | Lru2Store s \<Rightarrow> map_option Lru2Store (lru2_Set s key value (clock E)))"

definition store_Delete :: "'v env \<Rightarrow> 'v Store \<Rightarrow> string \<Rightarrow> ('v Store \<times> bool) option" where
  "store_Delete E S key = (case S of
     LruStore c \<Rightarrow> Some (LruStore (fst (lru_Delete (sizes E) c key)), snd (lru_Delete (sizes E) c key))
   | Lru2Store s \<Rightarrow> do { (s, deleted) \<leftarrow> lru2_Delete s key; Some (Lru2Store s, deleted) })"

definition store_Clear :: "'v env \<Rightarrow> 'v Store \<Rightarrow> 'v Store option" where
  "store_Clear E S = (case S of
     LruStore c \<Rightarrow> Some (LruStore (lru_Clear (visit E) c))
   | Lru2Store s \<Rightarrow> map_option Lru2Store (lru2_Clear s))"

definition store_Len :: "'v Store \<Rightarrow> nat option" where
  "store_Len S = (case S of LruStore c \<Rightarrow> Some (lru_Len c) | Lru2Store s \<Rightarrow> lru2_Len s)"

definition store_Keys :: "'v env \<Rightarrow> 'v Store \<Rightarrow> string list option" where
  "store_Keys E S = (case S of LruStore c \<Rightarrow> Some (lru_Keys (visit E) c) | Lru2Store s \<Rightarrow> lru2_Keys s)"

definition store_GetValue :: "'v env \<Rightarrow> 'v Store \<Rightarrow> string \<Rightarrow> ('v option \<times> bool) option" where
  "store_GetValue E S key = (case S of
     LruStore c \<Rightarrow> Some (lru_GetValue c key (clock E))
   | Lru2Store s \<Rightarrow> lru2_GetValue s key (clock E))"

definition store_Close :: "'v Store \<Rightarrow> 'v Store option" where
  "store_Close S = (case S of
     LruStore c \<Rightarrow> map_option LruStore (lru_Close c)
   | Lru2Store s \<Rightarrow> Some (Lru2Store (lru2_Close s)))"

text \<open>The cleanup goroutines.\<close>

definition store_tick :: "'v env \<Rightarrow> 'v Store \<Rightarrow> 'v Store option" where
  "store_tick E S = (case S of
     LruStore c \<Rightarrow> Some (LruStore (lru_tick (sizes E) (clock E) (visit E) c))
   | Lru2Store s \<Rightarrow> map_option Lru2Store (lru2_tick s (clock E)))"

section \<open>The contract of \<open>lruCache\<close>\<close>

definition lru_can :: "'v lruCache \<Rightarrow> string \<Rightarrow> 'v option set" where
  "lru_can c k = {Some v | v. map_of (contents c) k = Some v}"

definition lru_op :: "('v \<Rightarrow> int) \<Rightarrow> 'v lruCache \<Rightarrow> 'v option store_op \<Rightarrow> 'v lruCache \<Rightarrow> bool" where
  "lru_op vlen c op c' \<longleftrightarrow> (case op of
     PutOp k v \<Rightarrow> \<exists>now now' ord d. visits ord \<and> lru_SetWithExpiration vlen now now' ord c k v d = Some c'
   | GetOp k \<Rightarrow> \<exists>now r. lru_Get c k now = Some (c', r)
   | DelOp k \<Rightarrow> c' = fst (lru_Delete vlen c k)
   | ClearOp \<Rightarrow> \<exists>ord. c' = lru_Clear ord c
   | TidyOp \<Rightarrow> \<exists>ord now. visits ord \<and> c' = lru_tick vlen now ord c)"

definition lru_reply :: "'v lruCache \<Rightarrow> string \<Rightarrow> 'v option \<Rightarrow> bool" where
  "lru_reply c k v \<longleftrightarrow> (\<exists>now c' sp. lru_Get c k now = Some (c', (v, True), sp)) \<or>
     (\<exists>now. lru_GetValue c k now = (v, True))"

lemma lru_can_mono:
  assumes "lru_shape c" and "lru_shape c'" and "set (contents c') \<subseteq> set (contents c)"
  shows "lru_can c' k \<subseteq> lru_can c k"
  using assms(3) map_of_is_SomeI [OF contents_distinct [OF assms(1)]]
  by (auto simp: lru_can_def dest!: map_of_SomeD)

lemma shrink_subset: "set (shrink vlen mx xs) \<subseteq> set xs"
  using shrink_suffix [of xs vlen mx] by (metis Un_iff set_append subsetI)

lemma shrink_filter_subset: "set (shrink vlen mx (filter P xs)) \<subseteq> set xs"
  using shrink_subset filter_is_subset by (rule subset_trans)

lemma set_contents_subset:
  "set (set_contents vlen now now' c key w d) \<subseteq> set (drop_key key (contents c) @ [(key, w)])"
proof (cases "map_of (contents c) key = None")
  case True
  let ?all = "contents c @ [(key, w)]"
  have eq: "set_contents vlen now now' c key w d = shrink vlen (maxBytes c)
      (filter (\<lambda>x. \<not> expired (new_expires c key now d) now' (fst x)) ?all)"
    using True unfolding set_contents_def by (simp only: if_False not_not simp_thms)
  have "set (set_contents vlen now now' c key w d) \<subseteq> set ?all"
    unfolding eq by (rule shrink_filter_subset)
  with True show ?thesis by (simp add: drop_key_None)
qed (simp add: set_contents_def)

lemma lru_put_law:
  assumes wf: "lru_wf vlen c" and o: "visits ord" and run: "lru_SetWithExpiration vlen now now' ord c key v d = Some c'"
  shows "lru_wf vlen c' \<and> (\<forall>k. lru_can c' k \<subseteq> remember (PutOp key v) (lru_can c) k)"
proof (cases v)
  case None
  then have c': "c' = fst (lru_Delete vlen c key)" using run by (simp add: lru_SetWithExpiration_def)
  show ?thesis
    using lru_Delete_effect [OF wf, of key] unfolding c' by (auto simp: evicting_def lru_can_def)
next
  case (Some w)
  have c': "lru_wf vlen c'" "contents c' = set_contents vlen now now' c key w d"
    by (rule lru_Set_effect [OF wf o, of now now' key w d], use run Some in simp)+
  have "set (contents c') \<subseteq> set (drop_key key (contents c) @ [(key, w)])" unfolding c'(2) by (rule set_contents_subset)
  moreover have "map_of (drop_key key (contents c) @ [(key, w)]) k = (if k = key then Some w else map_of (contents c) k)" for k
    by (auto simp: map_add_def split: option.split)
  moreover have "distinct (map fst (drop_key key (contents c) @ [(key, w)]))"
    using contents_distinct [OF wf_shape [OF wf]] by (auto simp: drop_key_def distinct_map_filter)
  ultimately have "map_of (contents c') k = Some x \<Longrightarrow> x = w \<and> k = key \<or> map_of (contents c) k = Some x" for k x
    by (metis (no_types, lifting) map_of_SomeD map_of_is_SomeI option.inject subsetD)
  then have "lru_can c' k \<subseteq> remember (PutOp key v) (lru_can c) k" for k
    by (fastforce simp: Some lru_can_def)
  with c'(1) show ?thesis by blast
qed

lemma lru_op_law:
  assumes wf: "lru_wf vlen c" and st: "lru_op vlen c op c'"
  shows "lru_wf vlen c' \<and> (\<forall>k. lru_can c' k \<subseteq> remember op (lru_can c) k)"
proof (cases op)
  case (PutOp key v)
  then obtain now now' ord d where "visits ord" "lru_SetWithExpiration vlen now now' ord c key v d = Some c'"
    using st by (auto simp: lru_op_def)
  from lru_put_law [OF wf this] show ?thesis unfolding PutOp .
next
  case (GetOp key)
  then obtain now r where run: "lru_Get c key now = Some (c', r)" using st by (auto simp: lru_op_def)
  have c': "lru_wf vlen c'" "contents c' = (case lru_find c key now of
        Some v \<Rightarrow> drop_key key (contents c) @ [(key, v)] | None \<Rightarrow> contents c)"
    by (rule lru_Get_effect [OF wf, of key now], use run in simp)+
  have "map_of (contents c') k = map_of (contents c) k" for k
    unfolding c'(2) by (auto simp: lru_find_def map_add_def split: option.split if_splits)
  with c'(1) show ?thesis by (simp add: GetOp lru_can_def)
next
  case (DelOp key)
  then have "c' = fst (lru_Delete vlen c key)" using st by (simp add: lru_op_def)
  then show ?thesis
    using lru_Delete_effect [OF wf, of key] by (auto simp: DelOp evicting_def lru_can_def)
next
  case ClearOp
  then obtain ord where "c' = lru_Clear ord c" using st by (auto simp: lru_op_def)
  then show ?thesis using lru_Clear_effect [OF wf] by (simp add: ClearOp lru_can_def)
next
  case TidyOp
  then obtain ord now where o: "visits ord" "c' = lru_tick vlen now ord c" using st by (auto simp: lru_op_def)
  have "lru_wf vlen c'" using lru_tick_effect(1) [OF wf o(1), of now] o(2) by (simp add: evicting_def)
  moreover have "set (contents c') \<subseteq> set (contents c)"
    unfolding o(2) lru_tick_effect(2) [OF wf o(1)]
    by (cases "closeCh_closed c") (simp_all only: if_True if_False shrink_filter_subset subset_refl)
  ultimately show ?thesis
    using lru_can_mono [OF wf_shape [OF wf] wf_shape] by (simp add: TidyOp)
qed

lemma lru_reply_can:
  assumes wf: "lru_wf vlen c" and "lru_reply c k v"
  shows "v \<in> lru_can c k"
  using assms(2) unfolding lru_reply_def
proof
  assume "\<exists>now c' sp. lru_Get c k now = Some (c', (v, True), sp)"
  then obtain now c' sp where r: "lru_Get c k now = Some (c', (v, True), sp)" by blast
  have "(case lru_find c k now of Some v \<Rightarrow> (Some v, True) | None \<Rightarrow> (None, False)) = (v, True)"
    by (rule lru_Get_effect [OF wf, of k now]) (use r in simp)
  then show ?thesis by (auto simp: lru_find_def lru_can_def split: option.splits if_splits)
next
  assume "\<exists>now. lru_GetValue c k now = (v, True)"
  then show ?thesis
    by (auto simp: lru_GetValue_value [OF wf_shape [OF wf]] lru_find_def lru_can_def split: option.splits if_splits)
qed

interpretation lruc: store_contract "lru_wf vlen" lru_can "lru_op vlen" lru_reply for vlen
  by unfold_locales (use lru_op_law lru_reply_can in blast)+

section \<open>The contract of the interface\<close>

definition store_inv :: "('v \<Rightarrow> int) \<Rightarrow> 'v Store \<Rightarrow> bool" where
  "store_inv vlen S = (case S of LruStore c \<Rightarrow> lru_wf vlen c | Lru2Store s \<Rightarrow> wf_store s)"

definition store_can :: "'v Store \<Rightarrow> string \<Rightarrow> 'v option set" where
  "store_can S = (case S of LruStore c \<Rightarrow> lru_can c | Lru2Store s \<Rightarrow> lru2_can s)"

definition store_step :: "('v \<Rightarrow> int) \<Rightarrow> 'v Store \<Rightarrow> 'v option store_op \<Rightarrow> 'v Store \<Rightarrow> bool" where
  "store_step vlen S op S' \<longleftrightarrow> (\<exists>E. env_ok E \<and> sizes E = vlen \<and> (case op of
     PutOp k v \<Rightarrow> store_Set E S k v = Some S' \<or> (\<exists>d. store_SetWithExpiration E S k v d = Some S')
   | GetOp k \<Rightarrow> \<exists>r. store_Get E S k = Some (S', r)
   | DelOp k \<Rightarrow> \<exists>b. store_Delete E S k = Some (S', b)
   | ClearOp \<Rightarrow> store_Clear E S = Some S'
   | TidyOp \<Rightarrow> store_tick E S = Some S'))"

definition store_reply :: "'v Store \<Rightarrow> string \<Rightarrow> 'v option \<Rightarrow> bool" where
  "store_reply S k v \<longleftrightarrow> (\<exists>E. env_ok E \<and>
     ((\<exists>S' sp. store_Get E S k = Some (S', (v, True), sp)) \<or> store_GetValue E S k = Some (v, True)))"

lemma store_step_lru:
  assumes "store_step vlen (LruStore c) op S'"
  shows "\<exists>c'. S' = LruStore c' \<and> lru_op vlen c op c'"
  using assms
  by (cases op;
    auto simp: store_step_def lru_op_def env_ok_def store_Set_def lru_Set_def store_SetWithExpiration_def
      store_Get_def store_Delete_def store_Clear_def store_tick_def bind_eq_Some_conv
      split: prod.splits; blast)

lemma store_step_lru2:
  assumes "store_step vlen (Lru2Store s) op S'"
  shows "\<exists>s'. S' = Lru2Store s' \<and> lru2_step s op s'"
  using assms
  by (cases op;
    auto simp: store_step_def lru2_step_def env_ok_def store_Set_def lru2_Set_def store_SetWithExpiration_def
      store_Get_def store_Delete_def store_Clear_def store_tick_def bind_eq_Some_conv; blast)

lemma store_reply_cases:
  "store_reply (LruStore c) k v \<Longrightarrow> lru_reply c k v"
  "store_reply (Lru2Store s) k v \<Longrightarrow> lru2_reply s k v"
  by (auto simp: store_reply_def lru_reply_def lru2_reply_def env_ok_def store_Get_def store_GetValue_def
      bind_eq_Some_conv)

interpretation storec: store_contract "store_inv vlen" store_can "store_step vlen" store_reply for vlen
proof (unfold_locales, goal_cases)
  case (1 S op S')
  then show ?case
    using lruc.step_inv lru2c.step_inv
    by (cases S) (auto simp: store_inv_def dest!: store_step_lru store_step_lru2)
next
  case (2 S op S' k)
  show ?case
  proof (cases S)
    case (LruStore c)
    then obtain c' where "S' = LruStore c'" "lru_op vlen c op c'" using store_step_lru 2(2) by blast
    with 2(1) LruStore show ?thesis
      using lruc.step_can [of vlen c op c' k] by (simp add: store_inv_def store_can_def)
  next
    case (Lru2Store s)
    then obtain s' where "S' = Lru2Store s'" "lru2_step s op s'" using store_step_lru2 2(2) by blast
    with 2(1) Lru2Store show ?thesis
      using lru2c.step_can [of s op s' k] by (simp add: store_inv_def store_can_def)
  qed
next
  case (3 S k v)
  then show ?case
    using lruc.reply_can [of vlen _ k v] lru2c.reply_can [of _ k v]
    by (cases S) (auto simp: store_inv_def store_can_def dest!: store_reply_cases)
qed

end
