(* ===== verification/Cache.thy ===== *)
theory Cache
  imports Store
begin

text \<open>
  \<open>byteview.go\<close> and \<open>cache.go\<close>: the wrapper of a store that creates it on first use, counts
  hits and misses and can be closed. A byte is a character, a \<open>[]byte\<close> a string. A nil store is
  \<open>None\<close>, and using it is a panic. The deletions that an expired \<open>Get\<close> of \<open>lruCache\<close> spawns are
  collected in \<open>spawned\<close>. Every method first reads the atomic flags and then works on the
  store; the second parts have their own definitions (\<open>\<dots>_locked\<close>), because \<open>Close\<close> can run in
  between.
\<close>

section \<open>Data\<close>

datatype ByteView = ByteView (b: string)

definition bv_Len :: "ByteView \<Rightarrow> int" where
  "bv_Len v = int (length (b v))"

text \<open>\<open>copy\<close> into a fresh slice of the same length.\<close>

definition cloneBytes :: "string \<Rightarrow> string" where
  "cloneBytes bs = map (\<lambda>i. bs ! i) [0..<length bs]"

definition ByteSLice :: "ByteView \<Rightarrow> string" where
  "ByteSLice v = cloneBytes (b v)"

definition bv_String :: "ByteView \<Rightarrow> string" where
  "bv_String v = b v"

lemma cloneBytes_id [simp]: "cloneBytes bs = bs"
  by (simp add: cloneBytes_def map_nth)

record CacheOptions =
  co_CacheType :: CacheType
  co_MaxBytes :: int
  co_BucketCount :: u16
  co_CapPerBucket :: u16
  co_Level2Cap :: u16
  co_CleanupTime :: int
  co_OnEvicted :: bool

definition DefaultCacheOptions :: CacheOptions where
  "DefaultCacheOptions = \<lparr>co_CacheType = LRU2, co_MaxBytes = 8 * 1024 * 1024, co_BucketCount = 16,
     co_CapPerBucket = 512, co_Level2Cap = 256, co_CleanupTime = minute, co_OnEvicted = False\<rparr>"

record Cache =
  cstore :: "ByteView Store option"
  copts :: CacheOptions
  hits :: int
  misses :: int
  initialized :: bool
  closed :: bool
  spawned :: "string list"

section \<open>Operations\<close>

definition NewCache :: "CacheOptions \<Rightarrow> Cache" where
  "NewCache opts = \<lparr>cstore = None, copts = opts, hits = 0, misses = 0, initialized = False,
     closed = False, spawned = []\<rparr>"

definition storeOpts :: "CacheOptions \<Rightarrow> Options" where
  "storeOpts o' = \<lparr>MaxBytes = co_MaxBytes o', BucketCount = co_BucketCount o',
     CapPerBucket = co_CapPerBucket o', Level2Cap = co_Level2Cap o',
     CleanupInterval = co_CleanupTime o', OnEvicted = co_OnEvicted o'\<rparr>"

definition ensureInitialized :: "Cache \<Rightarrow> Cache" where
  "ensureInitialized c =
     (if initialized c then c
      else c\<lparr>cstore := Some (NewStore (co_CacheType (copts c)) (storeOpts (copts c))), initialized := True\<rparr>)"

definition cache_Add_locked :: "ByteView env \<Rightarrow> Cache \<Rightarrow> string \<Rightarrow> ByteView \<Rightarrow> Cache option" where
  "cache_Add_locked E c key v = do {
     S \<leftarrow> cstore c;
     S \<leftarrow> store_Set E S key (Some v);
     Some (c\<lparr>cstore := Some S\<rparr>) }"

definition cache_Add :: "ByteView env \<Rightarrow> Cache \<Rightarrow> string \<Rightarrow> ByteView \<Rightarrow> Cache option" where
  "cache_Add E c key v =
     (if closed c then Some c else cache_Add_locked E (ensureInitialized c) key v)"

definition count_hit :: "Cache \<Rightarrow> Cache" where
  "count_hit c = c\<lparr>hits := wrap64 (hits c + 1)\<rparr>"

definition count_miss :: "Cache \<Rightarrow> Cache" where
  "count_miss c = c\<lparr>misses := wrap64 (misses c + 1)\<rparr>"

text \<open>A stored nil fails the type assertion and counts as a hit and a miss.\<close>

definition cache_Get_locked :: "ByteView env \<Rightarrow> Cache \<Rightarrow> string \<Rightarrow> (Cache \<times> ByteView \<times> bool) option" where
  "cache_Get_locked E c key = do {
     S \<leftarrow> cstore c;
     (S, (val, found), sp) \<leftarrow> store_Get E S key;
     let c = c\<lparr>cstore := Some S, spawned := spawned c @ (case sp of Some k \<Rightarrow> [k] | None \<Rightarrow> [])\<rparr>;
     if \<not> found then Some (count_miss c, ByteView [], False)
     else
       (let c = count_hit c
        in case val of
             Some bv \<Rightarrow> Some (c, bv, True)
           | None \<Rightarrow> Some (count_miss c, ByteView [], False)) }"

definition cache_Get :: "ByteView env \<Rightarrow> Cache \<Rightarrow> string \<Rightarrow> (Cache \<times> ByteView \<times> bool) option" where
  "cache_Get E c key =
     (if closed c then Some (c, ByteView [], False)
      else if \<not> initialized c then Some (count_miss c, ByteView [], False)
      else cache_Get_locked E c key)"

text \<open>\<open>time.Until\<close> reads the clock once more (\<open>until\<close>).\<close>

definition cache_AddWithExpiration :: "ByteView env \<Rightarrow> int \<Rightarrow> Cache \<Rightarrow> string \<Rightarrow> ByteView \<Rightarrow> int \<Rightarrow> Cache option" where
  "cache_AddWithExpiration E until c key v expirationTime =
     (if closed c then Some c
      else
        (let c = ensureInitialized c; expiration = expirationTime - until
         in if expiration \<le> 0 then Some c
            else do {
              S \<leftarrow> cstore c;
              S \<leftarrow> store_SetWithExpiration E S key (Some v) expiration;
              Some (c\<lparr>cstore := Some S\<rparr>) }))"

definition cache_Delete_locked :: "ByteView env \<Rightarrow> Cache \<Rightarrow> string \<Rightarrow> (Cache \<times> bool) option" where
  "cache_Delete_locked E c key = do {
     S \<leftarrow> cstore c;
     (S, deleted) \<leftarrow> store_Delete E S key;
     Some (c\<lparr>cstore := Some S\<rparr>, deleted) }"

definition cache_Delete :: "ByteView env \<Rightarrow> Cache \<Rightarrow> string \<Rightarrow> (Cache \<times> bool) option" where
  "cache_Delete E c key =
     (if closed c \<or> \<not> initialized c then Some (c, False) else cache_Delete_locked E c key)"

definition cache_Clear :: "ByteView env \<Rightarrow> Cache \<Rightarrow> Cache option" where
  "cache_Clear E c =
     (if closed c \<or> \<not> initialized c then Some c
      else do {
        S \<leftarrow> cstore c;
        S \<leftarrow> store_Clear E S;
        Some (c\<lparr>cstore := Some S, hits := 0, misses := 0\<rparr>) })"

definition cache_Len :: "Cache \<Rightarrow> nat option" where
  "cache_Len c =
     (if closed c \<or> \<not> initialized c then Some 0
      else do { S \<leftarrow> cstore c; store_Len S })"

definition cache_Close :: "Cache \<Rightarrow> Cache option" where
  "cache_Close c =
     (if closed c then Some c
      else
        (let c = c\<lparr>closed := True\<rparr>
         in case cstore c of
              Some S \<Rightarrow> do { S \<leftarrow> store_Close S; Some (c\<lparr>cstore := None, initialized := False\<rparr>) }
            | None \<Rightarrow> Some (c\<lparr>initialized := False\<rparr>)))"

definition cache_Keys :: "ByteView env \<Rightarrow> Cache \<Rightarrow> string list option" where
  "cache_Keys E c =
     (if closed c \<or> \<not> initialized c then Some []
      else do { S \<leftarrow> cstore c; store_Keys E S })"

definition cache_GetRawValue :: "ByteView env \<Rightarrow> Cache \<Rightarrow> string \<Rightarrow> (ByteView \<times> bool) option" where
  "cache_GetRawValue E c key =
     (if closed c \<or> \<not> initialized c then Some (ByteView [], False)
      else do {
        S \<leftarrow> cstore c;
        (val, ok) \<leftarrow> store_GetValue E S key;
        Some (if \<not> ok then (ByteView [], False)
              else case val of Some bv \<Rightarrow> (bv, True) | None \<Rightarrow> (ByteView [], False)) })"

definition cache_Stats :: "Cache \<Rightarrow> (string, stat) gomap option" where
  "cache_Stats c = do {
     let stats = [(''initialized'', StatBool (initialized c)), (''closed'', StatBool (closed c)),
                  (''hits'', StatInt (hits c)), (''misses'', StatInt (misses c))];
     if initialized c then do {
       n \<leftarrow> cache_Len c;
       let stats = AList.update ''size'' (StatInt (int n)) stats;
       let totalRequests = wrap64 (hits c + misses c);
       Some (AList.update ''hit_rate''
         (if totalRequests > 0 then StatDiv (hits c) [totalRequests] else StatDiv 0 []) stats) }
     else Some stats }"

text \<open>The store's own goroutines: a spawned deletion, and a cleanup tick.\<close>

definition cache_spawned :: "ByteView env \<Rightarrow> Cache \<Rightarrow> string \<Rightarrow> Cache option" where
  "cache_spawned E c key =
     (if key \<in> set (spawned c) then
        (case cstore c of
           Some S \<Rightarrow> do {
             (S, _) \<leftarrow> store_Delete E S key;
             Some (c\<lparr>cstore := Some S, spawned := remove1 key (spawned c)\<rparr>) }
         | None \<Rightarrow> Some (c\<lparr>spawned := remove1 key (spawned c)\<rparr>))
      else Some c)"

definition cache_tick :: "ByteView env \<Rightarrow> Cache \<Rightarrow> Cache option" where
  "cache_tick E c = (case cstore c of
     Some S \<Rightarrow> do { S \<leftarrow> store_tick E S; Some (c\<lparr>cstore := Some S\<rparr>) }
   | None \<Rightarrow> Some c)"

end
