(* ===== verification/StoreTotal.thy ===== *)
theory StoreTotal
  imports Store
begin

text \<open>
  No operation of the interface panics on a well-formed open store, and each keeps it well
  formed and open; a store is open as long as its \<open>Close\<close> has not run.
\<close>

definition store_open :: "'v Store \<Rightarrow> bool" where
  "store_open S = (case S of LruStore c \<Rightarrow> \<not> closeCh_closed c | Lru2Store s \<Rightarrow> True)"

definition store_ok :: "('v \<Rightarrow> int) \<Rightarrow> 'v Store \<Rightarrow> bool" where
  "store_ok vlen S \<longleftrightarrow> store_inv vlen S \<and> store_open S"

definition env_for :: "('v \<Rightarrow> int) \<Rightarrow> 'v env \<Rightarrow> bool" where
  "env_for vlen E \<longleftrightarrow> env_ok E \<and> sizes E = vlen"

lemma lru_open:
  assumes wf: "lru_wf vlen c"
  shows "lru_Get c key now = Some (c', r) \<Longrightarrow> closeCh_closed c' = closeCh_closed c"
    and "visits ord \<Longrightarrow> lru_SetWithExpiration vlen now now' ord c key v d = Some c' \<Longrightarrow>
      closeCh_closed c' = closeCh_closed c"
    and "closeCh_closed (fst (lru_Delete vlen c key)) = closeCh_closed c"
    and "visits ord \<Longrightarrow> closeCh_closed (lru_tick vlen now ord c) = closeCh_closed c"
    and "closeCh_closed (lru_Clear ord c) = closeCh_closed c"
proof -
  show "lru_Get c key now = Some (c', r) \<Longrightarrow> closeCh_closed c' = closeCh_closed c"
    by (auto simp: lru_Get_def bind_eq_Some_conv dest!: promote_cases split: get_result.splits)
  show d: "closeCh_closed (fst (lru_Delete vlen c key)) = closeCh_closed c" for key
    using lru_Delete_effect(1) [OF wf, of key] by (simp add: evicting_def)
  show "closeCh_closed (lru_tick vlen now ord c) = closeCh_closed c" if "visits ord"
    using lru_tick_effect(1) [OF wf that, of now] by (simp add: evicting_def)
  show "closeCh_closed (lru_Clear ord c) = closeCh_closed c"
    by (rule lru_Clear_effect(4) [OF wf])
  assume o: "visits ord" and run: "lru_SetWithExpiration vlen now now' ord c key v d = Some c'"
  show "closeCh_closed c' = closeCh_closed c"
  proof (cases v)
    case None
    then show ?thesis using run d by (auto simp: lru_SetWithExpiration_def)
  next
    case (Some w)
    show ?thesis by (rule lru_Set_effect [OF wf o, of now now' key w d]) (use run Some in simp)
  qed
qed

lemma lru_Set_total:
  assumes wf: "lru_wf vlen c" and o: "visits ord"
  shows "\<exists>c'. lru_SetWithExpiration vlen now now' ord c key v d = Some c'"
proof (cases v)
  case None
  then show ?thesis by (simp add: lru_SetWithExpiration_def)
next
  case (Some w)
  show ?thesis by (rule lru_Set_effect [OF wf o, of now now' key w d]) (use Some in blast)
qed

lemma store_step_ok:
  assumes ok: "store_ok vlen S" and st: "store_step vlen S op S'"
  shows "store_ok vlen S'"
proof (cases S)
  case (LruStore c)
  then obtain c' where c': "S' = LruStore c'" "lru_op vlen c op c'" using store_step_lru st by blast
  have wf: "lru_wf vlen c" "\<not> closeCh_closed c"
    using ok LruStore by (simp_all add: store_ok_def store_inv_def store_open_def)
  then have "\<not> closeCh_closed c'"
    using c'(2) lru_open [OF wf(1)] by (cases op) (auto simp: lru_op_def)
  then show ?thesis
    using c' storec.step_inv [of vlen S op S'] ok st by (simp add: store_ok_def store_open_def)
next
  case (Lru2Store s)
  then obtain s' where "S' = Lru2Store s'" using store_step_lru2 st by blast
  then show ?thesis
    using storec.step_inv [of vlen S op S'] ok st by (simp add: store_ok_def store_open_def)
qed

text \<open>No operation of the store panics for this key, value and duration.\<close>

definition answers_all :: "'v env \<Rightarrow> 'v Store \<Rightarrow> string \<Rightarrow> 'v option \<Rightarrow> int \<Rightarrow> bool" where
  "answers_all E S key v d \<longleftrightarrow> store_Get E S key \<noteq> None \<and> store_SetWithExpiration E S key v d \<noteq> None \<and>
     store_Set E S key v \<noteq> None \<and> store_Delete E S key \<noteq> None \<and> store_Clear E S \<noteq> None \<and> store_tick E S \<noteq> None \<and>
     store_Len S \<noteq> None \<and> store_Keys E S \<noteq> None \<and> store_GetValue E S key \<noteq> None \<and> store_Close S \<noteq> None"

lemma lru_answers:
  assumes wf: "lru_wf vlen c" and op: "\<not> closeCh_closed c" and e: "visits (visit E)" "sizes E = vlen"
  shows "answers_all E (LruStore c) key v d"
proof -
  obtain c' r where g: "lru_Get c key (clock E) = Some (c', r)"
    by (rule lru_Get_effect [OF wf, of key "clock E"])
  obtain c1 where s1: "lru_SetWithExpiration vlen (clock E) (clock' E) (visit E) c key v d = Some c1"
    using lru_Set_total [OF wf e(1)] by blast
  obtain c2 where s2: "lru_SetWithExpiration vlen (clock E) (clock' E) (visit E) c key v 0 = Some c2"
    using lru_Set_total [OF wf e(1)] by blast
  show ?thesis
    by (cases r) (simp add: answers_all_def store_Get_def g store_SetWithExpiration_def s1 store_Set_def lru_Set_def s2 e
        store_Delete_def store_Clear_def store_tick_def store_Len_def store_Keys_def store_GetValue_def
        store_Close_def lru_Close_def op)
qed

lemma lru2_answers:
  assumes wf: "wf_store s" and e: "clock E \<le> clock' E"
  shows "answers_all E (Lru2Store s) key v d"
proof -
  obtain s' where g: "lru2_Get s key (clock E) (clock' E) = Some (s', get_reply (lvl0 s key) (lvl1 s key) (clock E) (clock' E))"
    by (rule lru2_Get_effect [OF wf e, of key])
  obtain s1 where s1: "lru2_SetWithExpiration s key v d (clock E) = Some s1"
    by (rule lru2_Set_effect [OF wf])
  obtain s2 where s2: "lru2_SetWithExpiration s key v default_expiration (clock E) = Some s2"
    by (rule lru2_Set_effect [OF wf])
  obtain s3 where s3: "lru2_Delete s key = Some (s3, lvl0 s key \<noteq> None \<or> lvl1 s key \<noteq> None)"
    by (rule lru2_Delete_effect [OF wf])
  obtain s4 where s4: "lru2_Clear s = Some s4" by (rule lru2_Clear_effect [OF wf])
  obtain s6 where "lru2_cleanup s (clock E) = Some s6" by (rule lru2_cleanup_effect [OF wf])
  then obtain s5 where s5: "lru2_tick s (clock E) = Some s5" by (cases "ticking s") (auto simp: lru2_tick_def)
  obtain ks where ks: "lru2_Keys s = Some ks" by (rule lru2_Keys_value [OF wf])
  show ?thesis
    by (simp add: answers_all_def store_Get_def g store_SetWithExpiration_def s1 store_Set_def lru2_Set_def s2
        store_Delete_def s3 store_Clear_def s4 store_tick_def s5 store_Len_def lru2_Len_value [OF wf]
        store_Keys_def ks store_GetValue_def lru2_GetValue_effect [OF wf] store_Close_def)
qed

lemma store_total:
  assumes ok: "store_ok vlen S" and E: "env_for vlen E"
  shows "\<exists>S' r. store_Get E S key = Some (S', r)"
    and "\<exists>S'. store_SetWithExpiration E S key v d = Some S'"
    and "\<exists>S'. store_Set E S key v = Some S'"
    and "\<exists>S' d. store_Delete E S key = Some (S', d)"
    and "\<exists>S'. store_Clear E S = Some S'"
    and "\<exists>S'. store_tick E S = Some S'"
    and "\<exists>n. store_Len S = Some n"
    and "\<exists>ks. store_Keys E S = Some ks"
    and "\<exists>r. store_GetValue E S key = Some r"
    and "\<exists>S'. store_Close S = Some S'"
proof -
  have e: "visits (visit E)" "clock E \<le> clock' E" "sizes E = vlen"
    using E by (simp_all add: env_for_def env_ok_def)
  have "answers_all E S key v d"
    using ok lru_answers [OF _ _ e(1,3)] lru2_answers [OF _ e(2)]
    by (cases S) (auto simp: store_ok_def store_inv_def store_open_def)
  then show "\<exists>S' r. store_Get E S key = Some (S', r)" "\<exists>S'. store_SetWithExpiration E S key v d = Some S'"
    "\<exists>S'. store_Set E S key v = Some S'" "\<exists>S' d. store_Delete E S key = Some (S', d)" "\<exists>S'. store_Clear E S = Some S'"
    "\<exists>S'. store_tick E S = Some S'" "\<exists>n. store_Len S = Some n" "\<exists>ks. store_Keys E S = Some ks"
    "\<exists>r. store_GetValue E S key = Some r" "\<exists>S'. store_Close S = Some S'"
    by (auto simp: answers_all_def)
qed

lemma store_steps:
  assumes "env_for vlen E"
  shows "store_Get E S key = Some (S', r) \<Longrightarrow> store_step vlen S (GetOp key) S'"
    and "store_SetWithExpiration E S key v d = Some S' \<Longrightarrow> store_step vlen S (PutOp key v) S'"
    and "store_Set E S key v = Some S' \<Longrightarrow> store_step vlen S (PutOp key v) S'"
    and "store_Delete E S key = Some (S', x) \<Longrightarrow> store_step vlen S (DelOp key) S'"
    and "store_Clear E S = Some S' \<Longrightarrow> store_step vlen S ClearOp S'"
    and "store_tick E S = Some S' \<Longrightarrow> store_step vlen S TidyOp S'"
  using assms unfolding store_step_def env_for_def by (cases r; auto; metis)+

lemma store_never_nil:
  assumes "store_inv vlen S" and "env_for vlen E" and "store_Get E S key = Some (S', (v, True), sp)"
    and "None \<notin> store_can S key"
  shows "\<exists>w. v = Some w \<and> Some w \<in> store_can S key"
proof -
  have "store_reply S key v" using assms(2,3) by (auto simp: store_reply_def env_for_def)
  from storec.reply_can [OF assms(1) this] assms(4) show ?thesis by (cases v) auto
qed

definition opts_ok :: "Options \<Rightarrow> bool" where
  "opts_ok o' \<longleftrightarrow> unat (BucketCount o') \<le> 32768 \<and> CapPerBucket o' \<noteq> 65535 \<and> Level2Cap o' \<noteq> 65535"

lemma NewStore_ok:
  assumes "opts_ok o'"
  shows "store_ok vlen (NewStore t o')" and "store_can (NewStore t o' :: 'v Store) k = {}"
proof -
  have fresh: "\<not> closeCh_closed (newLRUCache o')" "lru_can (newLRUCache o' :: 'v lruCache) k = {}"
    by (simp_all add: newLRUCache_def lru_can_def contents_def)
  show "store_ok vlen (NewStore t o')"
    using lru2_start(1) [of o'] wf_newLRUCache [of vlen o'] assms fresh(1)
    by (cases t) (simp_all add: store_ok_def store_inv_def store_open_def NewStore_def opts_ok_def)
  show "store_can (NewStore t o' :: 'v Store) k = {}"
    using lru2_start(2) [of o' k, where 'v = 'v] assms fresh(2)
    by (cases t) (simp_all add: store_can_def NewStore_def opts_ok_def)
qed

end
