(* ===== verification/CacheProps.thy ===== *)
theory CacheProps
  imports Cache StoreTotal
begin

text \<open>
  The cache wrapper as a client of the store contract: it passes the contract on, and adds its
  own states (not initialized, open, closed). One call at a time it never panics; with \<open>Close\<close>
  running in between it can.
\<close>

definition cache_inv :: "Cache \<Rightarrow> bool" where
  "cache_inv c \<longleftrightarrow> (initialized c \<longleftrightarrow> cstore c \<noteq> None) \<and> (closed c \<longrightarrow> \<not> initialized c) \<and>
     (\<forall>S. cstore c = Some S \<longrightarrow> store_ok bv_Len S \<and> (\<forall>k. None \<notin> store_can S k)) \<and>
     opts_ok (storeOpts (copts c))"

definition cache_can :: "Cache \<Rightarrow> string \<Rightarrow> ByteView set" where
  "cache_can c k = (case cstore c of None \<Rightarrow> {} | Some S \<Rightarrow> {v. Some v \<in> store_can S k})"

definition cache_step :: "Cache \<Rightarrow> ByteView store_op \<Rightarrow> Cache \<Rightarrow> bool" where
  "cache_step c op c' \<longleftrightarrow> (\<exists>E. env_for bv_Len E \<and> (case op of
     PutOp k v \<Rightarrow> cache_Add E c k v = Some c' \<or>
       (\<exists>until t. cache_AddWithExpiration E until c k v t = Some c')
   | GetOp k \<Rightarrow> \<exists>v ok. cache_Get E c k = Some (c', v, ok)
   | DelOp k \<Rightarrow> (\<exists>d. cache_Delete E c k = Some (c', d)) \<or>
       k \<in> set (spawned c) \<and> cache_spawned E c k = Some c'
   | ClearOp \<Rightarrow> cache_Clear E c = Some c' \<or> cache_Close c = Some c'
   | TidyOp \<Rightarrow> cache_tick E c = Some c'))"

definition cache_reply :: "Cache \<Rightarrow> string \<Rightarrow> ByteView \<Rightarrow> bool" where
  "cache_reply c k v \<longleftrightarrow> (\<exists>E. env_for bv_Len E \<and>
     ((\<exists>c'. cache_Get E c k = Some (c', v, True)) \<or> cache_GetRawValue E c k = Some (v, True)))"

lemma remember_lift:
  "{v. Some v \<in> remember (map_store_op Some op) W k} = remember op (\<lambda>k. {v. Some v \<in> W k}) k"
  by (cases op) auto

lemma remember_nil: "(\<And>k. None \<notin> W k) \<Longrightarrow> None \<notin> remember (map_store_op Some op) W k"
  by (cases op) auto

lemma store_moves:
  assumes inv: "cache_inv c" and S: "cstore c = Some S" and st: "store_step bv_Len S (map_store_op Some op) S'"
    and c': "cstore c' = Some S'" "initialized c' = initialized c" "closed c' = closed c" "copts c' = copts c"
  shows "cache_inv c' \<and> (\<forall>k. cache_can c' k \<subseteq> remember op (cache_can c) k)"
proof -
  have ok: "store_ok bv_Len S" and nil: "\<And>k. None \<notin> store_can S k" using inv S by (auto simp: cache_inv_def)
  have can: "store_can S' k \<subseteq> remember (map_store_op Some op) (store_can S) k" for k
    using storec.step_can [OF _ st] ok by (simp add: store_ok_def)
  then have "None \<notin> store_can S' k" for k using remember_nil [of "store_can S", OF nil, of op k] by blast
  then have "cache_inv c'"
    using inv S c' store_step_ok [OF ok st] by (auto simp: cache_inv_def)
  moreover have "cache_can c' k \<subseteq> remember op (cache_can c) k" for k
  proof -
    have "cache_can c = (\<lambda>k. {v. Some v \<in> store_can S k})" by (simp add: cache_can_def S fun_eq_iff)
    then have "remember op (cache_can c) k = {v. Some v \<in> remember (map_store_op Some op) (store_can S) k}"
      by (simp add: remember_lift)
    then show ?thesis using can [of k] by (auto simp: cache_can_def c'(1))
  qed
  ultimately show ?thesis by blast
qed

lemma ensure_inv:
  assumes inv: "cache_inv c" and op: "\<not> closed c"
  shows "cache_inv (ensureInitialized c)" and "cache_can (ensureInitialized c) = cache_can c"
    and "\<exists>S. cstore (ensureInitialized c) = Some S" and "closed (ensureInitialized c) = closed c"
    and "copts (ensureInitialized c) = copts c" and "initialized (ensureInitialized c)"
proof -
  let ?S = "NewStore (co_CacheType (copts c)) (storeOpts (copts c)) :: ByteView Store"
  have "cache_inv (ensureInitialized c) \<and> cache_can (ensureInitialized c) = cache_can c \<and>
    (\<exists>S. cstore (ensureInitialized c) = Some S) \<and> closed (ensureInitialized c) = closed c \<and>
    copts (ensureInitialized c) = copts c \<and> initialized (ensureInitialized c)"
  proof (cases "initialized c")
    case True
    then have "ensureInitialized c = c" by (simp add: ensureInitialized_def)
    moreover have "\<exists>S. cstore c = Some S" using True inv by (auto simp: cache_inv_def)
    ultimately show ?thesis using True inv by simp
  next
    case False
    have o: "opts_ok (storeOpts (copts c))" and none: "cstore c = None"
      using inv False by (simp_all add: cache_inv_def)
    have ok: "store_ok bv_Len ?S" and new: "store_can ?S k = {}" for k
      by (rule NewStore_ok [OF o])+
    have en: "ensureInitialized c = c\<lparr>cstore := Some ?S, initialized := True\<rparr>"
      using False by (simp add: ensureInitialized_def)
    have "cache_inv (c\<lparr>cstore := Some ?S, initialized := True\<rparr>)"
      using ok new o op by (simp add: cache_inv_def)
    moreover have "cache_can (c\<lparr>cstore := Some ?S, initialized := True\<rparr>) = cache_can c"
      by (simp add: cache_can_def fun_eq_iff none new)
    ultimately show ?thesis unfolding en by simp
  qed
  then show "cache_inv (ensureInitialized c)" and "cache_can (ensureInitialized c) = cache_can c"
    and "\<exists>S. cstore (ensureInitialized c) = Some S" and "closed (ensureInitialized c) = closed c"
    and "copts (ensureInitialized c) = copts c" and "initialized (ensureInitialized c)" by simp_all
qed

lemma no_store_can: "cstore c = None \<Longrightarrow> cache_can c k = {}"
  by (simp add: cache_can_def)

lemma idle_inv:
  assumes "cache_inv c" and "cstore c' = cstore c" "initialized c' = initialized c" "closed c' = closed c"
    "copts c' = copts c"
  shows "cache_inv c'" and "cache_can c' = cache_can c"
  using assms by (auto simp: cache_inv_def cache_can_def fun_eq_iff)

lemma cache_Add_law:
  assumes inv: "cache_inv c" and E: "env_for bv_Len E"
  shows "\<exists>c'. cache_Add E c key v = Some c' \<and> cache_inv c' \<and> closed c' = closed c \<and>
    (\<forall>k. cache_can c' k \<subseteq> remember (PutOp key v) (cache_can c) k)"
proof (cases "closed c")
  case True
  then show ?thesis using inv by (auto simp: cache_Add_def)
next
  case False
  note en = ensure_inv [OF inv False]
  obtain S where S: "cstore (ensureInitialized c) = Some S" using en(3) by blast
  have ok: "store_ok bv_Len S" using en(1) S by (simp add: cache_inv_def)
  obtain S' where S': "store_Set E S key (Some v) = Some S'" using store_total(3) [OF ok E] by blast
  let ?c = "(ensureInitialized c)\<lparr>cstore := Some S'\<rparr>"
  have "store_step bv_Len S (map_store_op Some (PutOp key v)) S'" using store_steps(3) [OF E S'] by simp
  from store_moves [OF en(1) S this, of ?c]
  have "cache_inv ?c \<and> (\<forall>k. cache_can ?c k \<subseteq> remember (PutOp key v) (cache_can c) k)"
    using en(2) by simp
  then show ?thesis using False S S' en(4) by (simp add: cache_Add_def cache_Add_locked_def)
qed

lemma cache_AddWithExpiration_law:
  assumes inv: "cache_inv c" and E: "env_for bv_Len E"
  shows "\<exists>c'. cache_AddWithExpiration E until c key v t = Some c' \<and> cache_inv c' \<and> closed c' = closed c \<and>
    (\<forall>k. cache_can c' k \<subseteq> remember (PutOp key v) (cache_can c) k)"
proof (cases "closed c")
  case True
  then show ?thesis using inv by (auto simp: cache_AddWithExpiration_def)
next
  case False
  note en = ensure_inv [OF inv False]
  show ?thesis
  proof (cases "t - until \<le> 0")
    case True
    then show ?thesis using False en by (auto simp: cache_AddWithExpiration_def Let_def)
  next
    case pos: False
    obtain S where S: "cstore (ensureInitialized c) = Some S" using en(3) by blast
    have ok: "store_ok bv_Len S" using en(1) S by (simp add: cache_inv_def)
    obtain S' where S': "store_SetWithExpiration E S key (Some v) (t - until) = Some S'"
      using store_total(2) [OF ok E] by blast
    let ?c = "(ensureInitialized c)\<lparr>cstore := Some S'\<rparr>"
    have "store_step bv_Len S (map_store_op Some (PutOp key v)) S'" using store_steps(2) [OF E S'] by simp
    from store_moves [OF en(1) S this, of ?c]
    have "cache_inv ?c \<and> (\<forall>k. cache_can ?c k \<subseteq> remember (PutOp key v) (cache_can c) k)"
      using en(2) by simp
    then show ?thesis using False pos S S' en(4) by (simp add: cache_AddWithExpiration_def Let_def)
  qed
qed

lemma cache_Get_law:
  assumes inv: "cache_inv c" and E: "env_for bv_Len E"
  shows "\<exists>c' v ok. cache_Get E c key = Some (c', v, ok) \<and> cache_inv c' \<and> closed c' = closed c \<and>
    (\<forall>k. cache_can c' k \<subseteq> cache_can c k) \<and>
    (ok \<longrightarrow> v \<in> cache_can c key) \<and>
    (hits c', misses c') = (if closed c then (hits c, misses c)
      else if ok then (wrap64 (hits c + 1), misses c) else (hits c, wrap64 (misses c + 1)))"
proof (cases "closed c \<or> \<not> initialized c")
  case True
  then show ?thesis
    using inv idle_inv [OF inv, of "count_miss c"]
    by (cases "closed c") (auto simp: cache_Get_def count_miss_def)
next
  case False
  then obtain S where S: "cstore c = Some S" using inv by (auto simp: cache_inv_def)
  have ok: "store_ok bv_Len S" and nil: "\<And>k. None \<notin> store_can S k" using inv S by (auto simp: cache_inv_def)
  obtain S' val found sp where S': "store_Get E S key = Some (S', (val, found), sp)"
    using store_total(1) [OF ok E, of key] by fastforce
  have st: "store_step bv_Len S (map_store_op Some (GetOp key)) S'" using store_steps(1) [OF E S'] by simp
  have mv: "cache_inv c'" "\<And>k. cache_can c' k \<subseteq> cache_can c k"
    if "cstore c' = Some S'" "initialized c' = initialized c" "closed c' = closed c" "copts c' = copts c" for c'
    using store_moves [OF inv S st that] by simp_all
  let ?sp = "spawned c @ (case sp of Some k \<Rightarrow> [k] | None \<Rightarrow> [])"
  let ?c = "c\<lparr>cstore := Some S', spawned := ?sp\<rparr>"
  show ?thesis
  proof (cases found)
    case True
    have inv': "store_inv bv_Len S" using ok by (simp add: store_ok_def)
    have "store_Get E S key = Some (S', (val, True), sp)" using S' True by simp
    then obtain w where w: "val = Some w" "Some w \<in> store_can S key"
      using store_never_nil [OF inv' E, of key S' val sp] nil [of key] by blast
    have "w \<in> cache_can c key" using w(2) by (simp add: cache_can_def S)
    then show ?thesis
      using False S S' True w mv [of "count_hit ?c"]
      by (simp add: cache_Get_def cache_Get_locked_def Let_def) (auto simp: count_hit_def)
  next
    case nf: False
    then show ?thesis
      using False S S' mv [of "count_miss ?c"]
      by (simp add: cache_Get_def cache_Get_locked_def Let_def) (auto simp: count_miss_def)
  qed
qed

lemma cache_Delete_law:
  assumes inv: "cache_inv c" and E: "env_for bv_Len E"
  shows "\<exists>c' d. cache_Delete E c key = Some (c', d) \<and> cache_inv c' \<and> closed c' = closed c \<and>
    (\<forall>k. cache_can c' k \<subseteq> remember (DelOp key) (cache_can c) k)"
proof (cases "closed c \<or> \<not> initialized c")
  case True
  then have "cstore c = None" using inv by (auto simp: cache_inv_def)
  then show ?thesis using True inv by (auto simp: cache_Delete_def no_store_can)
next
  case False
  then obtain S where S: "cstore c = Some S" using inv by (auto simp: cache_inv_def)
  have ok: "store_ok bv_Len S" using inv S by (auto simp: cache_inv_def)
  obtain S' d where S': "store_Delete E S key = Some (S', d)" using store_total(4) [OF ok E] by blast
  have "store_step bv_Len S (map_store_op Some (DelOp key)) S'" using store_steps(4) [OF E S'] by simp
  from store_moves [OF inv S this, of "c\<lparr>cstore := Some S'\<rparr>"] show ?thesis
    using False S S' by (simp add: cache_Delete_def cache_Delete_locked_def)
qed

lemma cache_spawned_law:
  assumes inv: "cache_inv c" and E: "env_for bv_Len E" and k: "key \<in> set (spawned c)"
  shows "\<exists>c'. cache_spawned E c key = Some c' \<and> cache_inv c' \<and> closed c' = closed c \<and>
    (\<forall>k. cache_can c' k \<subseteq> remember (DelOp key) (cache_can c) k)"
proof (cases "cstore c")
  case None
  then show ?thesis
    using k idle_inv [OF inv, of "c\<lparr>spawned := remove1 key (spawned c)\<rparr>"]
    by (auto simp: cache_spawned_def no_store_can)
next
  case S: (Some S)
  have ok: "store_ok bv_Len S" using inv S by (auto simp: cache_inv_def)
  obtain S' d where S': "store_Delete E S key = Some (S', d)" using store_total(4) [OF ok E] by blast
  have "store_step bv_Len S (map_store_op Some (DelOp key)) S'" using store_steps(4) [OF E S'] by simp
  from store_moves [OF inv S this, of "c\<lparr>cstore := Some S', spawned := remove1 key (spawned c)\<rparr>"]
  show ?thesis using k S S' by (simp add: cache_spawned_def)
qed

lemma cache_Clear_law:
  assumes inv: "cache_inv c" and E: "env_for bv_Len E"
  shows "\<exists>c'. cache_Clear E c = Some c' \<and> cache_inv c' \<and> closed c' = closed c \<and> (\<forall>k. cache_can c' k = {})"
proof (cases "closed c \<or> \<not> initialized c")
  case True
  then have "cstore c = None" using inv by (auto simp: cache_inv_def)
  then show ?thesis using True inv by (auto simp: cache_Clear_def no_store_can)
next
  case False
  then obtain S where S: "cstore c = Some S" using inv by (auto simp: cache_inv_def)
  have ok: "store_ok bv_Len S" using inv S by (auto simp: cache_inv_def)
  obtain S' where S': "store_Clear E S = Some S'" using store_total(5) [OF ok E] by blast
  have "store_step bv_Len S (map_store_op Some ClearOp) S'" using store_steps(5) [OF E S'] by simp
  from store_moves [OF inv S this, of "c\<lparr>cstore := Some S', hits := 0, misses := 0\<rparr>"] show ?thesis
    using False S S' by (simp add: cache_Clear_def)
qed

lemma cache_Close_law:
  assumes inv: "cache_inv c"
  shows "\<exists>c'. cache_Close c = Some c' \<and> cache_inv c' \<and> closed c' \<and> (\<forall>k. cache_can c' k = {})"
proof (cases "closed c")
  case True
  then have "cstore c = None" using inv by (auto simp: cache_inv_def)
  then show ?thesis using True inv by (auto simp: cache_Close_def no_store_can)
next
  case False
  show ?thesis
  proof (cases "cstore c")
    case None
    then show ?thesis using False inv by (auto simp: cache_Close_def Let_def cache_inv_def no_store_can)
  next
    case (Some S)
    have ok: "store_ok bv_Len S" using inv Some by (auto simp: cache_inv_def)
    obtain S' where "store_Close S = Some S'"
      using store_total(10) [OF ok, of "\<lparr>sizes = bv_Len, clock = 0, clock' = 0, visit = id\<rparr>"]
      by (auto simp: env_for_def env_ok_def visits_def)
    then show ?thesis using Some False inv by (auto simp: cache_Close_def Let_def cache_inv_def no_store_can)
  qed
qed

lemma cache_tick_law:
  assumes inv: "cache_inv c" and E: "env_for bv_Len E"
  shows "\<exists>c'. cache_tick E c = Some c' \<and> cache_inv c' \<and> closed c' = closed c \<and> (\<forall>k. cache_can c' k \<subseteq> cache_can c k)"
proof (cases "cstore c")
  case None
  then show ?thesis using inv by (simp add: cache_tick_def)
next
  case S: (Some S)
  have ok: "store_ok bv_Len S" using inv S by (auto simp: cache_inv_def)
  obtain S' where S': "store_tick E S = Some S'" using store_total(6) [OF ok E] by blast
  have "store_step bv_Len S (map_store_op Some TidyOp) S'" using store_steps(6) [OF E S'] by simp
  from store_moves [OF inv S this, of "c\<lparr>cstore := Some S'\<rparr>"] show ?thesis
    using S S' by (simp add: cache_tick_def)
qed

lemma cache_reply_law:
  assumes inv: "cache_inv c" and "cache_reply c k v"
  shows "v \<in> cache_can c k"
proof -
  obtain E where E: "env_for bv_Len E"
    and "(\<exists>c'. cache_Get E c k = Some (c', v, True)) \<or> cache_GetRawValue E c k = Some (v, True)"
    using assms(2) by (auto simp: cache_reply_def)
  then show ?thesis
  proof (elim disjE)
    assume "\<exists>c'. cache_Get E c k = Some (c', v, True)"
    then show ?thesis using cache_Get_law [OF inv E, of k] by auto
  next
    assume g: "cache_GetRawValue E c k = Some (v, True)"
    then obtain S where S: "cstore c = Some S" "store_GetValue E S k = Some (Some v, True)"
      by (auto simp: cache_GetRawValue_def bind_eq_Some_conv split: if_splits option.splits)
    then have "store_reply S k (Some v)" using E by (auto simp: store_reply_def env_for_def)
    moreover have "store_inv bv_Len S" using inv S by (simp add: cache_inv_def store_ok_def)
    ultimately have "Some v \<in> store_can S k" using storec.reply_can by blast
    then show ?thesis using S by (simp add: cache_can_def)
  qed
qed

lemma cache_step_law:
  assumes inv: "cache_inv c" and st: "cache_step c op c'"
  shows "cache_inv c' \<and> (\<forall>k. cache_can c' k \<subseteq> remember op (cache_can c) k)"
proof -
  obtain E where E: "env_for bv_Len E" using st by (auto simp: cache_step_def)
  show ?thesis
  proof (cases op)
    case (PutOp k v)
    then show ?thesis
      using st cache_Add_law [OF inv] cache_AddWithExpiration_law [OF inv] unfolding cache_step_def
      by (simp del: remember.simps) (metis option.inject)
  next
    case (GetOp k)
    then obtain E v ok where "env_for bv_Len E" "cache_Get E c k = Some (c', v, ok)"
      using st by (auto simp: cache_step_def)
    then show ?thesis using cache_Get_law [OF inv, of E k] GetOp by auto
  next
    case (DelOp k)
    then show ?thesis
      using st cache_Delete_law [OF inv] cache_spawned_law [OF inv] unfolding cache_step_def
      by (simp del: remember.simps) (metis option.inject prod.inject)
  next
    case ClearOp
    then show ?thesis
      using st cache_Clear_law [OF inv] cache_Close_law [OF inv] unfolding cache_step_def
      by simp (metis bot.extremum option.inject)
  next
    case TidyOp
    then show ?thesis
      using st cache_tick_law [OF inv] unfolding cache_step_def by simp (metis option.inject)
  qed
qed

interpretation cachec: store_contract cache_inv cache_can cache_step cache_reply
  by unfold_locales (use cache_step_law cache_reply_law in blast)+

lemma NewCache_inv:
  assumes "opts_ok (storeOpts o')"
  shows "cache_inv (NewCache o')" and "cache_can (NewCache o') k = {}"
  using assms by (simp_all add: cache_inv_def cache_can_def NewCache_def)

lemma default_opts_ok: "opts_ok (storeOpts (DefaultCacheOptions\<lparr>co_MaxBytes := n\<rparr>))"
  by (simp add: opts_ok_def storeOpts_def DefaultCacheOptions_def)

section \<open>Properties\<close>

definition env0 :: "ByteView env" where
  "env0 = \<lparr>sizes = bv_Len, clock = 0, clock' = 0, visit = id\<rparr>"

lemma env0_for: "env_for bv_Len env0"
  by (simp add: env_for_def env_ok_def env0_def visits_def)

lemma default_inv: "cache_inv (NewCache DefaultCacheOptions)"
  by (rule NewCache_inv) (simp add: opts_ok_def storeOpts_def DefaultCacheOptions_def)

text \<open>Whatever calls a cache has answered one after the other (additions with and without expiry,
  lookups, deletions, clears, closing, and the store's own goroutines in between), no further
  call panics, and a value it returns was added under that key since the key was last deleted.\<close>
theorem cache_runs_authentic:
  assumes "opts_ok (storeOpts opts)" and "runs cache_step (NewCache opts) ops c" and "env_for bv_Len E"
  shows "cache_Add E c key v \<noteq> None \<and> cache_Get E c key \<noteq> None \<and> cache_Delete E c key \<noteq> None \<and>
    cache_Clear E c \<noteq> None \<and> cache_Close c \<noteq> None \<and>
    (cache_Get E c key = Some (c', w, True) \<longrightarrow> w \<in> history ops key)"
proof -
  note st = NewCache_inv [OF assms(1)]
  have inv: "cache_inv c" using cachec.runs_inv [OF assms(2) st(1)] .
  have "w \<in> history ops key" if "cache_Get E c key = Some (c', w, True)"
  proof -
    have "cache_reply c key w" using that assms(3) by (auto simp: cache_reply_def)
    then show ?thesis using cachec.authentic [OF assms(2) st] by blast
  qed
  then show ?thesis
    using cache_Add_law [OF inv assms(3), of key v] cache_Get_law [OF inv assms(3), of key]
      cache_Delete_law [OF inv assms(3), of key] cache_Clear_law [OF inv assms(3)] cache_Close_law [OF inv]
    by (auto simp del: remember.simps)
qed

theorem cache_runs_authentic_witness:
  "\<exists>c. cache_Add env0 (NewCache DefaultCacheOptions) ''k'' (ByteView ''v'') = Some c \<and> cache_Get env0 c ''k'' \<noteq> None"
proof -
  obtain c where c: "cache_Add env0 (NewCache DefaultCacheOptions) ''k'' (ByteView ''v'') = Some c"
    using cache_Add_law [OF default_inv env0_for] by blast
  then have "cache_step (NewCache DefaultCacheOptions) (PutOp ''k'' (ByteView ''v'')) c"
    using env0_for by (auto simp: cache_step_def)
  from runs_snoc [where step = cache_step, OF runs_Nil this]
  have r: "runs cache_step (NewCache DefaultCacheOptions) [PutOp ''k'' (ByteView ''v'')] c" by simp
  have "opts_ok (storeOpts DefaultCacheOptions)"
    by (simp add: opts_ok_def storeOpts_def DefaultCacheOptions_def)
  from cache_runs_authentic [OF this r env0_for] c show ?thesis by blast
qed

text \<open>Every Get of an open cache counts exactly once, as a hit when it returns a value and as a miss
  otherwise; a closed cache counts nothing and returns nothing.\<close>
theorem cache_Get_counts:
  assumes "cache_inv c" and "env_for bv_Len E" and "cache_Get E c key = Some (c', v, found)"
  shows "(hits c', misses c') = (if closed c then (hits c, misses c)
      else if found then (wrap64 (hits c + 1), misses c) else (hits c, wrap64 (misses c + 1))) \<and>
    (closed c \<longrightarrow> \<not> found)"
  using cache_Get_law [OF assms(1,2), of key] assms(3) by (auto simp: cache_Get_def)

theorem cache_Get_counts_witness:
  "\<exists>c'. cache_Get env0 (NewCache DefaultCacheOptions) ''k'' = Some (c', ByteView [], False) \<and> misses c' = 1"
proof -
  have g: "cache_Get env0 (NewCache DefaultCacheOptions) ''k'' =
      Some (count_miss (NewCache DefaultCacheOptions), ByteView [], False)"
    by (simp add: cache_Get_def NewCache_def)
  from cache_Get_counts [OF default_inv env0_for g] have "misses (count_miss (NewCache DefaultCacheOptions)) = 1"
    by (simp add: NewCache_def wrap64_def)
  with g show ?thesis by blast
qed

text \<open>A value put into the two-level store with the lifetime \<open>d\<close> is found until the lifetime is over.\<close>

lemma two_level_put:
  assumes "cache_inv c" and "\<not> closed c" and "co_CacheType (copts c) = LRU2"
    and "\<And>S. cstore c = Some S \<Longrightarrow> \<exists>s. S = Lru2Store s"
    and "env_for bv_Len E'" and "0 \<le> clock E" and "0 < d" and "clock E + d < 2 ^ 63" and "clock' E' < clock E + d"
  shows "\<exists>s s1 c2. cstore (ensureInitialized c) = Some (Lru2Store s) \<and>
    lru2_SetWithExpiration s key (Some v) d (clock E) = Some s1 \<and>
    cache_Get E' ((ensureInitialized c)\<lparr>cstore := Some (Lru2Store s1)\<rparr>) key = Some (c2, v, True)"
proof -
  note en = ensure_inv [OF assms(1,2)]
  obtain S where S: "cstore (ensureInitialized c) = Some S" using en(3) by blast
  obtain s where s: "S = Lru2Store s"
    using S assms(3,4) by (auto simp: ensureInitialized_def NewStore_def split: if_splits)
  have wf: "wf_store s" using en(1) S s by (simp add: cache_inv_def store_ok_def store_inv_def)
  have e: "expires_at (clock E) d = clock E + d" using assms(6-8) by (simp add: expires_at_def wrap64_id)
  obtain s1 where s1: "lru2_SetWithExpiration s key (Some v) d (clock E) = Some s1" "wf_store s1"
    "lvl0 s1 key = Some (Some v, clock E + d)"
    by (rule lru2_Set_effect [OF wf, of key "Some v" d "clock E"]) (use e assms(6,7) in simp)
  have E': "clock E' \<le> clock' E'" using assms(5) by (simp add: env_for_def env_ok_def)
  obtain s2 where s2: "lru2_Get s1 key (clock E') (clock' E') = Some (s2, (Some v, True))"
    by (rule lru2_Get_effect [OF s1(2) E', of key]) (use s1(3) E' assms(9) in \<open>simp add: get_reply_def\<close>)
  have "\<exists>c2. cache_Get E' ((ensureInitialized c)\<lparr>cstore := Some (Lru2Store s1)\<rparr>) key = Some (c2, v, True)"
    using s2 en assms(2) by (simp add: cache_Get_def cache_Get_locked_def store_Get_def Let_def)
  with S s s1(1) show ?thesis by blast
qed

text \<open>Add makes the value visible: with the two-level store, as by default, the next Get of the key
  returns it as long as the lifetime of 9999999999999999 nanoseconds is not over.\<close>
theorem cache_Add_Get:
  assumes "cache_inv c" and "\<not> closed c" and "co_CacheType (copts c) = LRU2"
    and "\<And>S. cstore c = Some S \<Longrightarrow> \<exists>s. S = Lru2Store s"
    and "env_for bv_Len E" and "env_for bv_Len E'"
    and "0 \<le> clock E" and "clock E < 2 ^ 62" and "clock' E' < clock E + default_expiration"
  shows "\<exists>c1 c2. cache_Add E c key v = Some c1 \<and> cache_Get E' c1 key = Some (c2, v, True)"
proof -
  have d: "0 < default_expiration" "clock E + default_expiration < 2 ^ 63"
    using assms(8) by (simp_all add: default_expiration_def)
  from two_level_put [OF assms(1-4,6,7) d assms(9), of key v] assms(2)
  show ?thesis by (auto simp: cache_Add_def cache_Add_locked_def store_Set_def lru2_Set_def)
qed

theorem cache_Add_Get_witness:
  "\<exists>c1 c2. cache_Add env0 (NewCache DefaultCacheOptions) ''k'' (ByteView ''v'') = Some c1 \<and>
     cache_Get env0 c1 ''k'' = Some (c2, ByteView ''v'', True)"
proof -
  have "\<not> closed (NewCache DefaultCacheOptions)" "co_CacheType (copts (NewCache DefaultCacheOptions)) = LRU2"
    by (simp_all add: NewCache_def DefaultCacheOptions_def)
  from cache_Add_Get [OF default_inv this _ env0_for env0_for, of "''k''" "ByteView ''v''"] show ?thesis
    by (simp add: NewCache_def env0_def default_expiration_def)
qed

text \<open>The atomic flags do not protect the store: a Get that has passed the checks of the flags
  before Close runs uses a nil store afterwards and panics, and an Add that has passed the check
  creates a new store in the closed cache, which no later Close stops.\<close>
theorem cache_Close_race:
  "\<exists>c c'. runs cache_step (NewCache DefaultCacheOptions) [PutOp ''k'' (ByteView ''v'')] c \<and>
     initialized c \<and> \<not> closed c \<and> cache_Close c = Some c' \<and>
     cache_Get_locked env0 c' ''k'' = None \<and> cache_Delete_locked env0 c' ''k'' = None \<and>
     (\<exists>c''. cache_Add_locked env0 (ensureInitialized c') ''j'' (ByteView ''w'') = Some c'' \<and>
       closed c'' \<and> cstore c'' \<noteq> None \<and> cache_Close c'' = Some c'')"
proof -
  let ?c0 = "NewCache DefaultCacheOptions"
  have op0: "\<not> closed ?c0" by (simp add: NewCache_def)
  obtain c where c: "cache_Add env0 ?c0 ''k'' (ByteView ''v'') = Some c" "cache_inv c" "closed c = closed ?c0"
    using cache_Add_law [OF default_inv env0_for] by blast
  have "initialized c"
    using c(1) ensure_inv(6) [OF default_inv op0] op0
    by (auto simp: cache_Add_def cache_Add_locked_def bind_eq_Some_conv)
  have "cache_step ?c0 (PutOp ''k'' (ByteView ''v'')) c" using c(1) env0_for by (auto simp: cache_step_def)
  from runs_snoc [where step = cache_step, OF runs_Nil this]
  have r: "runs cache_step ?c0 [PutOp ''k'' (ByteView ''v'')] c" by simp
  obtain c' where c': "cache_Close c = Some c'" "cache_inv c'" "closed c'"
    using cache_Close_law [OF c(2)] by blast
  then have none: "cstore c' = None" "\<not> initialized c'" by (auto simp: cache_inv_def)
  let ?S = "NewStore (co_CacheType (copts c')) (storeOpts (copts c'))"
  have en: "ensureInitialized c' = c'\<lparr>cstore := Some ?S, initialized := True\<rparr>"
    using none by (simp add: ensureInitialized_def)
  have "store_ok bv_Len ?S" using c'(2) by (intro NewStore_ok) (simp add: cache_inv_def)
  from store_total(3) [OF this env0_for, of "''j''" "Some (ByteView ''w'')"]
  obtain S' where "store_Set env0 ?S ''j'' (Some (ByteView ''w'')) = Some S'" by blast
  then have "\<exists>c''. cache_Add_locked env0 (ensureInitialized c') ''j'' (ByteView ''w'') = Some c'' \<and>
       closed c'' \<and> cstore c'' \<noteq> None \<and> cache_Close c'' = Some c''"
    using c'(3) unfolding en by (simp add: cache_Add_locked_def cache_Close_def)
  with r \<open>initialized c\<close> c(3) op0 c' none show ?thesis
    by (intro exI [of _ c] exI [of _ c']) (simp add: cache_Get_locked_def cache_Delete_locked_def)
qed

end
