(* ===== verification/Bloom.thy ===== *)
theory Bloom
  imports Prelude
begin

text \<open>
  The Bloom filter of \<open>bloomfilter/bloom.go\<close>: an array of 64-bit words addressed by two FNV-1a
  hashes, with the arithmetic of the positions at 64 bits. \<open>None\<close> is a panic: a division by
  \<open>m = 0\<close> or an index outside the array. \<open>New\<close> computes \<open>m\<close> and \<open>k\<close> in floating point; these two
  formulas are the arguments \<open>bits_of\<close> and \<open>hashes_of\<close>.
\<close>

unbundle bit_operations_syntax

section \<open>Definitions\<close>

record BloomFilter =
  bits :: "u64 list"
  bf_m :: u64
  bf_k :: u64
  bf_count :: u64

definition New :: "(u64 \<Rightarrow> 'r \<Rightarrow> u64) \<Rightarrow> (u64 \<Rightarrow> u64 \<Rightarrow> u64) \<Rightarrow> u64 \<Rightarrow> 'r \<Rightarrow> BloomFilter" where
  "New bits_of hashes_of expectedItems falsePositiveRate =
     (let m = bits_of expectedItems falsePositiveRate;
          k = hashes_of m expectedItems;
          k = (if k = 0 then 1 else k);
          numUint64 = (m + 63) div 64
      in \<lparr>bits = replicate (unat numUint64) 0, bf_m = m, bf_k = k, bf_count = 0\<rparr>)"

text \<open>\<open>hash/fnv\<close>: FNV-1a with 64 bits.\<close>

definition fnv64 :: "string \<Rightarrow> u64" where
  "fnv64 data = foldl (\<lambda>h c. (h XOR of_char c) * 1099511628211) 14695981039346656037 data"

definition hashPair :: "string \<Rightarrow> u64 \<times> u64" where
  "hashPair key = (fnv64 (key @ [CHR 0x00]), fnv64 (key @ [CHR 0x01]))"

text \<open>\<open>pos := (h1 + i*h2) % bf.m\<close>, a division by zero for \<open>m = 0\<close>.\<close>

definition position :: "BloomFilter \<Rightarrow> u64 \<times> u64 \<Rightarrow> u64 \<Rightarrow> u64 option" where
  "position bf h i = (if bf_m bf = 0 then None else Some ((fst h + i * snd h) mod bf_m bf))"

function add_from :: "BloomFilter \<Rightarrow> u64 \<times> u64 \<Rightarrow> u64 \<Rightarrow> BloomFilter option" where
  "add_from bf h i =
     (if i < bf_k bf then do {
        pos \<leftarrow> position bf h i;
        let idx = pos div 64;
        let bt = pos mod 64;
        w \<leftarrow> slice_get (bits bf) (unat idx);
        ws \<leftarrow> slice_set (bits bf) (unat idx) (w OR push_bit (unat bt) 1);
        add_from (bf\<lparr>bits := ws\<rparr>) h (i + 1) }
      else Some bf)"
  by pat_completeness auto
termination
proof (relation "measure (\<lambda>(bf, h, i). unat (bf_k bf) - unat i)", goal_cases)
  case (2 bf h i)
  then have "unat i < unat (bf_k bf)" by (simp add: word_less_nat_alt)
  moreover have "unat (i + 1) = Suc (unat i)" using 2(1) by (rule unat_succ)
  ultimately show ?case by simp
qed simp

declare add_from.simps [simp del]

definition bloom_Add :: "BloomFilter \<Rightarrow> string \<Rightarrow> BloomFilter option" where
  "bloom_Add bf key = do {
     bf \<leftarrow> add_from bf (hashPair key) 0;
     Some (bf\<lparr>bf_count := bf_count bf + 1\<rparr>) }"

function contains_from :: "BloomFilter \<Rightarrow> u64 \<times> u64 \<Rightarrow> u64 \<Rightarrow> bool option" where
  "contains_from bf h i =
     (if i < bf_k bf then do {
        pos \<leftarrow> position bf h i;
        let idx = pos div 64;
        let bt = pos mod 64;
        w \<leftarrow> slice_get (bits bf) (unat idx);
        if w AND push_bit (unat bt) 1 = 0 then Some False else contains_from bf h (i + 1) }
      else Some True)"
  by pat_completeness auto
termination
proof (relation "measure (\<lambda>(bf, h, i). unat (bf_k bf) - unat i)", goal_cases)
  case (2 bf h i)
  then have "unat i < unat (bf_k bf)" by (simp add: word_less_nat_alt)
  moreover have "unat (i + 1) = Suc (unat i)" using 2(1) by (rule unat_succ)
  ultimately show ?case by simp
qed simp

declare contains_from.simps [simp del]

definition Contains :: "BloomFilter \<Rightarrow> string \<Rightarrow> bool option" where
  "Contains bf key = contains_from bf (hashPair key) 0"

definition Count :: "BloomFilter \<Rightarrow> u64" where
  "Count bf = bf_count bf"

definition Reset :: "BloomFilter \<Rightarrow> BloomFilter" where
  "Reset bf = bf\<lparr>bits := map (\<lambda>_. 0) (bits bf), bf_count := 0\<rparr>"

definition popcount :: "u64 \<Rightarrow> int" where
  "popcount x = int (length (filter (bit x) [0..<64]))"

definition bloom_Stats :: "BloomFilter \<Rightarrow> (string, stat) gomap" where
  "bloom_Stats bf =
     (let ones = foldl (\<lambda>ones w. ones + word_of_int (popcount w)) (0 :: u64) (bits bf)
      in [(''bits'', StatInt (uint (bf_m bf))), (''hash_funcs'', StatInt (uint (bf_k bf))),
          (''items'', StatInt (uint (bf_count bf))),
          (''fill_rate'', if bf_m bf > 0 then StatDiv (uint ones) [uint (bf_m bf)] else StatDiv 0 [])])"

section \<open>The set of bits\<close>

text \<open>The array holds every position below \<open>m\<close>, and \<open>m\<close> is not 0.\<close>

definition bloom_ok :: "BloomFilter \<Rightarrow> bool" where
  "bloom_ok bf \<longleftrightarrow> bf_m bf \<noteq> 0 \<and> unat (bf_m bf) \<le> 64 * length (bits bf)"

definition bitset :: "BloomFilter \<Rightarrow> nat set" where
  "bitset bf = {p. p div 64 < length (bits bf) \<and> bit (bits bf ! (p div 64)) (p mod 64)}"

definition pos :: "BloomFilter \<Rightarrow> u64 \<times> u64 \<Rightarrow> u64 \<Rightarrow> nat" where
  "pos bf h i = unat ((fst h + i * snd h) mod bf_m bf)"

definition positions :: "BloomFilter \<Rightarrow> string \<Rightarrow> nat set" where
  "positions bf key = pos bf (hashPair key) ` {i. i < bf_k bf}"

lemma pos_bound:
  assumes "bloom_ok bf"
  shows "pos bf h i div 64 < length (bits bf)"
proof -
  have "pos bf h i < unat (bf_m bf)"
    using assms by (simp add: pos_def bloom_ok_def unat_mod unat_gt_0)
  then have "pos bf h i < length (bits bf) * 64" using assms by (simp add: bloom_ok_def)
  then show ?thesis by (simp add: less_mult_imp_div_less)
qed

lemma position_pos: "bloom_ok bf \<Longrightarrow> position bf h i = Some ((fst h + i * snd h) mod bf_m bf)"
  by (simp add: position_def bloom_ok_def)

lemma unat_split:
  "unat ((x :: u64) div 64) = unat x div 64" "unat ((x :: u64) mod 64) = unat x mod 64"
  by (simp_all add: unat_div unat_mod)

definition light :: "BloomFilter \<Rightarrow> nat \<Rightarrow> BloomFilter" where
  "light bf p = bf\<lparr>bits := (bits bf)[p div 64 := bits bf ! (p div 64) OR push_bit (p mod 64) 1]\<rparr>"

lemma light_frame [simp]:
  "bf_m (light bf p) = bf_m bf" "bf_k (light bf p) = bf_k bf" "bf_count (light bf p) = bf_count bf"
  "length (bits (light bf p)) = length (bits bf)" "pos (light bf p) = pos bf"
  "bloom_ok (light bf p) = bloom_ok bf"
  by (simp_all add: light_def pos_def fun_eq_iff bloom_ok_def)

lemma bitset_light:
  assumes "p div 64 < length (bits bf)"
  shows "bitset (light bf p) = insert p (bitset bf)"
proof (intro set_eqI iffI)
  fix q assume "q \<in> bitset (light bf p)"
  then have q: "q div 64 < length (bits bf)" "bit (bits (light bf p) ! (q div 64)) (q mod 64)"
    by (simp_all add: bitset_def)
  show "q \<in> insert p (bitset bf)"
  proof (cases "q div 64 = p div 64 \<and> q mod 64 = p mod 64")
    case True
    then have "q = p" by (metis div_mult_mod_eq)
    then show ?thesis by simp
  next
    case False
    then show ?thesis
      using q assms by (cases "q div 64 = p div 64") (auto simp: light_def bitset_def bit_or_iff bit_push_bit_iff bit_1_iff bit_exp_iff)
  qed
next
  fix q assume q: "q \<in> insert p (bitset bf)"
  have "p \<in> bitset (light bf p)"
    using assms by (simp add: light_def bitset_def bit_or_iff bit_push_bit_iff bit_1_iff bit_exp_iff)
  moreover have "q \<in> bitset (light bf p)" if "q \<in> bitset bf"
    using that assms by (cases "q div 64 = p div 64") (auto simp: light_def bitset_def bit_or_iff)
  ultimately show "q \<in> bitset (light bf p)" using q by blast
qed

lemma add_from_step:
  assumes "bloom_ok bf"
  shows "add_from bf h i = (if i < bf_k bf then add_from (light bf (pos bf h i)) h (i + 1) else Some bf)"
  using pos_bound [OF assms, of h i]
  by (subst add_from.simps)
    (simp add: position_pos [OF assms] unat_split slice_get_def slice_set_def light_def pos_def)

lemma contains_from_step:
  assumes "bloom_ok bf"
  shows "contains_from bf h i =
    (if i < bf_k bf then if pos bf h i \<in> bitset bf then contains_from bf h (i + 1) else Some False else Some True)"
  using pos_bound [OF assms, of h i]
  by (subst contains_from.simps)
    (simp add: position_pos [OF assms] unat_split slice_get_def pos_def bitset_def bit_iff_and_push_bit_not_eq_0)

lemma from_split:
  assumes "i < (k :: u64)"
  shows "{j. i \<le> j \<and> j < k} = insert i {j. i + 1 \<le> j \<and> j < k}"
  using assms unat_succ [OF assms]
  by (auto simp: word_le_nat_alt word_less_nat_alt Suc_le_eq) (metis le_neq_implies_less word_unat_eq_iff)

lemma add_from_result:
  "bloom_ok bf \<Longrightarrow> \<exists>bf'. add_from bf h i = Some bf' \<and> bf_m bf' = bf_m bf \<and> bf_k bf' = bf_k bf \<and>
     bf_count bf' = bf_count bf \<and> length (bits bf') = length (bits bf) \<and>
     bitset bf' = bitset bf \<union> pos bf h ` {j. i \<le> j \<and> j < bf_k bf}"
proof (induction "unat (bf_k bf) - unat i" arbitrary: bf i)
  case 0
  then have "\<not> i < bf_k bf" by (simp add: word_less_nat_alt)
  with 0 show ?case by (subst add_from_step) auto
next
  case (Suc n)
  then have i: "i < bf_k bf" by (simp add: word_less_nat_alt)
  let ?b = "light bf (pos bf h i)"
  have "n = unat (bf_k ?b) - unat (i + 1)" using Suc.hyps(2) unat_succ [OF i] by simp
  from Suc.hyps(1) [OF this] Suc.prems obtain bf' where bf': "add_from ?b h (i + 1) = Some bf'"
    "bf_m bf' = bf_m bf" "bf_k bf' = bf_k bf" "bf_count bf' = bf_count bf" "length (bits bf') = length (bits bf)"
    "bitset bf' = bitset ?b \<union> pos bf h ` {j. i + 1 \<le> j \<and> j < bf_k bf}"
    by auto
  have "bitset bf' = bitset bf \<union> pos bf h ` {j. i \<le> j \<and> j < bf_k bf}"
    unfolding bf'(6) bitset_light [OF pos_bound [OF Suc.prems]] from_split [OF i] by auto
  with bf' i show ?case by (subst add_from_step [OF Suc.prems]) simp
qed

lemma contains_from_result:
  assumes "bloom_ok bf"
  shows "contains_from bf h i = Some (pos bf h ` {j. i \<le> j \<and> j < bf_k bf} \<subseteq> bitset bf)"
proof (induction "unat (bf_k bf) - unat i" arbitrary: i)
  case 0
  then have "\<not> i < bf_k bf" by (simp add: word_less_nat_alt)
  then have "{j. i \<le> j \<and> j < bf_k bf} = {}" by auto
  then have "pos bf h ` {j. i \<le> j \<and> j < bf_k bf} \<subseteq> bitset bf" by (simp only: image_empty empty_subsetI)
  moreover have "contains_from bf h i = Some True"
    using \<open>\<not> i < bf_k bf\<close> by (subst contains_from_step [OF assms]) simp
  ultimately show ?case by simp
next
  case (Suc n)
  then have i: "i < bf_k bf" by (simp add: word_less_nat_alt)
  have "n = unat (bf_k bf) - unat (i + 1)" using Suc.hyps(2) unat_succ [OF i] by simp
  from Suc.hyps(1) [OF this] i show ?case
    by (subst contains_from_step [OF assms]) (simp add: from_split [OF i])
qed

lemma from_zero: "{j. 0 \<le> j \<and> j < bf_k bf} = {i. i < bf_k bf}"
  by simp

lemma bloom_Add_result:
  assumes "bloom_ok bf"
  obtains bf' where "bloom_Add bf key = Some bf'" "bloom_ok bf'" "positions bf' = positions bf"
    "bitset bf' = bitset bf \<union> positions bf key" "bf_count bf' = bf_count bf + 1"
    "bf_m bf' = bf_m bf" "bf_k bf' = bf_k bf"
proof -
  obtain b1 where b1: "add_from bf (hashPair key) 0 = Some b1" "bf_m b1 = bf_m bf" "bf_k b1 = bf_k bf"
     "bf_count b1 = bf_count bf" "length (bits b1) = length (bits bf)" "bitset b1 = bitset bf \<union> positions bf key"
    using add_from_result [OF assms, of "hashPair key" 0] unfolding from_zero positions_def by blast
  let ?b = "b1\<lparr>bf_count := bf_count b1 + 1\<rparr>"
  have "bitset ?b = bitset b1" by (simp add: bitset_def)
  then show ?thesis
    using b1 assms
    by (intro that [of ?b]) (simp_all add: bloom_Add_def bloom_ok_def positions_def pos_def fun_eq_iff)
qed

lemma Contains_result: "bloom_ok bf \<Longrightarrow> Contains bf key = Some (positions bf key \<subseteq> bitset bf)"
  using contains_from_result [of bf "hashPair key" 0] by (simp add: Contains_def positions_def)

lemma Reset_result:
  assumes "bloom_ok bf"
  shows "bloom_ok (Reset bf)" and "bitset (Reset bf) = {}" and "positions (Reset bf) = positions bf"
  using assms by (auto simp: Reset_def bloom_ok_def bitset_def positions_def pos_def fun_eq_iff)

lemma New_ok:
  assumes "0 < bits_of n r" and "unat (bits_of n r) \<le> 2 ^ 64 - 64"
  shows "bloom_ok (New bits_of hashes_of n r)" and "bitset (New bits_of hashes_of n r) = {}"
    and "0 < bf_k (New bits_of hashes_of n r)"
proof -
  have "unat (bits_of n r + 63) = unat (bits_of n r) + 63"
    using assms(2) by (simp add: unat_word_ariths)
  then have "unat ((bits_of n r + 63) div 64) = (unat (bits_of n r) + 63) div 64" by (simp add: unat_split)
  then show "bloom_ok (New bits_of hashes_of n r)"
    using assms(1) by (simp add: New_def Let_def bloom_ok_def word_gt_0)
  show "bitset (New bits_of hashes_of n r) = {}" by (auto simp: New_def Let_def bitset_def)
  show "0 < bf_k (New bits_of hashes_of n r)" by (simp add: New_def Let_def word_gt_0)
qed

section \<open>The contract of a membership filter\<close>

text \<open>What the cache group relies on: a key that was put in stays in, and nothing panics.\<close>

fun put_all :: "('s \<Rightarrow> string \<Rightarrow> 's option) \<Rightarrow> 's \<Rightarrow> string list \<Rightarrow> 's option" where
  "put_all put_in s [] = Some s"
| "put_all put_in s (k # ks) = do { s \<leftarrow> put_in s k; put_all put_in s ks }"

locale membership =
  fixes good :: "'s \<Rightarrow> bool"
    and put_in :: "'s \<Rightarrow> string \<Rightarrow> 's option"
    and is_in :: "'s \<Rightarrow> string \<Rightarrow> bool option"
  assumes put_law: "good s \<Longrightarrow> \<exists>s'. put_in s k = Some s' \<and> good s' \<and> is_in s' k = Some True \<and>
      (\<forall>k'. is_in s k' = Some True \<longrightarrow> is_in s' k' = Some True)"
    and in_law: "good s \<Longrightarrow> is_in s k \<noteq> None"
begin

lemma put_all_law:
  "good s \<Longrightarrow> \<exists>s'. put_all put_in s ks = Some s' \<and> good s' \<and> (\<forall>k \<in> set ks. is_in s' k = Some True) \<and>
     (\<forall>k. is_in s k = Some True \<longrightarrow> is_in s' k = Some True)"
proof (induction ks arbitrary: s)
  case (Cons k ks)
  obtain s1 where s1: "put_in s k = Some s1" "good s1" "is_in s1 k = Some True"
      "\<forall>k'. is_in s k' = Some True \<longrightarrow> is_in s1 k' = Some True"
    using put_law [OF Cons.prems] by blast
  obtain s2 where "put_all put_in s1 ks = Some s2" "good s2" "\<forall>k \<in> set ks. is_in s2 k = Some True"
      "\<forall>k'. is_in s1 k' = Some True \<longrightarrow> is_in s2 k' = Some True"
    using Cons.IH [OF s1(2)] by blast
  with s1 show ?case by auto
qed simp

end

interpretation bloom: membership bloom_ok bloom_Add Contains
proof (unfold_locales, goal_cases)
  case (1 bf k)
  obtain bf' where "bloom_Add bf k = Some bf'" "bloom_ok bf'" "positions bf' = positions bf"
    "bitset bf' = bitset bf \<union> positions bf k"
    by (rule bloom_Add_result [OF 1])
  then show ?case using 1 by (intro exI [of _ bf']) (auto simp: Contains_result)
next
  case (2 bf k)
  then show ?case by (simp add: Contains_result)
qed

section \<open>Properties\<close>

text \<open>C22: A filter with at least one bit has no false negatives: after any sequence of additions none of
  which panics, Contains answers true for every key added.\<close>
theorem bloom_no_false_negative:
  assumes "0 < bits_of n r" and "unat (bits_of n r) \<le> 2 ^ 64 - 64"
  shows "\<exists>bf. put_all bloom_Add (New bits_of hashes_of n r) ks = Some bf \<and>
    (\<forall>k \<in> set ks. Contains bf k = Some True) \<and> (\<forall>k. Contains bf k \<noteq> None)"
proof -
  have ok: "bloom_ok (New bits_of hashes_of n r)"
    using New_ok(1) [of bits_of n r hashes_of] assms by blast
  obtain bf where bf: "put_all bloom_Add (New bits_of hashes_of n r) ks = Some bf" "bloom_ok bf"
      "\<forall>k \<in> set ks. Contains bf k = Some True"
    using bloom.put_all_law [OF ok, of ks] by blast
  with bloom.in_law [OF bf(2)] show ?thesis by blast
qed

theorem bloom_no_false_negative_witness:
  "\<exists>bf. put_all bloom_Add (New (\<lambda>n r. 96) (\<lambda>m n. 7) 10 ()) [''a'', ''b''] = Some bf \<and> Contains bf ''a'' = Some True"
  using bloom_no_false_negative [of "\<lambda>n r. 96" 10 "()" "\<lambda>m n. 7" "[''a'', ''b'']"] by auto

lemma put_all_bits:
  "bloom_ok bf \<Longrightarrow> put_all bloom_Add bf ks = Some bf' \<Longrightarrow>
   bloom_ok bf' \<and> positions bf' = positions bf \<and> bitset bf' = bitset bf \<union> \<Union> (positions bf ` set ks) \<and>
   bf_count bf' = bf_count bf + of_nat (length ks)"
proof (induction ks arbitrary: bf)
  case (Cons k ks)
  obtain b1 where b1: "bloom_Add bf k = Some b1" "bloom_ok b1" "positions b1 = positions bf"
    "bitset b1 = bitset bf \<union> positions bf k" "bf_count b1 = bf_count bf + 1"
    by (rule bloom_Add_result [OF Cons.prems(1)])
  then show ?case using Cons.IH [OF b1(2)] Cons.prems(2) by auto
qed simp

text \<open>C23: The filter answers exactly by positions: after the additions of ks to a new filter, Contains k
  holds if and only if each of the k-hash positions of k is a position of some added key, the
  counter is the number of additions modulo 2^64, and after Reset no key is contained.\<close>
theorem bloom_exact:
  assumes "0 < bits_of n r" and "unat (bits_of n r) \<le> 2 ^ 64 - 64"
    and "put_all bloom_Add (New bits_of hashes_of n r) ks = Some bf"
  shows "Contains bf key = Some (positions bf key \<subseteq> \<Union> (positions bf ` set ks)) \<and>
    Count bf = of_nat (length ks) \<and> Contains (Reset bf) key = Some False \<and> Count (Reset bf) = 0"
proof -
  let ?n = "New bits_of hashes_of n r"
  note new = New_ok [of bits_of n r hashes_of, OF assms(1,2)]
  note r = put_all_bits [OF new(1) assms(3)]
  have "0 < bf_k bf"
  proof -
    have "put_all bloom_Add b ks = Some b' \<Longrightarrow> bloom_ok b \<Longrightarrow> bf_k b' = bf_k b" for b b'
    proof (induction ks arbitrary: b)
      case (Cons k ks)
      obtain b1 where "bloom_Add b k = Some b1" "bloom_ok b1" "bf_k b1 = bf_k b"
        by (rule bloom_Add_result [OF Cons.prems(2)])
      then show ?case using Cons by auto
    qed simp
    from this [OF assms(3) new(1)] new(3) show ?thesis by simp
  qed
  then have "positions bf key \<noteq> {}" by (auto simp: positions_def)
  moreover have "bf_count ?n = 0" by (simp add: New_def Let_def)
  ultimately show ?thesis
    using r new(2) Reset_result [of bf]
    by (simp add: Contains_result Count_def) (simp add: Reset_def)
qed

lemma one_added: "\<exists>bf. put_all bloom_Add (New (\<lambda>n r. 96) (\<lambda>m n. 7) 10 ()) [''a''] = Some bf"
  using bloom.put_all_law [OF New_ok(1) [of "\<lambda>n r. 96" 10 "()" "\<lambda>m n. 7"], of "[''a'']"] by auto

theorem bloom_exact_witness:
  "\<exists>bf. put_all bloom_Add (New (\<lambda>n r. 96) (\<lambda>m n. 7) 10 ()) [''a''] = Some bf \<and> Count bf = 1 \<and>
     Contains (Reset bf) ''a'' = Some False"
proof -
  obtain bf where bf: "put_all bloom_Add (New (\<lambda>n r. 96) (\<lambda>m n. 7) 10 ()) [''a''] = Some bf"
    using one_added by blast
  from bloom_exact [OF _ _ this, of "''a''"] have "Count bf = 1 \<and> Contains (Reset bf) ''a'' = Some False" by simp
  with bf show ?thesis by blast
qed

text \<open>New does not reject the sizes for which its formula gives 0 bits (for example 0 expected items):
  every Add and every Contains of such a filter divides by zero.\<close>
theorem bloom_no_bits:
  assumes "bits_of n r = 0"
  shows "bloom_Add (New bits_of hashes_of n r) key = None \<and> Contains (New bits_of hashes_of n r) key = None"
proof -
  let ?b = "New bits_of hashes_of n r"
  have b: "bf_m ?b = 0" "0 < bf_k ?b" using assms by (simp_all add: New_def Let_def word_gt_0)
  have "add_from ?b (hashPair key) 0 = None"
    by (subst add_from.simps) (simp add: b position_def)
  moreover have "contains_from ?b (hashPair key) 0 = None"
    by (subst contains_from.simps) (simp add: b position_def)
  ultimately show ?thesis by (simp add: bloom_Add_def Contains_def)
qed

theorem bloom_no_bits_witness: "Contains (New (\<lambda>n r. n * 10) (\<lambda>m n. 7) 0 ()) ''a'' = None"
  using bloom_no_bits [of "\<lambda>n r. n * 10" 0 "()" "\<lambda>m n. 7" "''a''"] by simp

end
