(* ===== verification/Group.thy ===== *)
theory Group
  imports CacheProps Bloom
begin

text \<open>
  \<open>group.go\<close>, one cache group: its main cache, its Bloom filter, its peers, the queue of
  synchronisation tasks with its four workers, and its counters. What an operation asks of its
  surroundings is the argument \<open>world\<close>: the clock readings, the data source (\<open>getter\<close>), the answers
  of the peer picker and the replies of the peers. A nil dereference, a failed type assertion or
  a division by zero is \<open>None\<close>. The calls to peers are returned as a list of \<open>rpc\<close>s in their
  order. \<open>NewGroup\<close> and \<open>WithCacheOptions\<close> always set \<open>mainCache\<close>, so the tests for a nil main
  cache never succeed and are left out.
\<close>

section \<open>Data\<close>

datatype 'e group_error = ErrKeyRequired | ErrValueRequired | ErrKeyNotFound | ErrGroupClosed | FailedToGet 'e

text \<open>The two marks that a context may carry.\<close>

record ctx =
  from_peer :: bool
  from_migration :: bool

definition Background :: ctx where
  "Background = \<lparr>from_peer = False, from_migration = False\<rparr>"

definition peer_ctx :: ctx where
  "peer_ctx = Background\<lparr>from_peer := True\<rparr>"

text \<open>\<open>PeerPicker\<close> with its two optional extensions, as it answers now; a nil peer is \<open>None\<close>.\<close>

record 'p PeerPicker =
  PickPeer :: "string \<Rightarrow> 'p option \<times> bool \<times> bool"
  PickPeerWithFallback :: "(string \<Rightarrow> 'p option \<times> 'p option \<times> bool \<times> bool) option"
  GetAllPeers :: "'p list option"

datatype 'p rpc = RpcGet 'p string string | RpcSet 'p ctx string string string | RpcDelete 'p ctx string string

record ('p, 'e) world =
  senv :: "ByteView env"
  now_at :: int
  until_at :: int
  took :: int
  source :: "string \<Rightarrow> 'e + string"
  picker :: "'p PeerPicker"
  peer_reply :: "'p \<Rightarrow> string \<Rightarrow> string \<Rightarrow> 'e + string"

record syncTask =
  t_op :: string
  t_key :: string
  t_value :: string

record groupStats =
  loads :: int
  localHits :: int
  localMisses :: int
  peerHits :: int
  peerMisses :: int
  loaderHits :: int
  loaderErrors :: int
  loadDuration :: int

text \<open>\<open>has_peers\<close>: \<open>peers\<close> is not nil; \<open>done_ch\<close>: the channel \<open>done\<close> is closed; \<open>workers\<close>: the
  workers that have not returned.\<close>

record Group =
  g_name :: string
  mainCache :: Cache
  has_peers :: bool
  g_expiration :: int
  g_closed :: bool
  bloomFilter :: "BloomFilter option"
  g_stats :: groupStats
  done_ch :: bool
  syncTasks :: "syncTask list"
  workers :: nat

definition syncWorkerCount :: nat where "syncWorkerCount = 4"

definition syncChannelBuffer :: nat where "syncChannelBuffer = 1024"

section \<open>Creation\<close>

type_synonym GroupOption = "Group \<Rightarrow> Group"

definition WithExpiration :: "int \<Rightarrow> GroupOption" where
  "WithExpiration d = (\<lambda>g. g\<lparr>g_expiration := d\<rparr>)"

definition WithPeers :: "bool \<Rightarrow> GroupOption" where
  "WithPeers peers = (\<lambda>g. g\<lparr>has_peers := peers\<rparr>)"

definition WithCacheOptions :: "CacheOptions \<Rightarrow> GroupOption" where
  "WithCacheOptions opts = (\<lambda>g. g\<lparr>mainCache := NewCache opts\<rparr>)"

definition WithBloomFilter ::
  "(u64 \<Rightarrow> 'r \<Rightarrow> u64) \<Rightarrow> (u64 \<Rightarrow> u64 \<Rightarrow> u64) \<Rightarrow> u64 \<Rightarrow> 'r \<Rightarrow> GroupOption" where
  "WithBloomFilter bits_of hashes_of expectedItems falsePositiveRate =
     (\<lambda>g. g\<lparr>bloomFilter := Some (Bloom.New bits_of hashes_of expectedItems falsePositiveRate)\<rparr>)"

definition zero_stats :: groupStats where
  "zero_stats = \<lparr>loads = 0, localHits = 0, localMisses = 0, peerHits = 0, peerMisses = 0,
     loaderHits = 0, loaderErrors = 0, loadDuration = 0\<rparr>"

text \<open>\<open>NewGroup\<close> up to the registration of the group, with the workers started.\<close>

definition make_group :: "string \<Rightarrow> int \<Rightarrow> GroupOption list \<Rightarrow> Group" where
  "make_group name cacheBytes opts =
     (let g = \<lparr>g_name = name, mainCache = NewCache (DefaultCacheOptions\<lparr>co_MaxBytes := cacheBytes\<rparr>),
               has_peers = False, g_expiration = 0, g_closed = False, bloomFilter = None,
               g_stats = zero_stats, done_ch = False, syncTasks = [], workers = 0\<rparr>
      in (fold (\<lambda>opt g. opt g) opts g)\<lparr>workers := syncWorkerCount\<rparr>)"

definition RegisterPeers :: "Group \<Rightarrow> bool \<Rightarrow> Group option" where
  "RegisterPeers g peers = (if has_peers g then None else Some (g\<lparr>has_peers := peers\<rparr>))"

section \<open>Counters\<close>

definition add_loads :: "int \<Rightarrow> Group \<Rightarrow> Group" where
  "add_loads d g = g\<lparr>g_stats := (g_stats g)\<lparr>loads := wrap64 (loads (g_stats g) + 1),
     loadDuration := wrap64 (loadDuration (g_stats g) + d)\<rparr>\<rparr>"

definition add_localHits :: "Group \<Rightarrow> Group" where
  "add_localHits g = g\<lparr>g_stats := (g_stats g)\<lparr>localHits := wrap64 (localHits (g_stats g) + 1)\<rparr>\<rparr>"

definition add_localMisses :: "Group \<Rightarrow> Group" where
  "add_localMisses g = g\<lparr>g_stats := (g_stats g)\<lparr>localMisses := wrap64 (localMisses (g_stats g) + 1)\<rparr>\<rparr>"

definition add_peerHits :: "Group \<Rightarrow> Group" where
  "add_peerHits g = g\<lparr>g_stats := (g_stats g)\<lparr>peerHits := wrap64 (peerHits (g_stats g) + 1)\<rparr>\<rparr>"

definition add_peerMisses :: "Group \<Rightarrow> Group" where
  "add_peerMisses g = g\<lparr>g_stats := (g_stats g)\<lparr>peerMisses := wrap64 (peerMisses (g_stats g) + 1)\<rparr>\<rparr>"

definition add_loaderHits :: "Group \<Rightarrow> Group" where
  "add_loaderHits g = g\<lparr>g_stats := (g_stats g)\<lparr>loaderHits := wrap64 (loaderHits (g_stats g) + 1)\<rparr>\<rparr>"

definition add_loaderErrors :: "Group \<Rightarrow> Group" where
  "add_loaderErrors g = g\<lparr>g_stats := (g_stats g)\<lparr>loaderErrors := wrap64 (loaderErrors (g_stats g) + 1)\<rparr>\<rparr>"

section \<open>Storing a value\<close>

text \<open>What \<open>load\<close>, \<open>Set\<close> and \<open>SetLocalDirect\<close> do with a value.\<close>

definition keep :: "('p, 'e) world \<Rightarrow> Group \<Rightarrow> string \<Rightarrow> ByteView \<Rightarrow> Group option" where
  "keep W g key view = do {
     c \<leftarrow> (if g_expiration g > 0
           then cache_AddWithExpiration (senv W) (until_at W) (mainCache g) key view (now_at W + g_expiration g)
           else cache_Add (senv W) (mainCache g) key view);
     bf \<leftarrow> (case bloomFilter g of
             Some bf \<Rightarrow> map_option Some (bloom_Add bf key)
           | None \<Rightarrow> Some None);
     Some (g\<lparr>mainCache := c, bloomFilter := bf\<rparr>) }"

section \<open>Loading\<close>

definition getFromPeer :: "('p, 'e) world \<Rightarrow> Group \<Rightarrow> 'p \<Rightarrow> string \<Rightarrow> 'e + ByteView" where
  "getFromPeer W g peer key = (case peer_reply W peer (g_name g) key of
     Inl e \<Rightarrow> Inl e
   | Inr bytes \<Rightarrow> Inr (ByteView bytes))"

text \<open>One attempt at a peer that may be nil, with the call it makes.\<close>

definition ask :: "('p, 'e) world \<Rightarrow> Group \<Rightarrow> string \<Rightarrow> 'p option \<Rightarrow> ByteView option \<times> 'p rpc list" where
  "ask W g key peer = (case peer of
     None \<Rightarrow> (None, [])
   | Some p \<Rightarrow> (case getFromPeer W g p key of Inr v \<Rightarrow> Some v | Inl _ \<Rightarrow> None, [RpcGet p (g_name g) key]))"

definition load_source :: "('p, 'e) world \<Rightarrow> Group \<Rightarrow> string \<Rightarrow> Group \<times> ('e group_error + ByteView)" where
  "load_source W g key = (case source W key of
     Inl e \<Rightarrow> (g, Inl (FailedToGet e))
   | Inr bytes \<Rightarrow> (add_loaderHits g, Inr (ByteView (cloneBytes bytes))))"

definition loadData ::
  "('p, 'e) world \<Rightarrow> Group \<Rightarrow> string \<Rightarrow> (Group \<times> ('e group_error + ByteView) \<times> 'p rpc list) option" where
  "loadData W g key =
     (let from_source = (\<lambda>g sent. let (g, r) = load_source W g key in Some (g, r, sent))
      in if has_peers g then
           (case PickPeerWithFallback (picker W) of
              Some pick \<Rightarrow>
                (let (primary, replica, peerOK, isSelf) = pick key
                 in if peerOK \<and> \<not> isSelf then
                      (case ask W g key primary of
                         (Some v, sent) \<Rightarrow> Some (add_peerHits g, Inr v, sent)
                       | (None, sent) \<Rightarrow>
                           (case ask W g key replica of
                              (Some v, sent') \<Rightarrow> Some (add_peerHits g, Inr v, sent @ sent')
                            | (None, sent') \<Rightarrow> from_source g (sent @ sent')))
                    else from_source g [])
            | None \<Rightarrow>
                (let (peer, ok, isSelf) = PickPeer (picker W) key
                 in if ok \<and> \<not> isSelf then
                      (case peer of
                         None \<Rightarrow> None
                       | Some p \<Rightarrow>
                           (case ask W g key (Some p) of
                              (Some v, sent) \<Rightarrow> Some (add_peerHits g, Inr v, sent)
                            | (None, sent) \<Rightarrow> from_source (add_peerMisses g) sent))
                    else from_source g []))
         else from_source g [])"

text \<open>\<open>load\<close> after \<open>loader.Do\<close> has returned, for the caller that ran \<open>loadData\<close> and for the callers
  that waited for it. \<open>None\<close> is the pair \<open>(nil, nil)\<close> that waiters get when the load panicked.\<close>

definition load_rest ::
  "('p, 'e) world \<Rightarrow> Group \<Rightarrow> string \<Rightarrow> ('e group_error + ByteView) option \<Rightarrow> (Group \<times> ('e group_error + ByteView)) option" where
  "load_rest W g key r =
     (let g = add_loads (took W) g
      in case r of
           Some (Inl e) \<Rightarrow> Some (add_loaderErrors g, Inl e)
         | Some (Inr view) \<Rightarrow> do { g \<leftarrow> keep W g key view; Some (g, Inr view) }
         | None \<Rightarrow> None)"

definition load ::
  "('p, 'e) world \<Rightarrow> Group \<Rightarrow> string \<Rightarrow> (Group \<times> ('e group_error + ByteView) \<times> 'p rpc list) option" where
  "load W g key = do {
     (g, r, sent) \<leftarrow> loadData W g key;
     (g, r) \<leftarrow> load_rest W g key (Some r);
     Some (g, r, sent) }"

text \<open>\<open>Get\<close> up to the call of \<open>load\<close>: \<open>None\<close> as the result is a miss.\<close>

definition group_lookup ::
  "('p, 'e) world \<Rightarrow> Group \<Rightarrow> string \<Rightarrow> (Group \<times> ('e group_error + ByteView) option) option" where
  "group_lookup W g key =
     (if g_closed g then Some (g, Some (Inl ErrGroupClosed))
      else if key = [] then Some (g, Some (Inl ErrKeyRequired))
      else do {
        present \<leftarrow> (case bloomFilter g of Some bf \<Rightarrow> Contains bf key | None \<Rightarrow> Some True);
        if \<not> present then Some (g, Some (Inl ErrKeyNotFound))
        else do {
          (c, view, ok) \<leftarrow> cache_Get (senv W) (mainCache g) key;
          let g = g\<lparr>mainCache := c\<rparr>;
          Some (if ok then (add_localHits g, Some (Inr view)) else (add_localMisses g, None)) } })"

definition group_Get ::
  "('p, 'e) world \<Rightarrow> Group \<Rightarrow> string \<Rightarrow> (Group \<times> ('e group_error + ByteView) \<times> 'p rpc list) option" where
  "group_Get W g key = do {
     (g, r) \<leftarrow> group_lookup W g key;
     (case r of Some r \<Rightarrow> Some (g, r, []) | None \<Rightarrow> load W g key) }"

section \<open>Writing and deleting\<close>

text \<open>A send on the buffered channel that drops the task when the buffer is full.\<close>

definition enqueue :: "Group \<Rightarrow> syncTask \<Rightarrow> Group" where
  "enqueue g task =
     (if length (syncTasks g) < syncChannelBuffer then g\<lparr>syncTasks := syncTasks g @ [task]\<rparr> else g)"

definition group_Set ::
  "('p, 'e) world \<Rightarrow> ctx \<Rightarrow> Group \<Rightarrow> string \<Rightarrow> string \<Rightarrow> (Group \<times> 'e group_error option) option" where
  "group_Set W ctx g key value =
     (if g_closed g then Some (g, Some ErrGroupClosed)
      else if key = [] then Some (g, Some ErrKeyRequired)
      else if length value = 0 then Some (g, Some ErrValueRequired)
      else do {
        g \<leftarrow> keep W g key (ByteView (cloneBytes value));
        Some (if \<not> from_peer ctx \<and> \<not> from_migration ctx \<and> has_peers g
              then enqueue g \<lparr>t_op = ''set'', t_key = key, t_value = cloneBytes value\<rparr> else g, None) })"

definition group_Delete ::
  "('p, 'e) world \<Rightarrow> ctx \<Rightarrow> Group \<Rightarrow> string \<Rightarrow> (Group \<times> 'e group_error option) option" where
  "group_Delete W ctx g key =
     (if g_closed g then Some (g, Some ErrGroupClosed)
      else if key = [] then Some (g, Some ErrKeyRequired)
      else do {
        (c, _) \<leftarrow> cache_Delete (senv W) (mainCache g) key;
        let g = g\<lparr>mainCache := c\<rparr>;
        Some (if \<not> from_peer ctx \<and> \<not> from_migration ctx \<and> has_peers g
              then enqueue g \<lparr>t_op = ''broadcast_delete'', t_key = key, t_value = []\<rparr> else g, None) })"

definition SetLocalDirect :: "('p, 'e) world \<Rightarrow> Group \<Rightarrow> string \<Rightarrow> string \<Rightarrow> Group option" where
  "SetLocalDirect W g key value = keep W g key (ByteView (cloneBytes value))"

definition GetAllLocalKeys :: "('p, 'e) world \<Rightarrow> Group \<Rightarrow> string list option" where
  "GetAllLocalKeys W g = cache_Keys (senv W) (mainCache g)"

definition GetLocalKeyValue :: "('p, 'e) world \<Rightarrow> Group \<Rightarrow> string \<Rightarrow> (string \<times> bool) option" where
  "GetLocalKeyValue W g key = do {
     (bv, ok) \<leftarrow> cache_GetRawValue (senv W) (mainCache g) key;
     Some (if \<not> ok then ([], False) else (ByteSLice bv, True)) }"

section \<open>Synchronisation with the peers\<close>

definition send :: "Group \<Rightarrow> string \<Rightarrow> string \<Rightarrow> string \<Rightarrow> 'p \<Rightarrow> 'p rpc list" where
  "send g oper key value peer =
     (if oper = ''set'' then [RpcSet peer peer_ctx (g_name g) key value]
      else if oper = ''delete'' then [RpcDelete peer peer_ctx (g_name g) key] else [])"

definition syncToPeers ::
  "('p, 'e) world \<Rightarrow> Group \<Rightarrow> string \<Rightarrow> string \<Rightarrow> string \<Rightarrow> 'p rpc list option" where
  "syncToPeers W g oper key value =
     (if \<not> has_peers g then Some []
      else
        (let (peer, ok, itself) = PickPeer (picker W) key
         in if \<not> ok \<or> itself then Some []
            else (case peer of
                Some p \<Rightarrow> Some (send g oper key value p)
              | None \<Rightarrow> if oper = ''set'' \<or> oper = ''delete'' then None else Some [])))"

definition syncToPeersWithReplica ::
  "('p, 'e) world \<Rightarrow> Group \<Rightarrow> string \<Rightarrow> string \<Rightarrow> string \<Rightarrow> 'p rpc list option" where
  "syncToPeersWithReplica W g oper key value =
     (if \<not> has_peers g then Some []
      else (case PickPeerWithFallback (picker W) of
          None \<Rightarrow> syncToPeers W g oper key value
        | Some pick \<Rightarrow>
            (let (primary, replica, peerOK, isSelf) = pick key
             in if \<not> peerOK then Some []
                else Some
                  ((case primary of Some p \<Rightarrow> if \<not> isSelf then send g oper key value p else [] | None \<Rightarrow> []) @
                   (case replica of Some p \<Rightarrow> if replica \<noteq> primary then send g oper key value p else [] | None \<Rightarrow> [])))))"

definition broadcastDelete :: "('p, 'e) world \<Rightarrow> Group \<Rightarrow> string \<Rightarrow> 'p rpc list option" where
  "broadcastDelete W g key =
     (if \<not> has_peers g then Some []
      else (case GetAllPeers (picker W) of
          None \<Rightarrow> syncToPeersWithReplica W g ''delete'' key []
        | Some allPeers \<Rightarrow> Some (map (\<lambda>peer. RpcDelete peer peer_ctx (g_name g) key) allPeers)))"

definition processSyncTask :: "('p, 'e) world \<Rightarrow> Group \<Rightarrow> syncTask \<Rightarrow> 'p rpc list option" where
  "processSyncTask W g task =
     (if t_op task = ''set'' \<or> t_op task = ''delete''
      then syncToPeersWithReplica W g (t_op task) (t_key task) (t_value task)
      else if t_op task = ''broadcast_delete'' then broadcastDelete W g (t_key task)
      else Some [])"

text \<open>A worker takes a task, before and after \<open>done\<close> is closed, or returns because \<open>done\<close> is closed
  and the queue empty.\<close>

definition worker_take :: "('p, 'e) world \<Rightarrow> Group \<Rightarrow> (Group \<times> 'p rpc list) option" where
  "worker_take W g = (case syncTasks g of
     [] \<Rightarrow> Some (g, [])
   | task # tasks \<Rightarrow>
       if workers g = 0 then Some (g, [])
       else do { sent \<leftarrow> processSyncTask W g task; Some (g\<lparr>syncTasks := tasks\<rparr>, sent) })"

definition worker_return :: "Group \<Rightarrow> Group" where
  "worker_return g = (if done_ch g \<and> syncTasks g = [] then g\<lparr>workers := workers g - 1\<rparr> else g)"

section \<open>Closing and statistics\<close>

text \<open>\<open>Close\<close> without the removal from the registry; the flag says whether it was the first.\<close>

definition close_group :: "Group \<Rightarrow> (Group \<times> bool) option" where
  "close_group g =
     (if g_closed g then Some (g, False)
      else do {
        c \<leftarrow> cache_Close (mainCache g);
        Some (g\<lparr>g_closed := True, done_ch := True, mainCache := c\<rparr>, True) })"

definition prefixed :: "string \<Rightarrow> (string, stat) gomap \<Rightarrow> (string, stat) gomap \<Rightarrow> (string, stat) gomap" where
  "prefixed p sub stats = fold (\<lambda>(k, v). AList.update (p @ k) v) sub stats"

definition group_Stats :: "Group \<Rightarrow> (string, stat) gomap option" where
  "group_Stats g = do {
     let st = g_stats g;
     let stats = [(''name'', StatString (g_name g)), (''closed'', StatBool (g_closed g)),
       (''expiration'', StatInt (g_expiration g)), (''loads'', StatInt (loads st)),
       (''local_hits'', StatInt (localHits st)), (''local_misses'', StatInt (localMisses st)),
       (''peer_hits'', StatInt (peerHits st)), (''peer_misses'', StatInt (peerMisses st)),
       (''loader_hits'', StatInt (loaderHits st)), (''loader_errors'', StatInt (loaderErrors st))];
     let totalGets = wrap64 (localHits st + localMisses st);
     let stats = (if totalGets > 0 then AList.update ''hit_rate'' (StatDiv (localHits st) [totalGets]) stats else stats);
     let stats = (if loads st > 0
       then AList.update ''avg_load_time_ms'' (StatDiv (loadDuration st) [loads st, 1000000]) stats else stats);
     cacheStats \<leftarrow> cache_Stats (mainCache g);
     let stats = prefixed ''cache_'' cacheStats stats;
     Some (case bloomFilter g of Some bf \<Rightarrow> prefixed ''bloom_'' (bloom_Stats bf) stats | None \<Rightarrow> stats) }"

end
