(* ===== verification/GroupSpec.thy ===== *)
theory GroupSpec
  imports Group
begin

text \<open>
  The invariant of a cache group, its contract (\<open>store_contract\<close>, over the contract of the main
  cache), and what \<open>Get\<close>, \<open>Set\<close>, \<open>Delete\<close> and the workers do. A picker that answers \<open>ok\<close> for a
  peer other than the node itself must not answer nil (\<open>picker_ok\<close>).
\<close>

section \<open>Invariant\<close>

definition picker_ok :: "'p PeerPicker \<Rightarrow> bool" where
  "picker_ok P \<longleftrightarrow> (\<forall>key p. PickPeer P key = (p, True, False) \<longrightarrow> p \<noteq> None)"

definition world_ok :: "('p, 'e) world \<Rightarrow> bool" where
  "world_ok W \<longleftrightarrow> env_for bv_Len (senv W) \<and> picker_ok (picker W)"

definition group_inv :: "Group \<Rightarrow> bool" where
  "group_inv g \<longleftrightarrow> cache_inv (mainCache g) \<and> closed (mainCache g) = g_closed g \<and> done_ch g = g_closed g \<and>
     (\<forall>bf. bloomFilter g = Some bf \<longrightarrow> bloom_ok bf) \<and> length (syncTasks g) \<le> syncChannelBuffer \<and>
     (workers g = 0 \<longrightarrow> g_closed g \<and> syncTasks g = [])"

definition group_can :: "Group \<Rightarrow> string \<Rightarrow> ByteView set" where
  "group_can g = cache_can (mainCache g)"

text \<open>The operations as steps: additions by \<open>Set\<close>, by \<open>SetLocalDirect\<close> and at the end of a load,
  and everything that happens beside them.\<close>

inductive group_put :: "(string, string) world \<Rightarrow> string \<Rightarrow> ByteView \<Rightarrow> Group \<Rightarrow> Group \<Rightarrow> bool"
  for W k v g
where
  put_set: "group_Set W ctx g k (b v) = Some (g', None) \<Longrightarrow> group_put W k v g g'"
| put_direct: "SetLocalDirect W g k (b v) = Some g' \<Longrightarrow> group_put W k v g g'"
| put_loaded: "load_rest W g k (Some (Inr v)) = Some (g', r) \<Longrightarrow> group_put W k v g g'"

inductive group_tidy :: "(string, string) world \<Rightarrow> Group \<Rightarrow> Group \<Rightarrow> bool"
  for W g
where
  tick: "cache_tick (senv W) (mainCache g) = Some c \<Longrightarrow> group_tidy W g (g\<lparr>mainCache := c\<rparr>)"
| loading: "loadData W g k = Some (g', r, cs) \<Longrightarrow> group_tidy W g g'"
| load_failed: "load_rest W g k (Some (Inl e)) = Some (g', r) \<Longrightarrow> group_tidy W g g'"
| set_refused: "group_Set W ctx g k v = Some (g', Some e) \<Longrightarrow> group_tidy W g g'"
| delete_refused: "group_Delete W ctx g k = Some (g', Some e) \<Longrightarrow> group_tidy W g g'"
| working: "worker_take W g = Some (g', cs) \<Longrightarrow> group_tidy W g g'"
| returning: "group_tidy W g (worker_return g)"
| registering: "RegisterPeers g p = Some g' \<Longrightarrow> group_tidy W g g'"

inductive group_remove :: "(string, string) world \<Rightarrow> string \<Rightarrow> Group \<Rightarrow> Group \<Rightarrow> bool"
  for W k g
where
  remove_key: "group_Delete W ctx g k = Some (g', None) \<Longrightarrow> group_remove W k g g'"
| remove_spawned: "k \<in> set (spawned (mainCache g)) \<Longrightarrow> cache_spawned (senv W) (mainCache g) k = Some c \<Longrightarrow>
    group_remove W k g (g\<lparr>mainCache := c\<rparr>)"

definition group_step :: "Group \<Rightarrow> ByteView store_op \<Rightarrow> Group \<Rightarrow> bool" where
  "group_step g op g' \<longleftrightarrow> (\<exists>W :: (string, string) world. world_ok W \<and> (case op of
     PutOp k v \<Rightarrow> group_put W k v g g'
   | GetOp k \<Rightarrow> \<exists>r. group_lookup W g k = Some (g', r)
   | DelOp k \<Rightarrow> group_remove W k g g'
   | ClearOp \<Rightarrow> \<exists>d. close_group g = Some (g', d)
   | TidyOp \<Rightarrow> group_tidy W g g'))"

definition group_reply :: "Group \<Rightarrow> string \<Rightarrow> ByteView \<Rightarrow> bool" where
  "group_reply g k v \<longleftrightarrow> (\<exists>W :: (string, string) world. world_ok W \<and>
     ((\<exists>g'. group_lookup W g k = Some (g', Some (Inr v))) \<or> GetLocalKeyValue W g k = Some (b v, True)))"

text \<open>A step that leaves the main cache, the filter and the flags alone.\<close>

definition same_core :: "Group \<Rightarrow> Group \<Rightarrow> bool" where
  "same_core g g' \<longleftrightarrow> mainCache g' = mainCache g \<and> bloomFilter g' = bloomFilter g \<and>
     g_closed g' = g_closed g \<and> done_ch g' = done_ch g \<and> g_name g' = g_name g \<and>
     g_expiration g' = g_expiration g \<and> syncTasks g' = syncTasks g \<and> workers g' = workers g"

lemma same_core_inv: "same_core g g' \<Longrightarrow> group_inv g' = group_inv g \<and> group_can g' = group_can g"
  by (simp add: same_core_def group_inv_def group_can_def)

lemma counters_core [simp]:
  "same_core g (add_loads d g)" "same_core g (add_localHits g)" "same_core g (add_localMisses g)"
  "same_core g (add_peerHits g)" "same_core g (add_peerMisses g)" "same_core g (add_loaderHits g)"
  "same_core g (add_loaderErrors g)" "same_core g g"
  by (simp_all add: same_core_def add_loads_def add_localHits_def add_localMisses_def add_peerHits_def
      add_peerMisses_def add_loaderHits_def add_loaderErrors_def)

lemma same_core_trans: "same_core g g1 \<Longrightarrow> same_core g1 g2 \<Longrightarrow> same_core g g2"
  by (simp add: same_core_def)

text \<open>The counters leave the registration of peers alone, too.\<close>

lemma counters_fields [simp]:
  "has_peers (add_loads d g) = has_peers g" "has_peers (add_loaderHits g) = has_peers g"
  "has_peers (add_peerHits g) = has_peers g" "has_peers (add_peerMisses g) = has_peers g"
  "mainCache (add_localHits g) = mainCache g" "mainCache (add_localMisses g) = mainCache g"
  by (simp_all add: add_loads_def add_loaderHits_def add_peerHits_def add_peerMisses_def add_localHits_def add_localMisses_def)

section \<open>Storing\<close>

lemma keep_law:
  assumes inv: "group_inv g" and W: "world_ok W"
  shows "\<exists>g'. keep W g key v = Some g' \<and> group_inv g' \<and> g_closed g' = g_closed g \<and> has_peers g' = has_peers g \<and>
    syncTasks g' = syncTasks g \<and> workers g' = workers g \<and> g_name g' = g_name g \<and>
    (\<forall>k. group_can g' k \<subseteq> remember (PutOp key v) (group_can g) k) \<and>
    (\<forall>bf. bloomFilter g = Some bf \<longrightarrow> (\<exists>bf'. bloomFilter g' = Some bf' \<and> Contains bf' key = Some True \<and>
       (\<forall>k. Contains bf k = Some True \<longrightarrow> Contains bf' k = Some True))) \<and>
    (bloomFilter g = None \<longrightarrow> bloomFilter g' = None)"
proof -
  have ci: "cache_inv (mainCache g)" using inv by (simp add: group_inv_def)
  have E: "env_for bv_Len (senv W)" using W by (simp add: world_ok_def)
  obtain c where c: "(if g_expiration g > 0
           then cache_AddWithExpiration (senv W) (until_at W) (mainCache g) key v (now_at W + g_expiration g)
           else cache_Add (senv W) (mainCache g) key v) = Some c"
      "cache_inv c" "closed c = closed (mainCache g)" "\<forall>k. cache_can c k \<subseteq> remember (PutOp key v) (cache_can (mainCache g)) k"
    using cache_Add_law [OF ci E, of key v]
      cache_AddWithExpiration_law [OF ci E, of "until_at W" key v "now_at W + g_expiration g"]
    by (cases "g_expiration g > 0") auto
  show ?thesis
  proof (cases "bloomFilter g")
    case None
    then have "keep W g key v = Some (g\<lparr>mainCache := c, bloomFilter := None\<rparr>)" using c(1) by (simp add: keep_def)
    with None c inv show ?thesis by (simp add: group_inv_def group_can_def)
  next
    case (Some bf)
    then have "bloom_ok bf" using inv by (simp add: group_inv_def)
    from bloom.put_law [OF this, of key] obtain bf' where bf': "bloom_Add bf key = Some bf'" "bloom_ok bf'"
        "Contains bf' key = Some True" "\<forall>k. Contains bf k = Some True \<longrightarrow> Contains bf' k = Some True" by blast
    then have "keep W g key v = Some (g\<lparr>mainCache := c, bloomFilter := Some bf'\<rparr>)" using c(1) Some by (simp add: keep_def)
    with Some c inv bf' show ?thesis by (simp add: group_inv_def group_can_def)
  qed
qed

lemma load_rest_law:
  assumes inv: "group_inv g" and W: "world_ok W"
  shows "\<exists>g'. load_rest W g key (Some r) = Some (g', r) \<and> group_inv g' \<and>
    (\<forall>e. r = Inl e \<longrightarrow> same_core g g') \<and>
    (\<forall>v k. r = Inr v \<longrightarrow> group_can g' k \<subseteq> remember (PutOp key v) (group_can g) k) \<and>
    (\<forall>v. r = Inr v \<longrightarrow> keep W (add_loads (took W) g) key v = Some g')"
proof (cases r)
  case (Inl e)
  have "same_core g (add_loaderErrors (add_loads (took W) g))"
    using same_core_trans [of g "add_loads (took W) g"] by simp
  then show ?thesis using Inl inv same_core_inv by (simp add: load_rest_def Let_def)
next
  case (Inr v)
  note core = same_core_inv [of g "add_loads (took W) g", OF counters_core(1)]
  have "group_inv (add_loads (took W) g)" using core inv by simp
  from keep_law [OF this W, of key v] obtain g' where g': "keep W (add_loads (took W) g) key v = Some g'"
    "group_inv g'" "\<forall>k. group_can g' k \<subseteq> remember (PutOp key v) (group_can (add_loads (took W) g)) k" by blast
  then have "load_rest W g key (Some r) = Some (g', r)" by (simp add: load_rest_def Let_def Inr)
  with g' core Inr show ?thesis by (simp del: remember.simps)
qed

lemma load_source_core: "same_core g (fst (load_source W g key))" "has_peers (fst (load_source W g key)) = has_peers g"
  by (auto simp: load_source_def split: sum.split)

lemma load_source_snd:
  "snd (load_source W g key) = (case source W key of Inl e \<Rightarrow> Inl (FailedToGet e) | Inr bytes \<Rightarrow> Inr (ByteView bytes))"
  by (simp add: load_source_def split: sum.split)

section \<open>Loading, as a reference\<close>

text \<open>The peers that may be asked, in order, and the loaded result: the first answer, else the
  data source.\<close>

definition candidates :: "('p, 'e) world \<Rightarrow> Group \<Rightarrow> string \<Rightarrow> 'p list" where
  "candidates W g key =
     (if has_peers g then
        (case PickPeerWithFallback (picker W) of
           Some pick \<Rightarrow> (let (primary, replica, ok, self) = pick key
             in if ok \<and> \<not> self then List.map_filter id [primary, replica] else [])
         | None \<Rightarrow> (let (peer, ok, self) = PickPeer (picker W) key
             in if ok \<and> \<not> self then List.map_filter id [peer] else []))
      else [])"

definition answers :: "('p, 'e) world \<Rightarrow> Group \<Rightarrow> string \<Rightarrow> 'p \<Rightarrow> bool" where
  "answers W g key p \<longleftrightarrow> (case peer_reply W p (g_name g) key of Inr _ \<Rightarrow> True | Inl _ \<Rightarrow> False)"

definition loaded :: "('p, 'e) world \<Rightarrow> Group \<Rightarrow> string \<Rightarrow> 'e group_error + ByteView" where
  "loaded W g key = (case find (answers W g key) (candidates W g key) of
     Some p \<Rightarrow> (case peer_reply W p (g_name g) key of Inr bytes \<Rightarrow> Inr (ByteView bytes) | Inl e \<Rightarrow> Inl (FailedToGet e))
   | None \<Rightarrow> (case source W key of Inr bytes \<Rightarrow> Inr (ByteView bytes) | Inl e \<Rightarrow> Inl (FailedToGet e)))"

definition asked :: "('p, 'e) world \<Rightarrow> Group \<Rightarrow> string \<Rightarrow> 'p list" where
  "asked W g key = takeWhile (Not \<circ> answers W g key) (candidates W g key) @
     (case find (answers W g key) (candidates W g key) of Some p \<Rightarrow> [p] | None \<Rightarrow> [])"

lemma ask_simps [simp]:
  "ask W g key None = (None, [])"
  "answers W g key p \<Longrightarrow> ask W g key (Some p) =
     (Some (ByteView (case peer_reply W p (g_name g) key of Inr bytes \<Rightarrow> bytes | Inl _ \<Rightarrow> [])), [RpcGet p (g_name g) key])"
  "\<not> answers W g key p \<Longrightarrow> ask W g key (Some p) = (None, [RpcGet p (g_name g) key])"
  by (auto simp: ask_def answers_def getFromPeer_def split: sum.splits)

lemma answer_reply: "answers W g key p \<Longrightarrow> (case peer_reply W p (g_name g) key of Inr bytes \<Rightarrow> Inr (ByteView bytes) | Inl e \<Rightarrow> Inl (FailedToGet e)) =
    Inr (ByteView (case peer_reply W p (g_name g) key of Inr bytes \<Rightarrow> bytes | Inl _ \<Rightarrow> []))"
  by (auto simp: answers_def split: sum.splits)

lemma source_result:
  assumes "(case load_source W g1 key of (g2, r) \<Rightarrow> Some (g2, r, cs)) = Some (g', r', cs')" and "same_core g g1"
    and "has_peers g1 = has_peers g"
  shows "same_core g g' \<and> has_peers g' = has_peers g \<and> cs' = cs \<and>
    r' = (case source W key of Inr bytes \<Rightarrow> Inr (ByteView bytes) | Inl e \<Rightarrow> Inl (FailedToGet e))"
  using assms load_source_core [where W = W and g = g1 and key = key] load_source_snd [of W g1 key] same_core_trans [of g g1]
  by (cases "load_source W g1 key") (auto split: sum.splits)

lemma loadData_total: "world_ok W \<Longrightarrow> loadData W g key \<noteq> None"
  by (auto simp: loadData_def Let_def world_ok_def picker_ok_def split: prod.splits option.splits)

lemma loadData_replica:
  assumes run: "loadData W g key = Some (g', r, cs)" and peers: "has_peers g"
    and pick: "PickPeerWithFallback (picker W) = Some pick" "pick key = (pr, re, ok, self)" "ok \<and> \<not> self"
    and c: "candidates W g key = List.map_filter id [pr, re]"
  shows "same_core g g' \<and> has_peers g' = has_peers g \<and> r = loaded W g key \<and>
    cs = map (\<lambda>p. RpcGet p (g_name g) key) (asked W g key)"
proof (cases "\<exists>p. pr = Some p \<and> answers W g key p")
  case True
  then obtain p where p: "pr = Some p" "answers W g key p" by blast
  with run peers pick c answer_reply [OF p(2)] show ?thesis
    by (auto simp: loadData_def Let_def loaded_def asked_def List.map_filter_simps)
next
  case False
  then have f: "ask W g key pr = (None, map (\<lambda>p. RpcGet p (g_name g) key) (List.map_filter id [pr]))"
    by (cases pr) (auto simp: List.map_filter_simps)
  have skip: "find (answers W g key) (candidates W g key) = find (answers W g key) (List.map_filter id [re])"
    "takeWhile (Not \<circ> answers W g key) (candidates W g key) =
       List.map_filter id [pr] @ takeWhile (Not \<circ> answers W g key) (List.map_filter id [re])"
    using False c by (cases pr; auto simp: List.map_filter_simps)+
  show ?thesis
  proof (cases "\<exists>p. re = Some p \<and> answers W g key p")
    case True
    then obtain p where p: "re = Some p" "answers W g key p" by blast
    with run peers pick f skip answer_reply [OF p(2)] show ?thesis
      by (auto simp: loadData_def Let_def loaded_def asked_def List.map_filter_simps)
  next
    case no: False
    then have f': "ask W g key re = (None, map (\<lambda>p. RpcGet p (g_name g) key) (List.map_filter id [re]))"
      by (cases re) (auto simp: List.map_filter_simps)
    have "(case load_source W g key of (g2, r) \<Rightarrow> Some (g2, r,
        map (\<lambda>p. RpcGet p (g_name g) key) (List.map_filter id [pr]) @ map (\<lambda>p. RpcGet p (g_name g) key) (List.map_filter id [re]))) = Some (g', r, cs)"
      using run peers pick f f' by (simp add: loadData_def Let_def)
    from source_result [OF this counters_core(8) refl] skip no show ?thesis
      by (cases re) (auto simp: loaded_def asked_def List.map_filter_simps)
  qed
qed

lemma loadData_no_peer:
  assumes run: "(case load_source W g key of (g2, r) \<Rightarrow> Some (g2, r, [])) = Some (g', r, cs)" and c: "candidates W g key = []"
  shows "same_core g g' \<and> has_peers g' = has_peers g \<and> r = loaded W g key \<and>
    cs = map (\<lambda>p. RpcGet p (g_name g) key) (asked W g key)"
  using source_result [OF run counters_core(8) refl] c by (simp add: loaded_def asked_def)

lemma loadData_one_peer:
  assumes run: "loadData W g key = Some (g', r, cs)" and peers: "has_peers g"
    and pick: "PickPeerWithFallback (picker W) = None" "PickPeer (picker W) key = (peer, ok, self)" "ok \<and> \<not> self"
  shows "same_core g g' \<and> has_peers g' = has_peers g \<and> r = loaded W g key \<and>
    cs = map (\<lambda>p. RpcGet p (g_name g) key) (asked W g key)"
proof -
  obtain q where q: "peer = Some q" using run peers pick by (cases peer) (auto simp: loadData_def Let_def)
  then have c: "candidates W g key = [q]" using peers pick by (simp add: candidates_def List.map_filter_simps)
  show ?thesis
  proof (cases "answers W g key q")
    case a: True
    then show ?thesis
      using run peers pick q c answer_reply [OF a]
      by (auto simp: loadData_def Let_def loaded_def asked_def)
  next
    case False
    have "(case load_source W (add_peerMisses g) key of (g2, r) \<Rightarrow> Some (g2, r, [RpcGet q (g_name g) key])) = Some (g', r, cs)"
      using run peers pick q False by (simp add: loadData_def Let_def)
    from source_result [OF this counters_core(5) counters_fields(4)] c False show ?thesis
      by (simp add: loaded_def asked_def)
  qed
qed

lemma loadData_loaded:
  assumes run: "loadData W g key = Some (g', r, cs)"
  shows "same_core g g' \<and> has_peers g' = has_peers g \<and> r = loaded W g key \<and>
    cs = map (\<lambda>p. RpcGet p (g_name g) key) (asked W g key)"
proof (cases "has_peers g")
  case False
  then show ?thesis using run by (intro loadData_no_peer) (simp_all add: loadData_def candidates_def Let_def)
next
  case True
  show ?thesis
  proof (cases "PickPeerWithFallback (picker W)")
    case None
    obtain peer ok self where p: "PickPeer (picker W) key = (peer, ok, self)" by (cases "PickPeer (picker W) key")
    show ?thesis
    proof (cases "ok \<and> \<not> self")
      case False
      then show ?thesis using run True None p by (intro loadData_no_peer) (auto simp: loadData_def candidates_def Let_def)
    next
      case ok: True
      show ?thesis by (rule loadData_one_peer [OF run True None p ok])
    qed
  next
    case (Some pick)
    obtain pr re ok self where p: "pick key = (pr, re, ok, self)" by (cases "pick key")
    show ?thesis
    proof (cases "ok \<and> \<not> self")
      case False
      then show ?thesis using run True Some p by (intro loadData_no_peer) (auto simp: loadData_def candidates_def Let_def)
    next
      case ok: True
      then have c: "candidates W g key = List.map_filter id [pr, re]" using True Some p by (simp add: candidates_def)
      show ?thesis
        by (rule loadData_replica [OF run True Some p ok c])
    qed
  qed
qed

section \<open>The contract of a group\<close>

lemma group_lookup_law:
  assumes inv: "group_inv g" and W: "world_ok W"
  shows "\<exists>g' r. group_lookup W g key = Some (g', r) \<and> group_inv g' \<and> (\<forall>k. group_can g' k \<subseteq> group_can g k) \<and>
    (\<forall>v. r = Some (Inr v) \<longrightarrow> v \<in> group_can g key) \<and> g_name g' = g_name g \<and> has_peers g' = has_peers g \<and>
    bloomFilter g' = bloomFilter g"
proof (cases "g_closed g \<or> key = []")
  case True
  then show ?thesis using inv by (auto simp: group_lookup_def)
next
  case False
  have ci: "cache_inv (mainCache g)" using inv by (simp add: group_inv_def)
  have E: "env_for bv_Len (senv W)" using W by (simp add: world_ok_def)
  obtain p where p: "(case bloomFilter g of Some bf \<Rightarrow> Contains bf key | None \<Rightarrow> Some True) = Some p"
    using inv bloom.in_law by (cases "bloomFilter g") (auto simp: group_inv_def)
  show ?thesis
  proof (cases p)
    case False
    with p \<open>\<not> (g_closed g \<or> key = [])\<close> inv show ?thesis by (simp add: group_lookup_def)
  next
    case True
    obtain c v ok where c: "cache_Get (senv W) (mainCache g) key = Some (c, v, ok)" "cache_inv c"
        "closed c = closed (mainCache g)" "\<forall>k. cache_can c k \<subseteq> cache_can (mainCache g) k"
        "ok \<longrightarrow> v \<in> cache_can (mainCache g) key"
      using cache_Get_law [OF ci E, of key] by blast
    let ?g = "g\<lparr>mainCache := c\<rparr>"
    have "group_lookup W g key =
        Some (if ok then (add_localHits ?g, Some (Inr v)) else (add_localMisses ?g, None))"
      using False p True c(1) by (simp add: group_lookup_def)
    moreover have "group_inv ?g" "\<forall>k. group_can ?g k \<subseteq> group_can g k"
      using inv c by (simp_all add: group_inv_def group_can_def)
    ultimately show ?thesis
      using c(5) same_core_inv [OF counters_core(2), of ?g] same_core_inv [OF counters_core(3), of ?g]
      by (cases ok) (auto simp: group_can_def add_localHits_def add_localMisses_def)
  qed
qed

lemma enqueue_law:
  assumes "group_inv g" and "\<not> g_closed g"
  shows "group_inv (enqueue g t) \<and> group_can (enqueue g t) = group_can g \<and> bloomFilter (enqueue g t) = bloomFilter g \<and>
    g_closed (enqueue g t) = g_closed g"
  using assms by (auto simp: enqueue_def group_inv_def group_can_def)

lemma group_Set_law:
  assumes inv: "group_inv g" and W: "world_ok W"
  shows "\<exists>g' e. group_Set W ctx g key value = Some (g', e) \<and> group_inv g' \<and> (e \<noteq> None \<longrightarrow> g' = g) \<and>
    (\<forall>k. group_can g' k \<subseteq> remember (PutOp key (ByteView value)) (group_can g) k)"
proof (cases "g_closed g \<or> key = [] \<or> value = []")
  case True
  then show ?thesis using inv by (auto simp: group_Set_def)
next
  case False
  obtain g1 where g1: "keep W g key (ByteView value) = Some g1" "group_inv g1" "g_closed g1 = g_closed g"
      "\<forall>k. group_can g1 k \<subseteq> remember (PutOp key (ByteView value)) (group_can g) k"
    using keep_law [OF inv W, of key "ByteView value"] by blast
  let ?g = "if \<not> from_peer ctx \<and> \<not> from_migration ctx \<and> has_peers g1
              then enqueue g1 \<lparr>t_op = ''set'', t_key = key, t_value = value\<rparr> else g1"
  have "group_Set W ctx g key value = Some (?g, None)" using False g1(1) by (simp add: group_Set_def)
  moreover have "group_inv ?g \<and> group_can ?g = group_can g1"
    using enqueue_law [OF g1(2)] g1 False by simp
  ultimately show ?thesis using g1(4) by (simp del: remember.simps)
qed

lemma group_Delete_law:
  assumes inv: "group_inv g" and W: "world_ok W"
  shows "\<exists>g' e. group_Delete W ctx g key = Some (g', e) \<and> group_inv g' \<and> (e \<noteq> None \<longrightarrow> g' = g) \<and>
    (e = None \<longrightarrow> (\<forall>k. group_can g' k \<subseteq> remember (DelOp key) (group_can g) k)) \<and> bloomFilter g' = bloomFilter g"
proof (cases "g_closed g \<or> key = []")
  case True
  then show ?thesis using inv by (auto simp: group_Delete_def)
next
  case False
  have ci: "cache_inv (mainCache g)" using inv by (simp add: group_inv_def)
  have E: "env_for bv_Len (senv W)" using W by (simp add: world_ok_def)
  obtain c d where c: "cache_Delete (senv W) (mainCache g) key = Some (c, d)" "cache_inv c"
      "closed c = closed (mainCache g)" "\<forall>k. cache_can c k \<subseteq> remember (DelOp key) (cache_can (mainCache g)) k"
    using cache_Delete_law [OF ci E, of key] by blast
  let ?g1 = "g\<lparr>mainCache := c\<rparr>"
  let ?g = "if \<not> from_peer ctx \<and> \<not> from_migration ctx \<and> has_peers g
              then enqueue ?g1 \<lparr>t_op = ''broadcast_delete'', t_key = key, t_value = []\<rparr> else ?g1"
  have "group_Delete W ctx g key = Some (?g, None)" using False c(1) by (simp add: group_Delete_def)
  moreover have i: "group_inv ?g1" using inv c by (simp add: group_inv_def)
  moreover have "group_inv ?g \<and> group_can ?g = group_can ?g1 \<and> bloomFilter ?g = bloomFilter g"
    using enqueue_law [OF i] i False by simp
  moreover have "\<forall>k. group_can ?g1 k \<subseteq> remember (DelOp key) (group_can g) k" using c(4) by (simp add: group_can_def)
  ultimately show ?thesis by (simp del: remember.simps)
qed

lemma close_group_law:
  assumes inv: "group_inv g"
  shows "\<exists>g'. close_group g = Some (g', \<not> g_closed g) \<and> group_inv g' \<and> g_closed g' \<and> (\<forall>k. group_can g' k = {}) \<and>
    bloomFilter g' = bloomFilter g \<and> syncTasks g' = syncTasks g \<and> g_name g' = g_name g"
proof (cases "g_closed g")
  case True
  have ci: "cache_inv (mainCache g)" "closed (mainCache g)" using inv True by (simp_all add: group_inv_def)
  then have "cstore (mainCache g) = None" by (auto simp: cache_inv_def)
  then have "group_can g k = {}" for k by (simp add: group_can_def cache_can_def)
  with True inv show ?thesis by (simp add: close_group_def)
next
  case False
  have ci: "cache_inv (mainCache g)" using inv by (simp add: group_inv_def)
  obtain c where "cache_Close (mainCache g) = Some c" "cache_inv c" "closed c" "\<forall>k. cache_can c k = {}"
    using cache_Close_law [OF ci] by blast
  with False inv show ?thesis by (simp add: close_group_def group_inv_def group_can_def)
qed

lemma processSyncTask_total: "world_ok W \<Longrightarrow> processSyncTask W g task \<noteq> None"
  by (auto simp: processSyncTask_def syncToPeersWithReplica_def syncToPeers_def broadcastDelete_def Let_def
      world_ok_def picker_ok_def split: prod.splits option.splits)

lemma worker_law:
  assumes inv: "group_inv g" and W: "world_ok W"
  shows "\<exists>g' cs. worker_take W g = Some (g', cs) \<and> group_inv g' \<and> group_can g' = group_can g \<and> bloomFilter g' = bloomFilter g"
    and "group_inv (worker_return g) \<and> group_can (worker_return g) = group_can g \<and>
      bloomFilter (worker_return g) = bloomFilter g"
proof -
  show "\<exists>g' cs. worker_take W g = Some (g', cs) \<and> group_inv g' \<and> group_can g' = group_can g \<and> bloomFilter g' = bloomFilter g"
  proof (cases "syncTasks g")
    case Nil
    then show ?thesis using inv by (simp add: worker_take_def)
  next
    case (Cons t ts)
    obtain cs where "processSyncTask W g t = Some cs" using processSyncTask_total [OF W] by blast
    with Cons inv show ?thesis by (auto simp: worker_take_def group_inv_def group_can_def)
  qed
  show "group_inv (worker_return g) \<and> group_can (worker_return g) = group_can g \<and> bloomFilter (worker_return g) = bloomFilter g"
    using inv by (auto simp: worker_return_def group_inv_def group_can_def)
qed

lemma main_cache_inv:
  assumes "group_inv g" and "cache_inv c" and "closed c = closed (mainCache g)"
  shows "group_inv (g\<lparr>mainCache := c\<rparr>)" and "group_can (g\<lparr>mainCache := c\<rparr>) = cache_can c"
  using assms by (simp_all add: group_inv_def group_can_def)

lemma put_law:
  assumes inv: "group_inv g" and W: "world_ok W" and st: "group_put W k v g g'"
  shows "group_inv g' \<and> (\<forall>x. group_can g' x \<subseteq> remember (PutOp k v) (group_can g) x)"
  using st
proof cases
  case (put_set ctx)
  with group_Set_law [OF inv W, of ctx k "b v"] show ?thesis by (auto simp del: remember.simps)
next
  case put_direct
  with keep_law [OF inv W, of k v] show ?thesis by (auto simp: SetLocalDirect_def simp del: remember.simps)
next
  case (put_loaded r)
  with load_rest_law [OF inv W, of k "Inr v"] show ?thesis by (auto simp del: remember.simps)
qed

lemma tidy_law:
  assumes inv: "group_inv g" and W: "world_ok W" and st: "group_tidy W g g'"
  shows "group_inv g' \<and> (\<forall>x. group_can g' x \<subseteq> group_can g x) \<and> bloomFilter g' = bloomFilter g"
proof -
  have ci: "cache_inv (mainCache g)" using inv by (simp add: group_inv_def)
  have E: "env_for bv_Len (senv W)" using W by (simp add: world_ok_def)
  have core: ?thesis if "same_core g g'"
    using same_core_inv [OF that] that inv by (simp add: same_core_def)
  from st show ?thesis
  proof cases
    case (tick c)
    with cache_tick_law [OF ci E] have "cache_inv c" "closed c = closed (mainCache g)"
      "\<forall>k. cache_can c k \<subseteq> cache_can (mainCache g) k" by auto
    with main_cache_inv [OF inv, of c] tick(1) show ?thesis by (simp add: group_can_def)
  next
    case (loading k r cs)
    from loadData_loaded [OF this] core show ?thesis by (elim conjE)
  next
    case (load_failed k e r)
    with load_rest_law [OF inv W, of k "Inl e"] have "same_core g g'" by (elim exE conjE) auto
    then show ?thesis by (rule core)
  next
    case (set_refused ctx k v e)
    with group_Set_law [OF inv W, of ctx k v] have "g' = g" by (elim exE conjE) simp
    with inv show ?thesis by simp
  next
    case (delete_refused ctx k e)
    with group_Delete_law [OF inv W, of ctx k] have "g' = g" by (elim exE conjE) simp
    with inv show ?thesis by simp
  next
    case (working cs)
    with worker_law(1) [OF inv W] show ?thesis by (elim exE conjE) simp
  next
    case returning
    with worker_law(2) [OF inv W] show ?thesis by simp
  next
    case (registering p)
    then have "same_core g g'" by (auto simp: RegisterPeers_def same_core_def split: if_splits)
    then show ?thesis by (rule core)
  qed
qed

lemma remove_law:
  assumes inv: "group_inv g" and W: "world_ok W" and st: "group_remove W k g g'"
  shows "group_inv g' \<and> (\<forall>x. group_can g' x \<subseteq> remember (DelOp k) (group_can g) x) \<and> bloomFilter g' = bloomFilter g"
  using st
proof cases
  case (remove_key ctx)
  with group_Delete_law [OF inv W, of ctx k] show ?thesis by (auto simp del: remember.simps)
next
  case (remove_spawned c)
  have ci: "cache_inv (mainCache g)" using inv by (simp add: group_inv_def)
  have E: "env_for bv_Len (senv W)" using W by (simp add: world_ok_def)
  from cache_spawned_law [OF ci E remove_spawned(2)] remove_spawned main_cache_inv [OF inv, of c] show ?thesis
    by (auto simp: group_can_def simp del: remember.simps)
qed

lemma group_step_world:
  assumes "group_step g op g'"
  obtains W where "world_ok W" "case op of
     PutOp k v \<Rightarrow> group_put W k v g g'
   | GetOp k \<Rightarrow> \<exists>r. group_lookup W g k = Some (g', r)
   | DelOp k \<Rightarrow> group_remove W k g g'
   | ClearOp \<Rightarrow> \<exists>d. close_group g = Some (g', d)
   | TidyOp \<Rightarrow> group_tidy W g g'"
  using assms unfolding group_step_def by blast

lemma group_step_law:
  assumes inv: "group_inv g" and st: "group_step g op g'"
  shows "group_inv g' \<and> (\<forall>k. group_can g' k \<subseteq> remember op (group_can g) k) \<and>
    ((\<forall>k v. op \<noteq> PutOp k v) \<longrightarrow> bloomFilter g' = bloomFilter g)"
proof -
  obtain W where W: "world_ok W" and c: "case op of
     PutOp k v \<Rightarrow> group_put W k v g g'
   | GetOp k \<Rightarrow> \<exists>r. group_lookup W g k = Some (g', r)
   | DelOp k \<Rightarrow> group_remove W k g g'
   | ClearOp \<Rightarrow> \<exists>d. close_group g = Some (g', d)
   | TidyOp \<Rightarrow> group_tidy W g g'"
    by (rule group_step_world [OF st])
  show ?thesis
  proof (cases op)
    case (PutOp k v)
    with c put_law [OF inv W, of k v g'] show ?thesis by (simp del: remember.simps)
  next
    case (GetOp k)
    then obtain r where "group_lookup W g k = Some (g', r)" using c by auto
    with group_lookup_law [OF inv W, of k]
    have "group_inv g' \<and> (\<forall>x. group_can g' x \<subseteq> group_can g x) \<and> bloomFilter g' = bloomFilter g" by (elim exE conjE) simp
    with GetOp show ?thesis by simp
  next
    case (DelOp k)
    with c remove_law [OF inv W, of k g'] show ?thesis by (simp del: remember.simps)
  next
    case ClearOp
    with c close_group_law [OF inv] show ?thesis by auto
  next
    case TidyOp
    with c tidy_law [OF inv W, of g'] show ?thesis by simp
  qed
qed

text \<open>No step but closing changes the closed flag, and none the name.\<close>

definition same_id :: "Group \<Rightarrow> Group \<Rightarrow> bool" where
  "same_id g g' \<longleftrightarrow> g_name g' = g_name g \<and> g_closed g' = g_closed g"

lemma keep_id: "keep W g k v = Some g' \<Longrightarrow> same_id g g'"
  by (auto simp: keep_def bind_eq_Some_conv same_id_def split: option.splits)

lemma core_id: "same_core g g' \<Longrightarrow> same_id g g'"
  by (simp add: same_core_def same_id_def)

lemma id_trans: "same_id g g1 \<Longrightarrow> same_id g1 g2 \<Longrightarrow> same_id g g2"
  by (simp add: same_id_def)

lemma cache_id [simp]: "same_id g (g\<lparr>mainCache := c\<rparr>)"
  by (simp add: same_id_def)

lemma enqueue_id: "same_id g (enqueue g t)"
  by (simp add: enqueue_def same_id_def)

lemma Set_id: "group_Set W ctx g k v = Some (g', e) \<Longrightarrow> same_id g g'"
  using keep_id id_trans enqueue_id
  by (fastforce simp: group_Set_def bind_eq_Some_conv same_id_def split: if_split_asm)

lemma load_rest_id:
  assumes "load_rest W g k (Some r) = Some (g', r')"
  shows "same_id g g'"
proof (cases r)
  case (Inl e)
  then show ?thesis using assms by (auto simp: load_rest_def Let_def same_id_def add_loads_def add_loaderErrors_def)
next
  case (Inr v)
  then have "same_id (add_loads (took W) g) g'"
    using assms keep_id by (auto simp: load_rest_def Let_def bind_eq_Some_conv)
  then show ?thesis by (simp add: same_id_def add_loads_def)
qed

lemma lookup_id: "group_lookup W g k = Some (g', r) \<Longrightarrow> same_id g g'"
  by (auto simp: group_lookup_def bind_eq_Some_conv same_id_def Let_def add_localHits_def add_localMisses_def split: if_split_asm)

lemma Delete_id:
  assumes "group_Delete W ctx g k = Some (g', e)"
  shows "same_id g g'"
  using assms enqueue_id [unfolded same_id_def]
  by (cases "cache_Delete (senv W) (mainCache g) k")
    (auto simp: group_Delete_def Let_def same_id_def split: if_split_asm)

lemma put_id: "group_put W k v g g' \<Longrightarrow> same_id g g'"
  by (cases rule: group_put.cases) (auto simp: SetLocalDirect_def dest: Set_id keep_id load_rest_id)

lemma remove_id: "group_remove W k g g' \<Longrightarrow> same_id g g'"
  by (cases rule: group_remove.cases) (auto dest: Delete_id)

lemma tidy_id:
  assumes "group_tidy W g g'"
  shows "same_id g g'"
  using assms
proof cases
  case (loading k r cs)
  from loadData_loaded [OF this] show ?thesis by (blast intro: core_id)
next
  case (working cs)
  then show ?thesis by (auto simp: worker_take_def bind_eq_Some_conv same_id_def split: list.splits if_split_asm)
next
  case returning
  then show ?thesis by (simp add: worker_return_def same_id_def)
next
  case (registering p)
  then show ?thesis by (auto simp: RegisterPeers_def same_id_def split: if_split_asm)
qed (auto dest: Set_id Delete_id load_rest_id)

lemma group_step_id:
  assumes st: "group_step g op g'" and op: "op \<noteq> ClearOp"
  shows "same_id g g'"
proof -
  obtain W where c: "case op of
     PutOp k v \<Rightarrow> group_put W k v g g'
   | GetOp k \<Rightarrow> \<exists>r. group_lookup W g k = Some (g', r)
   | DelOp k \<Rightarrow> group_remove W k g g'
   | ClearOp \<Rightarrow> \<exists>d. close_group g = Some (g', d)
   | TidyOp \<Rightarrow> group_tidy W g g'"
    by (rule group_step_world [OF st])
  then show ?thesis using op by (cases op) (auto dest: put_id lookup_id remove_id tidy_id)
qed

lemma group_reply_law:
  assumes inv: "group_inv g" and r: "group_reply g k v"
  shows "v \<in> group_can g k"
proof -
  obtain W :: "(string, string) world" where W: "world_ok W"
    and c: "(\<exists>g'. group_lookup W g k = Some (g', Some (Inr v))) \<or> GetLocalKeyValue W g k = Some (b v, True)"
    using r by (auto simp: group_reply_def)
  from c show ?thesis
  proof
    assume "\<exists>g'. group_lookup W g k = Some (g', Some (Inr v))"
    with group_lookup_law [OF inv W, of k] show ?thesis by auto
  next
    assume "GetLocalKeyValue W g k = Some (b v, True)"
    then obtain w where "cache_GetRawValue (senv W) (mainCache g) k = Some (w, True)" "b w = b v"
      by (auto simp: GetLocalKeyValue_def ByteSLice_def bind_eq_Some_conv split: if_splits)
    moreover from this have "w = v" by (simp add: ByteView.expand)
    ultimately have "cache_reply (mainCache g) k v" using W by (auto simp: cache_reply_def world_ok_def)
    with cache_reply_law inv show ?thesis by (simp add: group_inv_def group_can_def)
  qed
qed

interpretation groupc: store_contract group_inv group_can group_step group_reply
  by unfold_locales (use group_step_law group_reply_law in blast)+

end
