(* ===== verification/GroupProps.thy ===== *)
theory GroupProps
  imports GroupSpec
begin

text \<open>
  The properties of a cache group, from its creation by \<open>NewGroup\<close> on: what \<open>Get\<close> can return and
  whom it asks, that a write is read back, how the Bloom filter gates the loads, and how the
  workers empty the queue.
\<close>

section \<open>New groups\<close>

definition option_ok :: "GroupOption \<Rightarrow> bool" where
  "option_ok opt \<longleftrightarrow> (\<exists>d. opt = WithExpiration d) \<or> (\<exists>p. opt = WithPeers p) \<or>
     (\<exists>co. opts_ok (storeOpts co) \<and> opt = WithCacheOptions co) \<or>
     (\<exists>bf. bloom_ok bf \<and> (\<forall>k. Contains bf k = Some False) \<and> opt = (\<lambda>g. g\<lparr>bloomFilter := Some bf\<rparr>))"

lemma new_filter_empty:
  assumes "0 < bits_of n r" and "unat (bits_of n r) \<le> 2 ^ 64 - 64"
  shows "bloom_ok (Bloom.New bits_of hashes_of n r)" and "Contains (Bloom.New bits_of hashes_of n r) k = Some False"
proof -
  note new = New_ok [of bits_of n r hashes_of, OF assms]
  then have "positions (Bloom.New bits_of hashes_of n r) k \<noteq> {}" by (auto simp: positions_def)
  with new show "bloom_ok (Bloom.New bits_of hashes_of n r)" "Contains (Bloom.New bits_of hashes_of n r) k = Some False"
    by (simp_all add: Contains_result)
qed

lemma option_ok_cases:
  "option_ok (WithExpiration d)" "option_ok (WithPeers p)"
  "opts_ok (storeOpts co) \<Longrightarrow> option_ok (WithCacheOptions co)"
  "0 < bits_of n r \<Longrightarrow> unat (bits_of n r) \<le> 2 ^ 64 - 64 \<Longrightarrow> option_ok (WithBloomFilter bits_of hashes_of n r)"
  using new_filter_empty [of bits_of n r hashes_of] by (auto simp: option_ok_def WithBloomFilter_def)

definition new_ok :: "Group \<Rightarrow> bool" where
  "new_ok g \<longleftrightarrow> cache_inv (mainCache g) \<and> (\<forall>k. cache_can (mainCache g) k = {}) \<and> \<not> closed (mainCache g) \<and>
     \<not> g_closed g \<and> \<not> done_ch g \<and> syncTasks g = [] \<and>
     (\<forall>bf. bloomFilter g = Some bf \<longrightarrow> bloom_ok bf \<and> (\<forall>k. Contains bf k = Some False))"

lemma new_cache_ok:
  "opts_ok (storeOpts co) \<Longrightarrow> cache_inv (NewCache co) \<and> (\<forall>k. cache_can (NewCache co) k = {}) \<and> \<not> closed (NewCache co)"
  using NewCache_inv [of co] by (simp add: NewCache_def)

lemma option_new: "option_ok opt \<Longrightarrow> new_ok g \<Longrightarrow> new_ok (opt g)"
  using new_cache_ok
  by (auto simp: option_ok_def new_ok_def WithExpiration_def WithPeers_def WithCacheOptions_def)

lemma options_new: "\<forall>opt \<in> set opts. option_ok opt \<Longrightarrow> new_ok g \<Longrightarrow> new_ok (fold (\<lambda>opt g. opt g) opts g)"
  by (induction opts arbitrary: g) (auto intro: option_new)

lemma make_group_new: "\<forall>opt \<in> set opts. option_ok opt \<Longrightarrow> new_ok (make_group name cacheBytes opts)"
proof -
  assume ok: "\<forall>opt \<in> set opts. option_ok opt"
  let ?g = "\<lparr>g_name = name, mainCache = NewCache (DefaultCacheOptions\<lparr>co_MaxBytes := cacheBytes\<rparr>),
               has_peers = False, g_expiration = 0, g_closed = False, bloomFilter = None,
               g_stats = zero_stats, done_ch = False, syncTasks = [], workers = 0\<rparr>"
  have "new_ok ?g" using new_cache_ok [OF default_opts_ok] by (simp add: new_ok_def)
  from options_new [OF ok this] show ?thesis by (simp add: make_group_def new_ok_def)
qed

lemma new_inv:
  assumes "new_ok g" and "workers g \<noteq> 0"
  shows "group_inv g" and "group_can g k = {}"
  using assms by (simp_all add: new_ok_def group_inv_def group_can_def)

lemma make_group_inv:
  assumes "\<forall>opt \<in> set opts. option_ok opt"
  shows "group_inv (make_group name cacheBytes opts)" and "group_can (make_group name cacheBytes opts) k = {}"
  using new_inv [OF make_group_new [OF assms]] by (simp_all add: make_group_def syncWorkerCount_def)

lemma group_runs_inv: "\<forall>opt \<in> set opts. option_ok opt \<Longrightarrow> runs group_step (make_group name cacheBytes opts) ops g \<Longrightarrow> group_inv g"
  using groupc.runs_inv make_group_inv(1) by blast

lemma load_value:
  assumes inv: "group_inv g" and W: "world_ok W"
  shows "\<exists>g1 g'. loadData W g key = Some (g1, loaded W g key, map (\<lambda>p. RpcGet p (g_name g) key) (asked W g key)) \<and>
    same_core g g1 \<and> load_rest W g1 key (Some (loaded W g key)) = Some (g', loaded W g key) \<and> group_inv g' \<and>
    load W g key = Some (g', loaded W g key, map (\<lambda>p. RpcGet p (g_name g) key) (asked W g key))"
proof -
  obtain g1 r cs where run: "loadData W g key = Some (g1, r, cs)" using loadData_total [OF W, of g key] by auto
  note l = loadData_loaded [OF run]
  have "group_inv g1" using l same_core_inv inv by blast
  from load_rest_law [OF this W, of key r] obtain g' where "load_rest W g1 key (Some r) = Some (g', r)" "group_inv g'" by blast
  with run l show ?thesis by (auto simp: load_def)
qed

lemma loaded_name:
  assumes n: "g_name g' = g_name g" and h: "has_peers g' = has_peers g"
  shows "loaded W g' key = loaded W g key" and "asked W g' key = asked W g key"
proof -
  have c: "candidates W g' key = candidates W g key" by (simp add: candidates_def h)
  have a: "answers W g' key = answers W g key" by (simp add: answers_def [abs_def] n)
  show "loaded W g' key = loaded W g key" by (simp add: loaded_def c a n cong: option.case_cong)
  show "asked W g' key = asked W g key" by (simp add: asked_def c a)
qed

text \<open>The two ways of a \<open>Get\<close>: it ends in the lookup, or it loads.\<close>

lemma group_Get_cases:
  assumes inv: "group_inv g" and W: "world_ok W"
  obtains g1 r where "group_lookup W g key = Some (g1, Some r)" "group_Get W g key = Some (g1, r, [])"
      "\<forall>v. r = Inr v \<longrightarrow> v \<in> group_can g key"
  | g1 g' where "group_lookup W g key = Some (g1, None)" "group_inv g1"
      "group_Get W g key = Some (g', loaded W g key, map (\<lambda>p. RpcGet p (g_name g) key) (asked W g key))"
      "group_inv g'" "load W g1 key = Some (g', loaded W g key, map (\<lambda>p. RpcGet p (g_name g) key) (asked W g key))"
proof -
  obtain g1 r where l: "group_lookup W g key = Some (g1, r)" "group_inv g1" "\<forall>v. r = Some (Inr v) \<longrightarrow> v \<in> group_can g key"
      "g_name g1 = g_name g" "has_peers g1 = has_peers g"
    using group_lookup_law [OF inv W, of key] by blast
  show thesis
  proof (cases r)
    case (Some q)
    then show thesis using l by (intro that(1) [of g1 q]) (simp_all add: group_Get_def)
  next
    case None
    from load_value [OF l(2) W, of key, unfolded loaded_name [OF l(4,5)] l(4)] obtain g' where "group_inv g'"
      "load W g1 key = Some (g', loaded W g key, map (\<lambda>p. RpcGet p (g_name g) key) (asked W g key))" by blast
    then show thesis using l None by (intro that(2) [of g1 g']) (simp_all add: group_Get_def)
  qed
qed

section \<open>What \<open>Get\<close> returns\<close>


text \<open>A world for the witnesses: one peer, which does not answer, and a data source with one key.\<close>

definition plain_picker :: "string PeerPicker" where
  "plain_picker = \<lparr>PickPeer = (\<lambda>_. (Some ''p'', True, False)), PickPeerWithFallback = None, GetAllPeers = None\<rparr>"

definition world0 :: "(string, string) world" where
  "world0 = \<lparr>senv = env0, now_at = 0, until_at = 0, took = 5,
     source = (\<lambda>k. if k = ''k'' then Inr ''v'' else Inl ''no such key''),
     picker = plain_picker, peer_reply = (\<lambda>p g k. Inl ''down'')\<rparr>"

lemma world0_ok: "world_ok world0"
  using env0_for by (simp add: world_ok_def world0_def picker_ok_def plain_picker_def)

lemma new_group_facts:
  "runs group_step (make_group ''g'' 100 [WithPeers True]) [] (make_group ''g'' 100 [WithPeers True])"
  "\<forall>opt \<in> set [WithPeers True]. option_ok opt"
  by (simp_all add: runs_Nil option_ok_cases)


lemma load_source_stats:
  "load_source W g key = (g', r) \<Longrightarrow> loads (g_stats g') = loads (g_stats g) \<and> loaderErrors (g_stats g') = loaderErrors (g_stats g)"
  by (auto simp: load_source_def add_loaderHits_def split: sum.splits)

lemma loadData_stats:
  assumes "loadData W g key = Some (g', r, cs)"
  shows "loads (g_stats g') = loads (g_stats g) \<and> loaderErrors (g_stats g') = loaderErrors (g_stats g)"
  using assms load_source_stats [of W g key] load_source_stats [of W "add_peerMisses g" key]
  by (auto simp: loadData_def Let_def add_peerHits_def add_peerMisses_def split: if_splits option.splits prod.splits)

lemma keep_stats: "keep W g key v = Some g' \<Longrightarrow> g_stats g' = g_stats g"
  by (auto simp: keep_def bind_eq_Some_conv split: option.splits)

lemma load_rest_stats:
  assumes "load_rest W g key (Some r) = Some (g', r)"
  shows "loads (g_stats g') = wrap64 (loads (g_stats g) + 1) \<and>
    loaderErrors (g_stats g') = (case r of Inl _ \<Rightarrow> wrap64 (loaderErrors (g_stats g) + 1) | Inr _ \<Rightarrow> loaderErrors (g_stats g)) \<and>
    (\<forall>e. r = Inl e \<longrightarrow> mainCache g' = mainCache g)"
  using assms
  by (cases r)
    (auto simp: load_rest_def Let_def add_loads_def add_loaderErrors_def bind_eq_Some_conv dest: keep_stats)

lemma lookup_stats:
  assumes "group_lookup W g key = Some (g', None)"
  shows "loads (g_stats g') = loads (g_stats g) \<and> loaderErrors (g_stats g') = loaderErrors (g_stats g) \<and>
    localMisses (g_stats g') = wrap64 (localMisses (g_stats g) + 1)"
  using assms
  by (auto simp: group_lookup_def bind_eq_Some_conv add_localHits_def add_localMisses_def Let_def split: if_splits)

text \<open>C9: A Get that misses the cache loads the key exactly as the reference says: it asks the primary and
  then the replica (or the one peer of a picker without replicas), stops at the first answer, and
  asks the data source only when no peer has answered; the outcome is counted as a load, and an
  error as a loader error.\<close>
theorem group_Get_miss:
  assumes "group_inv g" and "world_ok W" and "group_lookup W g key = Some (g1, None)"
  shows "\<exists>g'. group_Get W g key = Some (g', loaded W g key, map (\<lambda>p. RpcGet p (g_name g) key) (asked W g key)) \<and>
    group_inv g' \<and> loads (g_stats g') = wrap64 (loads (g_stats g) + 1) \<and>
    loaderErrors (g_stats g') = (case loaded W g key of Inl _ \<Rightarrow> wrap64 (loaderErrors (g_stats g) + 1) | Inr _ \<Rightarrow> loaderErrors (g_stats g)) \<and>
    (\<forall>e. loaded W g key = Inl e \<longrightarrow> mainCache g' = mainCache g1)"
proof -
  obtain g1' r where l: "group_lookup W g key = Some (g1', r)" "group_inv g1'" "g_name g1' = g_name g" "has_peers g1' = has_peers g"
    using group_lookup_law [OF assms(1,2), of key] by blast
  then have inv1: "group_inv g1" and same: "g_name g1 = g_name g" "has_peers g1 = has_peers g" using assms(3) by simp_all
  note ln = loaded_name [OF same, where W = W and key = key]
  obtain g2 g' where d: "loadData W g1 key = Some (g2, loaded W g key, map (\<lambda>p. RpcGet p (g_name g) key) (asked W g key))"
      "same_core g1 g2" "load_rest W g2 key (Some (loaded W g key)) = Some (g', loaded W g key)" "group_inv g'"
      "load W g1 key = Some (g', loaded W g key, map (\<lambda>p. RpcGet p (g_name g) key) (asked W g key))"
    using load_value [OF inv1 assms(2), of key] unfolding ln same by blast
  have "mainCache g2 = mainCache g1" using d(2) by (simp add: same_core_def)
  with d(5) d(4) loadData_stats [OF d(1)] load_rest_stats [OF d(3)] lookup_stats [OF assms(3)] assms(3)
  show ?thesis by (auto simp: group_Get_def split: sum.splits)
qed

lemma plain_miss: "group_lookup world0 (make_group ''g'' 100 [WithPeers True]) ''k'' =
    Some (add_localMisses ((make_group ''g'' 100 [WithPeers True])\<lparr>mainCache :=
      count_miss (NewCache (DefaultCacheOptions\<lparr>co_MaxBytes := 100\<rparr>))\<rparr>), None)"
  by (simp add: group_lookup_def make_group_def WithPeers_def cache_Get_def NewCache_def world0_def)

theorem group_Get_miss_witness:
  "\<exists>g'. group_Get world0 (make_group ''g'' 100 [WithPeers True]) ''k'' =
     Some (g', Inr (ByteView ''v''), [RpcGet ''p'' ''g'' ''k'']) \<and> loads (g_stats g') = 1"
proof -
  let ?g = "make_group ''g'' 100 [WithPeers True]"
  have l: "loaded world0 ?g ''k'' = Inr (ByteView ''v'')" "asked world0 ?g ''k'' = [''p'']"
    by (simp_all add: loaded_def asked_def candidates_def answers_def make_group_def WithPeers_def world0_def
        plain_picker_def List.map_filter_simps)
  have "group_inv ?g" by (rule make_group_inv(1) [OF new_group_facts(2)])
  from group_Get_miss [OF this world0_ok plain_miss] obtain g' where
    "group_Get world0 ?g ''k'' = Some (g', loaded world0 ?g ''k'', map (\<lambda>p. RpcGet p (g_name ?g) ''k'') (asked world0 ?g ''k''))"
    "loads (g_stats g') = wrap64 (loads (g_stats ?g) + 1)" by blast
  moreover have "g_name ?g = ''g''" "loads (g_stats ?g) = 0"
    by (simp_all add: make_group_def WithPeers_def zero_stats_def)
  ultimately show ?thesis by (simp add: l wrap64_def)
qed

section \<open>Reading back a write\<close>

definition lifetime :: "('p, 'e) world \<Rightarrow> Group \<Rightarrow> int" where
  "lifetime W g = (if g_expiration g > 0 then now_at W + g_expiration g - until_at W else default_expiration)"

lemma keep_found:
  assumes inv: "group_inv g" and W': "world_ok W'" and op: "\<not> g_closed g" and key: "key \<noteq> []"
    and lru2: "co_CacheType (copts (mainCache g)) = LRU2"
    and store: "\<And>S. cstore (mainCache g) = Some S \<Longrightarrow> \<exists>s. S = Lru2Store s"
    and t: "0 \<le> clock (senv W)" "0 < lifetime W g" "clock (senv W) + lifetime W g < 2 ^ 63"
      "clock' (senv W') < clock (senv W) + lifetime W g"
    and run: "keep W g key v = Some g'"
  shows "\<exists>c. cache_Get (senv W') (mainCache g') key = Some (c, v, True)"
proof -
  have ci: "cache_inv (mainCache g)" "\<not> closed (mainCache g)" using inv op by (simp_all add: group_inv_def)
  have E: "env_for bv_Len (senv W')" using W' by (simp add: world_ok_def)
  obtain s s1 c2 where r: "cstore (ensureInitialized (mainCache g)) = Some (Lru2Store s)"
    "lru2_SetWithExpiration s key (Some v) (lifetime W g) (clock (senv W)) = Some s1"
    "cache_Get (senv W') ((ensureInitialized (mainCache g))\<lparr>cstore := Some (Lru2Store s1)\<rparr>) key = Some (c2, v, True)"
    using two_level_put [OF ci lru2 store E t, of key v] by blast
  have "mainCache g' = (ensureInitialized (mainCache g))\<lparr>cstore := Some (Lru2Store s1)\<rparr>"
    using run r(1,2) ci(2) t(2)
    by (auto simp: keep_def bind_eq_Some_conv lifetime_def cache_Add_def cache_Add_locked_def cache_AddWithExpiration_def
        store_Set_def store_SetWithExpiration_def lru2_Set_def Let_def split: if_splits option.splits)
  with r(3) show ?thesis by simp
qed

lemma set_then_get:
  assumes "group_inv g" and "world_ok W" and "world_ok W'" and "\<not> g_closed g" and "key \<noteq> []" and "value \<noteq> []"
    and "co_CacheType (copts (mainCache g)) = LRU2"
    and "\<And>S. cstore (mainCache g) = Some S \<Longrightarrow> \<exists>s. S = Lru2Store s"
    and "0 \<le> clock (senv W)" and "0 < lifetime W g" and "clock (senv W) + lifetime W g < 2 ^ 63"
    and "clock' (senv W') < clock (senv W) + lifetime W g"
  shows "\<exists>g1 g2. group_Set W ctx g key value = Some (g1, None) \<and>
    group_Get W' g1 key = Some (g2, Inr (ByteView value), [])"
proof -
  obtain g0 where k: "keep W g key (ByteView value) = Some g0" "g_closed g0 = g_closed g"
    "bloomFilter g = None \<longrightarrow> bloomFilter g0 = None"
    "\<forall>bf. bloomFilter g = Some bf \<longrightarrow> (\<exists>bf'. bloomFilter g0 = Some bf' \<and> Contains bf' key = Some True)"
    using keep_law [OF assms(1,2), of key "ByteView value"] by (elim exE conjE) (rule that; blast)
  obtain c where c: "cache_Get (senv W') (mainCache g0) key = Some (c, ByteView value, True)"
    using keep_found [OF assms(1,3-5,7-12) k(1)] by blast
  obtain t where set_g: "group_Set W ctx g key value =
      Some (if \<not> from_peer ctx \<and> \<not> from_migration ctx \<and> has_peers g0 then enqueue g0 t else g0, None)"
    using k(1) assms(4-6) by (auto simp: group_Set_def)
  have en: "mainCache (enqueue g0 t) = mainCache g0" "bloomFilter (enqueue g0 t) = bloomFilter g0" "g_closed (enqueue g0 t) = g_closed g0"
    by (simp_all add: enqueue_def)
  have "(case bloomFilter g0 of Some bf \<Rightarrow> Contains bf key | None \<Rightarrow> Some True) = Some True"
    using k(3,4) by (cases "bloomFilter g") auto
  then have "\<exists>g2. group_Get W' h key = Some (g2, Inr (ByteView value), [])"
    if "mainCache h = mainCache g0" "bloomFilter h = bloomFilter g0" "g_closed h = g_closed g0" for h
    using that c k(2) assms(4,5) by (simp add: group_Get_def group_lookup_def)
  with set_g en show ?thesis by (cases "\<not> from_peer ctx \<and> \<not> from_migration ctx \<and> has_peers g0") auto
qed

text \<open>A value that Set has accepted is returned by a Get that follows within its lifetime, without a
  call to any peer, also when the group has a Bloom filter.\<close>
theorem group_Set_Get:
  assumes "group_inv g" and "world_ok W" and "world_ok W'" and "\<not> g_closed g" and "key \<noteq> []" and "value \<noteq> []"
    and "co_CacheType (copts (mainCache g)) = LRU2"
    and "\<And>S. cstore (mainCache g) = Some S \<Longrightarrow> \<exists>s. S = Lru2Store s"
    and "0 \<le> clock (senv W)" and "0 < lifetime W g" and "clock (senv W) + lifetime W g < 2 ^ 63"
    and "clock' (senv W') < clock (senv W) + lifetime W g"
  shows "\<exists>g1 g2. group_Set W ctx g key value = Some (g1, None) \<and>
    group_Get W' g1 key = Some (g2, Inr (ByteView value), [])"
  by (rule set_then_get [OF assms])

theorem group_Set_Get_witness:
  "\<exists>g1 g2. group_Set world0 Background (make_group ''g'' 100 [WithPeers True]) ''k'' ''w'' = Some (g1, None) \<and>
     group_Get world0 g1 ''k'' = Some (g2, Inr (ByteView ''w''), [])"
proof (rule group_Set_Get)
  show "group_inv (make_group ''g'' 100 [WithPeers True])" by (rule make_group_inv(1) [OF new_group_facts(2)])
qed (simp_all add: world0_ok, simp_all add: make_group_def WithPeers_def NewCache_def DefaultCacheOptions_def lifetime_def world0_def env0_def default_expiration_def)

section \<open>The Bloom filter as a gate\<close>

text \<open>How a step moves the filter: it only gains keys, and a stored key is gained.\<close>

definition filter_grows :: "Group \<Rightarrow> Group \<Rightarrow> bool" where
  "filter_grows g g' \<longleftrightarrow> (case bloomFilter g of
     None \<Rightarrow> bloomFilter g' = None
   | Some bf \<Rightarrow> (\<exists>bf'. bloomFilter g' = Some bf' \<and> (\<forall>k. Contains bf k = Some True \<longrightarrow> Contains bf' k = Some True)))"

definition passes :: "Group \<Rightarrow> string \<Rightarrow> bool" where
  "passes g key \<longleftrightarrow> (case bloomFilter g of None \<Rightarrow> True | Some bf \<Rightarrow> Contains bf key = Some True)"

lemma same_filter: "bloomFilter g' = bloomFilter g \<Longrightarrow> filter_grows g g'"
  by (simp add: filter_grows_def split: option.split)

lemma keep_filter: "group_inv g \<Longrightarrow> world_ok W \<Longrightarrow> keep W g key v = Some g' \<Longrightarrow> filter_grows g g' \<and> passes g' key"
  using keep_law [of g W key v] by (auto simp: filter_grows_def passes_def split: option.split)

lemma enqueue_filter: "bloomFilter (enqueue g t) = bloomFilter g"
  by (simp add: enqueue_def)

lemma passes_filter: "bloomFilter g' = bloomFilter g \<Longrightarrow> passes g' key = passes g key"
  by (simp add: passes_def)

lemma put_filter:
  assumes inv: "group_inv g" and st: "group_step g (PutOp key v) g'"
  shows "filter_grows g g' \<and> passes g' key"
proof -
  obtain W where W: "world_ok W" and "group_put W key v g g'"
    using group_step_world [OF st] by auto
  from this(2) show ?thesis
  proof cases
    case (put_set ctx)
    then obtain g0 where g0: "keep W g key v = Some g0" "bloomFilter g' = bloomFilter g0"
      by (auto simp: group_Set_def bind_eq_Some_conv enqueue_filter split: if_splits)
    from keep_filter [OF inv W g0(1)] show ?thesis unfolding filter_grows_def passes_def g0(2) .
  next
    case put_direct
    then have "keep W g key v = Some g'" by (simp add: SetLocalDirect_def)
    with keep_filter [OF inv W] show ?thesis by blast
  next
    case (put_loaded r)
    then have k: "keep W (add_loads (took W) g) key v = Some g'" by (auto simp: load_rest_def Let_def bind_eq_Some_conv)
    have "group_inv (add_loads (took W) g)" "bloomFilter (add_loads (took W) g) = bloomFilter g"
      using same_core_inv [OF counters_core(1)] inv by (simp_all add: add_loads_def)
    with keep_filter [OF _ W k] show ?thesis by (simp add: filter_grows_def)
  qed
qed

lemma other_filter:
  "group_inv g \<Longrightarrow> group_step g op g' \<Longrightarrow> (\<forall>k v. op \<noteq> PutOp k v) \<Longrightarrow> bloomFilter g' = bloomFilter g"
  using group_step_law by blast

lemma step_filter: "group_inv g \<Longrightarrow> group_step g op g' \<Longrightarrow> filter_grows g g'"
  using put_filter other_filter same_filter by (metis store_op.exhaust)

lemma grows_passes: "filter_grows g g' \<Longrightarrow> passes g key \<Longrightarrow> passes g' key"
  by (auto simp: filter_grows_def passes_def split: option.splits)

lemma runs_passes:
  "runs group_step g0 ops g \<Longrightarrow> group_inv g0 \<Longrightarrow> PutOp key v \<in> set ops \<Longrightarrow> passes g key"
proof (induction rule: runs.induct)
  case (runs_snoc s ops s' op s'')
  have inv: "group_inv s'" using groupc.runs_inv runs_snoc by blast
  show ?case
  proof (cases "op = PutOp key v")
    case True
    then show ?thesis using put_filter [OF inv] runs_snoc by blast
  next
    case False
    then have "passes s' key" using runs_snoc by simp
    with grows_passes [OF step_filter [OF inv runs_snoc.hyps(2)]] show ?thesis by blast
  qed
qed simp

lemma runs_same_filter:
  "runs group_step g0 ops g \<Longrightarrow> group_inv g0 \<Longrightarrow> (\<forall>k v. PutOp k v \<notin> set ops) \<Longrightarrow> bloomFilter g = bloomFilter g0"
proof (induction rule: runs.induct)
  case (runs_snoc s ops s' op s'')
  have "group_inv s'" using groupc.runs_inv runs_snoc by blast
  with other_filter [of s' op s''] runs_snoc show ?case by (metis Un_iff list.set_intros(1) set_append)
qed simp

lemma loaded_found: "loaded W g key \<noteq> Inl ErrKeyNotFound"
  by (auto simp: loaded_def split: option.split sum.split)



definition filtered :: Group where
  "filtered = make_group ''g'' 100 [WithBloomFilter (\<lambda>n r. 96) (\<lambda>m n. 7) 10 ()]"

lemma filtered_ok: "\<forall>opt \<in> set [WithBloomFilter (\<lambda>n r. 96) (\<lambda>m n. 7) 10 ()]. option_ok opt"
  by (simp add: option_ok_cases)



section \<open>The queue and its workers\<close>

lemma group_Set_keep:
  assumes "group_Set W ctx g key value = Some (g1, None)"
  shows "\<exists>g0. keep W g key (ByteView value) = Some g0 \<and>
    g1 = (if \<not> from_peer ctx \<and> \<not> from_migration ctx \<and> has_peers g0
       then enqueue g0 \<lparr>t_op = ''set'', t_key = key, t_value = value\<rparr> else g0)"
proof (cases "keep W g key (ByteView value)")
  case None
  then show ?thesis using assms by (simp add: group_Set_def split: if_split_asm)
next
  case (Some g0)
  then show ?thesis using assms by (auto simp: group_Set_def split: if_split_asm)
qed

lemma enqueue_tasks:
  "syncTasks (enqueue g t) = (if length (syncTasks g) < 1024 then syncTasks g @ [t] else syncTasks g)"
  by (simp add: enqueue_def syncChannelBuffer_def)

lemma sends_marked:
  "processSyncTask W g task = Some sent \<Longrightarrow>
   \<forall>c \<in> set sent. (\<exists>p k v. c = RpcSet p peer_ctx (g_name g) k v) \<or> (\<exists>p k. c = RpcDelete p peer_ctx (g_name g) k)"
  by (auto simp: processSyncTask_def syncToPeersWithReplica_def syncToPeers_def broadcastDelete_def send_def
      split: if_splits option.splits prod.splits)

text \<open>C25: Only a client's own write is passed on: an accepted Set or Delete appends one task to the queue
  when its context has no peer or migration mark, the group has peers and the queue has room, and
  otherwise leaves the queue as it is; every call a task leads to carries the peer mark.\<close>
theorem group_writes_queue:
  assumes "group_inv g" and "world_ok W"
  shows "(group_Set W ctx g key value = Some (g1, None) \<longrightarrow>
      syncTasks g1 = (if \<not> from_peer ctx \<and> \<not> from_migration ctx \<and> has_peers g \<and> length (syncTasks g) < 1024
        then syncTasks g @ [\<lparr>t_op = ''set'', t_key = key, t_value = value\<rparr>] else syncTasks g)) \<and>
    (group_Delete W ctx g key = Some (g2, None) \<longrightarrow>
      syncTasks g2 = (if \<not> from_peer ctx \<and> \<not> from_migration ctx \<and> has_peers g \<and> length (syncTasks g) < 1024
        then syncTasks g @ [\<lparr>t_op = ''broadcast_delete'', t_key = key, t_value = []\<rparr>] else syncTasks g)) \<and>
    (processSyncTask W g task = Some sent \<longrightarrow>
      (\<forall>c \<in> set sent. (\<exists>p k v. c = RpcSet p peer_ctx (g_name g) k v) \<or> (\<exists>p k. c = RpcDelete p peer_ctx (g_name g) k)))"
proof (intro conjI impI)
  assume "group_Set W ctx g key value = Some (g1, None)"
  from group_Set_keep [OF this] obtain g0 where g0: "keep W g key (ByteView value) = Some g0"
    "g1 = (if \<not> from_peer ctx \<and> \<not> from_migration ctx \<and> has_peers g0
       then enqueue g0 \<lparr>t_op = ''set'', t_key = key, t_value = value\<rparr> else g0)" by blast
  have "has_peers g0 = has_peers g" "syncTasks g0 = syncTasks g"
    using keep_law [OF assms, of key "ByteView value"] g0(1) by auto
  with g0(2) show "syncTasks g1 = (if \<not> from_peer ctx \<and> \<not> from_migration ctx \<and> has_peers g \<and> length (syncTasks g) < 1024
        then syncTasks g @ [\<lparr>t_op = ''set'', t_key = key, t_value = value\<rparr>] else syncTasks g)"
    by (auto simp: enqueue_def syncChannelBuffer_def)
next
  assume "group_Delete W ctx g key = Some (g2, None)"
  then show "syncTasks g2 = (if \<not> from_peer ctx \<and> \<not> from_migration ctx \<and> has_peers g \<and> length (syncTasks g) < 1024
        then syncTasks g @ [\<lparr>t_op = ''broadcast_delete'', t_key = key, t_value = []\<rparr>] else syncTasks g)"
    by (cases "cache_Delete (senv W) (mainCache g) key")
      (auto simp: group_Delete_def enqueue_tasks Let_def split: if_split_asm)
next
  assume "processSyncTask W g task = Some sent"
  then show "\<forall>c \<in> set sent. (\<exists>p k v. c = RpcSet p peer_ctx (g_name g) k v) \<or> (\<exists>p k. c = RpcDelete p peer_ctx (g_name g) k)"
    by (rule sends_marked)
qed

theorem group_writes_queue_witness:
  "\<exists>g1. group_Set world0 Background (make_group ''g'' 100 [WithPeers True]) ''k'' ''w'' = Some (g1, None) \<and>
     syncTasks g1 = [\<lparr>t_op = ''set'', t_key = ''k'', t_value = ''w''\<rparr>]"
proof -
  let ?g = "make_group ''g'' 100 [WithPeers True]"
  have inv: "group_inv ?g" by (rule make_group_inv(1) [OF new_group_facts(2)])
  have facts: "has_peers ?g" "syncTasks ?g = []" "\<not> g_closed ?g" by (simp_all add: make_group_def WithPeers_def)
  obtain g1 e where g1: "group_Set world0 Background ?g ''k'' ''w'' = Some (g1, e)"
    using group_Set_law [OF inv world0_ok] by blast
  then have "e = None" using facts by (auto simp: group_Set_def bind_eq_Some_conv)
  with g1 group_writes_queue [OF inv world0_ok, of Background "''k''" "''w''" g1] facts show ?thesis
    by (simp add: Background_def)
qed

text \<open>The turns of a worker that takes every task that is queued.\<close>

fun drain :: "('p, 'e) world \<Rightarrow> nat \<Rightarrow> Group \<Rightarrow> (Group \<times> 'p rpc list) option" where
  "drain W 0 g = Some (g, [])"
| "drain W (Suc n) g = do {
     (g, cs) \<leftarrow> worker_take W g;
     (g, cs') \<leftarrow> drain W n g;
     Some (g, cs @ cs') }"

lemma sync_frame:
  "send (g\<lparr>syncTasks := ts\<rparr>) = send g"
  "syncToPeers W (g\<lparr>syncTasks := ts\<rparr>) = syncToPeers W g"
  "syncToPeersWithReplica W (g\<lparr>syncTasks := ts\<rparr>) = syncToPeersWithReplica W g"
  "broadcastDelete W (g\<lparr>syncTasks := ts\<rparr>) = broadcastDelete W g"
proof -
  have f: "has_peers (g\<lparr>syncTasks := ts\<rparr>) = has_peers g" "g_name (g\<lparr>syncTasks := ts\<rparr>) = g_name g" by simp_all
  show s: "send (g\<lparr>syncTasks := ts\<rparr>) = send g" by (simp add: send_def fun_eq_iff)
  show p: "syncToPeers W (g\<lparr>syncTasks := ts\<rparr>) = syncToPeers W g" by (intro ext) (simp only: syncToPeers_def s f)
  show r: "syncToPeersWithReplica W (g\<lparr>syncTasks := ts\<rparr>) = syncToPeersWithReplica W g"
    by (intro ext) (simp only: syncToPeersWithReplica_def s p f)
  show "broadcastDelete W (g\<lparr>syncTasks := ts\<rparr>) = broadcastDelete W g"
    by (intro ext) (simp only: broadcastDelete_def r f)
qed

lemma processSyncTask_frame: "processSyncTask W (g\<lparr>syncTasks := ts\<rparr>) t = processSyncTask W g t"
  by (simp only: processSyncTask_def sync_frame)

lemma drain_all:
  assumes W: "world_ok W" and w: "workers g > 0"
  shows "\<exists>css. drain W (length ts) (g\<lparr>syncTasks := ts\<rparr>) = Some (g\<lparr>syncTasks := []\<rparr>, concat css) \<and>
    map Some css = map (processSyncTask W g) ts"
proof (induction ts)
  case (Cons t ts)
  obtain cs where cs: "processSyncTask W g t = Some cs" using processSyncTask_total [OF W] by blast
  then have take: "worker_take W (g\<lparr>syncTasks := t # ts\<rparr>) = Some (g\<lparr>syncTasks := ts\<rparr>, cs)"
    using w by (simp add: worker_take_def processSyncTask_frame)
  obtain css where css: "drain W (length ts) (g\<lparr>syncTasks := ts\<rparr>) = Some (g\<lparr>syncTasks := []\<rparr>, concat css)"
    "map Some css = map (processSyncTask W g) ts" using Cons.IH by blast
  show ?case by (rule exI [of _ "cs # css"]) (simp add: take css cs)
qed simp

lemma workers_return:
  "done_ch g \<Longrightarrow> syncTasks g = [] \<Longrightarrow> workers ((worker_return ^^ n) g) = workers g - n \<and>
    done_ch ((worker_return ^^ n) g) \<and> syncTasks ((worker_return ^^ n) g) = []"
  by (induction n) (auto simp: worker_return_def)



text \<open>A load that began before a \<open>Delete\<close> of its key and ends after it puts the deleted value back:
  the next \<open>Get\<close> returns it, although the data source no longer has the key.\<close>

theorem group_load_Delete_race:
  "\<exists>g1 g2 g3 g4 g5. group_lookup world0 (make_group ''g'' 100 []) ''k'' = Some (g1, None) \<and>
     loadData world0 g1 ''k'' = Some (g2, Inr (ByteView ''v''), []) \<and>
     group_Delete world0 Background g2 ''k'' = Some (g3, None) \<and>
     load_rest world0 g3 ''k'' (Some (Inr (ByteView ''v''))) = Some (g4, Inr (ByteView ''v'')) \<and>
     group_Get (world0\<lparr>source := \<lambda>_. Inl ''deleted''\<rparr>) g4 ''k'' = Some (g5, Inr (ByteView ''v''), [])"
proof -
  let ?g0 = "make_group ''g'' 100 []" and ?W = "world0\<lparr>source := \<lambda>_. Inl ''deleted''\<rparr>"
  let ?g1 = "add_localMisses (?g0\<lparr>mainCache := count_miss (mainCache ?g0)\<rparr>)"
  let ?g2 = "add_loaderHits ?g1"
  let ?g3 = "add_loads 5 ?g2"
  have f: "g_closed ?g0 = False" "bloomFilter ?g0 = None" "has_peers ?g0 = False" "g_expiration ?g0 = 0"
    "mainCache ?g0 = NewCache (DefaultCacheOptions\<lparr>co_MaxBytes := 100\<rparr>)" by (simp_all add: make_group_def)
  have 1: "group_lookup world0 ?g0 ''k'' = Some (?g1, None)"
    using f by (simp add: group_lookup_def cache_Get_def NewCache_def)
  have 2: "loadData world0 ?g1 ''k'' = Some (?g2, Inr (ByteView ''v''), [])"
    using f by (simp add: loadData_def Let_def load_source_def world0_def add_localMisses_def)
  have 3: "group_Delete world0 Background ?g2 ''k'' = Some (?g2, None)"
  proof -
    have "cache_Delete (senv world0) (mainCache ?g2) ''k'' = Some (mainCache ?g2, False)"
      using f by (simp add: cache_Delete_def NewCache_def count_miss_def add_loaderHits_def)
    moreover have "?g2\<lparr>mainCache := mainCache ?g2\<rparr> = ?g2" "g_closed ?g2 = False"
      using f by (simp_all add: add_loaderHits_def add_localMisses_def)
    ultimately show ?thesis by (simp add: group_Delete_def Background_def Let_def) (use f in \<open>simp add: add_loaderHits_def add_localMisses_def\<close>)
  qed
  have i0: "group_inv ?g0" by (rule make_group_inv(1)) simp
  have i1: "group_inv ?g1" using group_lookup_law [OF i0 world0_ok, of "''k''"] 1 by auto
  have i3: "group_inv ?g3" using i1 same_core_inv [OF counters_core(6), of ?g1] same_core_inv [OF counters_core(1), of 5 ?g2] by simp
  obtain g4 where k: "keep world0 ?g3 ''k'' (ByteView ''v'') = Some g4" "g_closed g4 = g_closed ?g3" "bloomFilter g4 = None"
    using keep_law [OF i3 world0_ok, of "''k''" "ByteView ''v''"] f(2)
    by (auto simp: add_loads_def add_loaderHits_def add_localMisses_def)
  have W: "world_ok ?W" using world0_ok by (simp add: world_ok_def world0_def)
  have "\<exists>c. cache_Get (senv ?W) (mainCache g4) ''k'' = Some (c, ByteView ''v'', True)"
    by (rule keep_found [OF i3 W _ _ _ _ _ _ _ _ k(1)])
      (use f in \<open>simp_all add: add_loads_def add_loaderHits_def add_localMisses_def NewCache_def
        count_miss_def DefaultCacheOptions_def lifetime_def world0_def env0_def default_expiration_def\<close>)
  then have "\<exists>g5. group_Get ?W g4 ''k'' = Some (g5, Inr (ByteView ''v''), [])"
    using k f(1) by (auto simp: group_Get_def group_lookup_def add_loads_def add_loaderHits_def add_localMisses_def)
  moreover have "load_rest world0 ?g2 ''k'' (Some (Inr (ByteView ''v''))) = Some (g4, Inr (ByteView ''v''))"
    using k(1) by (simp add: load_rest_def Let_def world0_def)
  ultimately show ?thesis using 1 2 3 by blast
qed

end
