(* ===== verification/GroupRegistry.thy ===== *)
theory GroupRegistry
  imports GroupProps
begin

text \<open>
  The registry of groups of \<open>group.go\<close>: the package variable \<open>groups\<close> from names to group objects,
  guarded by \<open>groupsMu\<close>. Objects live at addresses (\<open>objects\<close>). \<open>groupsMu\<close> is not reentrant, so
  \<open>Close\<close>, which locks it, takes the flag \<open>locked\<close>: whether its caller holds it.
\<close>

record registry =
  groups :: "(string, nat) gomap"
  objects :: "nat \<rightharpoonup> Group"
  next_object :: nat

definition no_groups :: registry where
  "no_groups = \<lparr>groups = [], objects = Map.empty, next_object = 0\<rparr>"

definition NewGroup :: "bool \<Rightarrow> string \<Rightarrow> int \<Rightarrow> GroupOption list \<Rightarrow> registry \<Rightarrow> (registry \<times> nat) option" where
  "NewGroup getter name cacheBytes opts r =
     (if \<not> getter then None
      else
        (let a = next_object r
         in Some (r\<lparr>objects := (objects r)(a \<mapsto> make_group name cacheBytes opts),
                   next_object := a + 1, groups := AList.update name a (groups r)\<rparr>, a)))"

definition GetGroup :: "registry \<Rightarrow> string \<Rightarrow> nat option" where
  "GetGroup r name = map_of (groups r) name"

definition ListGroups :: "(string list \<Rightarrow> string list) \<Rightarrow> registry \<Rightarrow> string list" where
  "ListGroups ord r = ord (map fst (groups r))"

definition group_Close :: "bool \<Rightarrow> registry \<Rightarrow> nat \<Rightarrow> registry locking option" where
  "group_Close locked r a = do {
     g \<leftarrow> objects r a;
     (g', first) \<leftarrow> close_group g;
     Some (if \<not> first then Returns r
           else if locked then Deadlock
           else Returns (r\<lparr>objects := (objects r)(a \<mapsto> g'), groups := AList.delete (g_name g) (groups r)\<rparr>)) }"

definition DestroyGroup :: "registry \<Rightarrow> string \<Rightarrow> (registry \<times> bool) locking option" where
  "DestroyGroup r name = (case map_of (groups r) name of
     Some a \<Rightarrow> do {
       x \<leftarrow> group_Close True r a;
       Some (case x of
         Deadlock \<Rightarrow> Deadlock
       | Returns r \<Rightarrow> Returns (r\<lparr>groups := AList.delete name (groups r)\<rparr>, True)) }
   | None \<Rightarrow> Some (Returns (r, False)))"

text \<open>The loop of \<open>DestroyAllGroups\<close> over the names still to visit.\<close>

fun destroy_loop :: "string list \<Rightarrow> registry \<Rightarrow> registry locking option" where
  "destroy_loop [] r = Some (Returns r)"
| "destroy_loop (name # names) r = (case map_of (groups r) name of
     None \<Rightarrow> destroy_loop names r
   | Some a \<Rightarrow> do {
       x \<leftarrow> group_Close True r a;
       case x of
         Deadlock \<Rightarrow> Some Deadlock
       | Returns r \<Rightarrow> destroy_loop names (r\<lparr>groups := AList.delete name (groups r)\<rparr>) })"

definition DestroyAllGroups :: "(string list \<Rightarrow> string list) \<Rightarrow> registry \<Rightarrow> registry locking option" where
  "DestroyAllGroups ord r = destroy_loop (ord (map fst (groups r))) r"

section \<open>Reachable registries\<close>

text \<open>Groups are created, used and closed in any order.\<close>

inductive reg_reach :: "registry \<Rightarrow> bool" where
  reg_start: "reg_reach no_groups"
| reg_new: "reg_reach r \<Longrightarrow> (\<forall>opt \<in> set opts. option_ok opt) \<Longrightarrow> NewGroup True name cacheBytes opts r = Some (r', a) \<Longrightarrow> reg_reach r'"
| reg_close: "reg_reach r \<Longrightarrow> group_Close False r a = Some (Returns r') \<Longrightarrow> reg_reach r'"
| reg_use: "reg_reach r \<Longrightarrow> objects r a = Some g \<Longrightarrow> group_step g op g' \<Longrightarrow> op \<noteq> ClearOp \<Longrightarrow> reg_reach (r\<lparr>objects := (objects r)(a \<mapsto> g')\<rparr>)"

definition registry_inv :: "registry \<Rightarrow> bool" where
  "registry_inv r \<longleftrightarrow> map_ok (groups r) \<and>
     (\<forall>a g. objects r a = Some g \<longrightarrow> group_inv g \<and> a < next_object r) \<and>
     (\<forall>name a. map_of (groups r) name = Some a \<longrightarrow> (\<exists>g. objects r a = Some g \<and> g_name g = name \<and> \<not> g_closed g))"

lemma registeredD:
  assumes "registry_inv r" and "map_of (groups r) name = Some a"
  shows "objects r a = Some g \<Longrightarrow> g_name g = name \<and> \<not> g_closed g" and "objects r a \<noteq> None"
  using assms by (fastforce simp: registry_inv_def)+

lemma make_group_fields: "(\<forall>opt \<in> set opts. option_ok opt) \<Longrightarrow>
    g_name (make_group name cacheBytes opts) = name \<and> \<not> g_closed (make_group name cacheBytes opts)"
proof -
  assume ok: "\<forall>opt \<in> set opts. option_ok opt"
  have step: "option_ok opt \<Longrightarrow> g_name (opt g) = g_name g" for opt g
    by (auto simp: option_ok_def WithExpiration_def WithPeers_def WithCacheOptions_def)
  have "g_name (fold (\<lambda>opt g. opt g) opts g) = g_name g" for g
    using ok by (induction opts arbitrary: g) (auto simp: step)
  moreover have "\<not> g_closed (make_group name cacheBytes opts)"
    using make_group_new [OF ok, of name cacheBytes] by (simp add: new_ok_def)
  ultimately show ?thesis by (simp add: make_group_def)
qed

lemma registry_inv_new:
  assumes inv: "registry_inv r" and ok: "\<forall>opt \<in> set opts. option_ok opt"
    and run: "NewGroup True name cacheBytes opts r = Some (r', a)"
  shows "registry_inv r'" and "GetGroup r' name = Some a" and "objects r' a = Some (make_group name cacheBytes opts)"
proof -
  let ?g = "make_group name cacheBytes opts"
  have r': "r' = r\<lparr>objects := (objects r)(a \<mapsto> ?g), next_object := a + 1, groups := AList.update name a (groups r)\<rparr>"
    "a = next_object r" using run by (auto simp: NewGroup_def Let_def)
  have fresh: "objects r a = None" using inv r'(2) by (metis less_irrefl not_None_eq registry_inv_def)
  have unused: "map_of (groups r) n \<noteq> Some a" for n using fresh registeredD(2) [OF inv, of n a] by blast
  show "GetGroup r' name = Some a" "objects r' a = Some ?g"
    using inv by (simp_all add: r'(1) GetGroup_def registry_inv_def map_of_update)
  show "registry_inv r'"
    using inv unused make_group_inv(1) [OF ok] make_group_fields [OF ok] r'(2)
    by (auto simp: registry_inv_def r'(1) map_of_update less_Suc_eq split: if_split_asm)
qed

lemma group_Close_value:
  assumes inv: "registry_inv r" and a: "objects r a = Some g"
  shows "\<exists>g'. group_inv g' \<and> g_closed g' \<and> g_name g' = g_name g \<and> group_Close locked r a =
    Some (if g_closed g then Returns r else if locked then Deadlock
      else Returns (r\<lparr>objects := (objects r)(a \<mapsto> g'), groups := AList.delete (g_name g) (groups r)\<rparr>))"
proof -
  have "group_inv g" using inv a by (auto simp: registry_inv_def)
  from close_group_law [OF this] obtain g' where "close_group g = Some (g', \<not> g_closed g)" "group_inv g'" "g_closed g'"
    "g_name g' = g_name g" by blast
  then show ?thesis using a by (auto simp: group_Close_def)
qed

lemma registry_inv_close:
  assumes inv: "registry_inv r" and run: "group_Close False r a = Some (Returns r')"
  shows "registry_inv r'"
proof -
  obtain g where a: "objects r a = Some g" using run by (auto simp: group_Close_def bind_eq_Some_conv)
  obtain g' where g': "group_inv g'" "g_closed g'" "g_name g' = g_name g" "group_Close False r a =
    Some (if g_closed g then Returns r else if False then Deadlock
      else Returns (r\<lparr>objects := (objects r)(a \<mapsto> g'), groups := AList.delete (g_name g) (groups r)\<rparr>))"
    using group_Close_value [OF inv a, of False] by blast
  show ?thesis
  proof (cases "g_closed g")
    case True
    then show ?thesis using run g'(4) inv by simp
  next
    case False
    then have r': "r' = r\<lparr>objects := (objects r)(a \<mapsto> g'), groups := AList.delete (g_name g) (groups r)\<rparr>"
      using run g'(4) by simp
    have "map_of (groups r) name = Some a \<Longrightarrow> name = g_name g" for name
      using inv a by (fastforce simp: registry_inv_def)
    then show ?thesis using inv a g' by (auto simp: registry_inv_def r' map_of_delete)
  qed
qed

lemma reg_reach_inv: "reg_reach r \<Longrightarrow> registry_inv r"
proof (induction rule: reg_reach.induct)
  case reg_start
  then show ?case by (simp add: registry_inv_def no_groups_def)
next
  case (reg_new r opts name cacheBytes r' a)
  then show ?case using registry_inv_new(1) by blast
next
  case (reg_close r a r')
  then show ?case using registry_inv_close by blast
next
  case (reg_use r a g op g')
  then have "group_inv g" by (auto simp: registry_inv_def)
  then have "group_inv g'" using group_step_law [OF _ reg_use.hyps(3)] by blast
  moreover have "same_id g g'" by (rule group_step_id [OF reg_use.hyps(3,4)])
  moreover have "map_of (groups r) name = Some a \<Longrightarrow> g_name g = name \<and> \<not> g_closed g" for name
    using registeredD(1) [OF reg_use.IH] reg_use.hyps(2) by blast
  ultimately show ?case using reg_use.IH reg_use.hyps(2) by (auto simp: registry_inv_def same_id_def)
qed

section \<open>Properties\<close>

text \<open>C35: The registry is consistent in every run: a name leads to an open group of that name, NewGroup
  makes its group the one that GetGroup finds and leaves the other names alone, and Close closes
  the group, takes its name out of the registry and does nothing when it runs again.\<close>
theorem registry_correct:
  assumes "reg_reach r"
  shows "(GetGroup r name = Some a \<longrightarrow> (\<exists>g. objects r a = Some g \<and> g_name g = name \<and> \<not> g_closed g \<and> group_inv g)) \<and>
    ((\<forall>opt \<in> set opts. option_ok opt) \<longrightarrow> (\<exists>r' a'. NewGroup True name cacheBytes opts r = Some (r', a') \<and>
       GetGroup r' name = Some a' \<and> (\<forall>n. n \<noteq> name \<longrightarrow> GetGroup r' n = GetGroup r n))) \<and>
    (GetGroup r name = Some a \<longrightarrow> (\<exists>r' g'. group_Close False r a = Some (Returns r') \<and> objects r' a = Some g' \<and>
       g_closed g' \<and> GetGroup r' name = None \<and> (\<forall>n. n \<noteq> name \<longrightarrow> GetGroup r' n = GetGroup r n) \<and>
       group_Close False r' a = Some (Returns r')))"
proof (intro conjI impI)
  have inv: "registry_inv r" by (rule reg_reach_inv [OF assms])
  assume ok: "\<forall>opt \<in> set opts. option_ok opt"
  obtain r' a' where n: "NewGroup True name cacheBytes opts r = Some (r', a')" by (simp add: NewGroup_def Let_def)
  moreover have "\<forall>n. n \<noteq> name \<longrightarrow> GetGroup r' n = GetGroup r n"
    using n inv by (auto simp: NewGroup_def Let_def GetGroup_def registry_inv_def map_of_update)
  ultimately show "\<exists>r' a'. NewGroup True name cacheBytes opts r = Some (r', a') \<and>
       GetGroup r' name = Some a' \<and> (\<forall>n. n \<noteq> name \<longrightarrow> GetGroup r' n = GetGroup r n)"
    using registry_inv_new(2) [OF inv ok n] by blast
next
  have inv: "registry_inv r" by (rule reg_reach_inv [OF assms])
  assume g: "GetGroup r name = Some a"
  then show "\<exists>g. objects r a = Some g \<and> g_name g = name \<and> \<not> g_closed g \<and> group_inv g"
    using inv by (fastforce simp: registry_inv_def GetGroup_def)
next
  have inv: "registry_inv r" by (rule reg_reach_inv [OF assms])
  assume "GetGroup r name = Some a"
  then obtain g where g: "objects r a = Some g" "g_name g = name" "\<not> g_closed g"
    using inv by (fastforce simp: registry_inv_def GetGroup_def)
  obtain g' where g': "g_closed g'" "group_Close False r a = Some (if g_closed g then Returns r else if False then Deadlock
      else Returns (r\<lparr>objects := (objects r)(a \<mapsto> g'), groups := AList.delete (g_name g) (groups r)\<rparr>))"
    using group_Close_value [OF inv g(1), of False] by blast
  let ?r = "r\<lparr>objects := (objects r)(a \<mapsto> g'), groups := AList.delete (g_name g) (groups r)\<rparr>"
  have c: "group_Close False r a = Some (Returns ?r)" using g' g(3) by simp
  have o: "objects ?r a = Some g'" by simp
  have "group_Close False ?r a = Some (Returns ?r)"
    using group_Close_value [OF registry_inv_close [OF inv c] o, of False] g'(1) by auto
  then show "\<exists>r' g'. group_Close False r a = Some (Returns r') \<and> objects r' a = Some g' \<and>
       g_closed g' \<and> GetGroup r' name = None \<and> (\<forall>n. n \<noteq> name \<longrightarrow> GetGroup r' n = GetGroup r n) \<and>
       group_Close False r' a = Some (Returns r')"
    using c o g'(1) g(2) inv by (intro exI [of _ ?r] exI [of _ g']) (simp add: GetGroup_def registry_inv_def map_of_delete)
qed

definition reg1 :: registry where
  "reg1 = no_groups\<lparr>objects := [0 \<mapsto> make_group ''g'' 100 []], next_object := 1, groups := [(''g'', 0)]\<rparr>"

lemma new_reg1: "NewGroup True ''g'' 100 [] no_groups = Some (reg1, 0)"
  by (simp add: NewGroup_def no_groups_def reg1_def)

lemma reg1_reach: "reg_reach reg1"
  by (rule reg_new [OF reg_start _ new_reg1]) simp

theorem registry_correct_witness:
  "GetGroup reg1 ''g'' = Some 0 \<and> (\<exists>r'. group_Close False reg1 0 = Some (Returns r') \<and> GetGroup r' ''g'' = None)"
proof -
  have "GetGroup reg1 ''g'' = Some 0" by (simp add: GetGroup_def reg1_def)
  with registry_correct [OF reg1_reach, of "''g''" 0 "[]" 100] show ?thesis by blast
qed

text \<open>C36: DestroyGroup never destroys a group: it holds groupsMu while it calls Close, which locks groupsMu
  again, so it returns exactly when there is no group of that name; DestroyAllGroups returns only
  when there is no group at all.\<close>
theorem DestroyGroup_deadlock:
  assumes "reg_reach r" and "visits ord"
  shows "DestroyGroup r name = Some (if GetGroup r name = None then Returns (r, False) else Deadlock) \<and>
    DestroyAllGroups ord r = Some (if groups r = [] then Returns r else Deadlock)"
proof
  have inv: "registry_inv r" by (rule reg_reach_inv [OF assms(1)])
  have close: "group_Close True r a = Some Deadlock" if m: "map_of (groups r) n = Some a" for n a
  proof -
    obtain g where g: "objects r a = Some g" "\<not> g_closed g"
      using m inv by (fastforce simp: registry_inv_def)
    from group_Close_value [OF inv g(1), of True] g(2) show ?thesis by auto
  qed
  then show "DestroyGroup r name = Some (if GetGroup r name = None then Returns (r, False) else Deadlock)"
    by (cases "map_of (groups r) name") (simp_all add: DestroyGroup_def GetGroup_def)
  show "DestroyAllGroups ord r = Some (if groups r = [] then Returns r else Deadlock)"
  proof (cases "ord (map fst (groups r))")
    case Nil
    then have "groups r = []" using visits_set [OF assms(2), of "map fst (groups r)"] by simp
    with Nil show ?thesis by (simp add: DestroyAllGroups_def)
  next
    case (Cons n ns)
    then have "n \<in> set (map fst (groups r))" using visits_set [OF assms(2), of "map fst (groups r)"] by auto
    then obtain a where "map_of (groups r) n = Some a" by (cases "map_of (groups r) n") (auto simp: map_of_eq_None_iff)
    moreover from this have "groups r \<noteq> []" by auto
    ultimately show ?thesis using close Cons by (simp add: DestroyAllGroups_def)
  qed
qed

theorem DestroyGroup_deadlock_witness:
  "DestroyGroup reg1 ''g'' = Some Deadlock \<and> DestroyGroup reg1 ''h'' = Some (Returns (reg1, False)) \<and>
   DestroyAllGroups id reg1 = Some Deadlock"
proof -
  have v: "visits id" using visits_id by (simp add: id_def)
  from DestroyGroup_deadlock [OF reg1_reach v, of "''g''"] DestroyGroup_deadlock [OF reg1_reach v, of "''h''"] show ?thesis
    by (simp add: GetGroup_def reg1_def)
qed

text \<open>A group that replaces another of the same name is unregistered by the \<open>Close\<close> of the replaced
  one, although it stays open.\<close>

theorem Close_unregisters_replacement:
  "\<exists>r r'. NewGroup True ''g'' 200 [] reg1 = Some (r, 1) \<and> reg_reach r \<and> GetGroup r ''g'' = Some 1 \<and>
     group_Close False r 0 = Some (Returns r') \<and> GetGroup r' ''g'' = None \<and>
     (\<exists>g. objects r' 1 = Some g \<and> \<not> g_closed g)"
proof -
  obtain r where n: "NewGroup True ''g'' 200 [] reg1 = Some (r, 1)" by (simp add: NewGroup_def reg1_def)
  have reach: "reg_reach r" by (rule reg_new [OF reg1_reach _ n]) simp
  have inv: "registry_inv r" by (rule reg_reach_inv [OF reach])
  note new = registry_inv_new [OF reg_reach_inv [OF reg1_reach] _ n]
  have "\<forall>opt \<in> set []. option_ok opt" by simp
  from make_group_fields [OF this] have f: "g_name (make_group ''g'' c []) = ''g''" "\<not> g_closed (make_group ''g'' c [])" for c
    by blast+
  have o: "objects r 0 = Some (make_group ''g'' 100 [])" using n by (auto simp: NewGroup_def reg1_def)
  obtain g' where "group_Close False r 0 =
      Some (Returns (r\<lparr>objects := (objects r)(0 \<mapsto> g'), groups := AList.delete ''g'' (groups r)\<rparr>))"
    using group_Close_value [OF inv o, of False] f by auto
  with n reach new(2,3) f show ?thesis
    using inv by (auto simp: GetGroup_def registry_inv_def map_of_delete)
qed

end
