(* ===== verification/NodeRuns.thy ===== *)
theory NodeRuns
  imports FlightEnd GroupRegistry
begin

text \<open>
  One node at work: any number of concurrent calls of \<open>Group.Get\<close> for one group, whose misses go
  through \<open>singleflight\<close>, among writes, deletions, cleanups, worker turns and closing. The state is
  the group (\<open>Group\<close>) with the flights of its loader (\<open>sf\<close>); a thread is one call of \<open>Get\<close>, and the
  steps are the parts of \<open>Get\<close> between which others may run: the lookup, the actions of \<open>Do\<close>, the
  end of \<open>loadData\<close>, and what \<open>load\<close> does after \<open>Do\<close> has returned. What a step sees of its
  surroundings is any of the worlds \<open>Ws\<close>. \<open>written\<close> is a ghost record of the values written.
\<close>

type_synonym load_result = "string group_error + ByteView"

datatype get_end = Reply load_result | Crash

record node_state =
  grp :: Group
  flights :: "load_result sf"
  got :: "nat \<Rightarrow> (string \<times> get_end) option"
  written :: "(string \<times> ByteView) set"

abbreviation finish :: "nat \<Rightarrow> string \<Rightarrow> get_end \<Rightarrow> node_state \<Rightarrow> node_state" where
  "finish t key e x \<equiv> x\<lparr>got := (got x)(t \<mapsto> (key, e))\<rparr>"

inductive node_step :: "(string, string) world set \<Rightarrow> node_state \<Rightarrow> node_state \<Rightarrow> bool"
  for Ws
where
  found_here: "got x t = None \<Longrightarrow> pcs (flights x) t = Idle \<Longrightarrow> W \<in> Ws \<Longrightarrow>
    group_lookup W (grp x) key = Some (g, Some r) \<Longrightarrow> node_step Ws x (finish t key (Reply r) (x\<lparr>grp := g\<rparr>))"
| missed_here: "got x t = None \<Longrightarrow> pcs (flights x) t = Idle \<Longrightarrow> W \<in> Ws \<Longrightarrow>
    group_lookup W (grp x) key = Some (g, None) \<Longrightarrow>
    node_step Ws x (x\<lparr>grp := g, flights := goto t (Calling key) (flights x)\<rparr>)"
| lookup_panics: "got x t = None \<Longrightarrow> pcs (flights x) t = Idle \<Longrightarrow> W \<in> Ws \<Longrightarrow>
    group_lookup W (grp x) key = None \<Longrightarrow> node_step Ws x (finish t key Crash x)"
| in_flight: "local_step (flights x) s \<Longrightarrow> (\<forall>t. pcs (flights x) t = Idle \<longrightarrow> pcs s t = Idle) \<Longrightarrow>
    node_step Ws x (x\<lparr>flights := s\<rparr>)"
| data_loaded: "pcs (flights x) t = Running key c \<Longrightarrow> heap (flights x) c = Some k \<Longrightarrow> W \<in> Ws \<Longrightarrow>
    loadData W (grp x) key = Some (g, r, sent) \<Longrightarrow>
    node_step Ws x (x\<lparr>grp := g, flights := fn_ends t key c k r (flights x)\<rparr>)"
| load_panics: "pcs (flights x) t = Running key c \<Longrightarrow> W \<in> Ws \<Longrightarrow> loadData W (grp x) key = None \<Longrightarrow>
    node_step Ws x (x\<lparr>flights := goto t (Ending key c True) (flights x)\<rparr>)"
| load_done: "got x t = None \<Longrightarrow> pcs (flights x) t = Returned key r \<Longrightarrow> W \<in> Ws \<Longrightarrow>
    load_rest W (grp x) key r = Some (g, r') \<Longrightarrow> node_step Ws x (finish t key (Reply r') (x\<lparr>grp := g\<rparr>))"
| rest_panics: "got x t = None \<Longrightarrow> pcs (flights x) t = Returned key r \<Longrightarrow> W \<in> Ws \<Longrightarrow>
    load_rest W (grp x) key r = None \<Longrightarrow> node_step Ws x (finish t key Crash x)"
| leader_panics: "got x t = None \<Longrightarrow> pcs (flights x) t = Panicked key \<Longrightarrow> node_step Ws x (finish t key Crash x)"
| write_set: "W \<in> Ws \<Longrightarrow> group_Set W ctx (grp x) key value = Some (g, None) \<Longrightarrow>
    node_step Ws x (x\<lparr>grp := g, written := insert (key, ByteView value) (written x)\<rparr>)"
| write_direct: "W \<in> Ws \<Longrightarrow> SetLocalDirect W (grp x) key value = Some g \<Longrightarrow>
    node_step Ws x (x\<lparr>grp := g, written := insert (key, ByteView value) (written x)\<rparr>)"
| beside: "group_step (grp x) opn g \<Longrightarrow> (\<forall>k v. opn \<noteq> PutOp k v) \<Longrightarrow> node_step Ws x (x\<lparr>grp := g\<rparr>)"

definition node_start :: "Group \<Rightarrow> node_state" where
  "node_start g = \<lparr>grp = g, flights = sf_start, got = (\<lambda>_. None), written = {}\<rparr>"

section \<open>Where values come from\<close>

text \<open>What a load of the key can bring, in one of the worlds: the data source's value or the answer of a
  peer to the call for this group and key.\<close>

definition loadable :: "(string, string) world set \<Rightarrow> string \<Rightarrow> string \<Rightarrow> ByteView \<Rightarrow> bool" where
  "loadable Ws name key v \<longleftrightarrow> (\<exists>W \<in> Ws. \<exists>bytes. v = ByteView bytes \<and>
     (source W key = Inr bytes \<or> (\<exists>p. peer_reply W p name key = Inr bytes)))"

definition may_be :: "(string, string) world set \<Rightarrow> string \<Rightarrow> node_state \<Rightarrow> string \<Rightarrow> ByteView \<Rightarrow> bool" where
  "may_be Ws name x key v \<longleftrightarrow> (key, v) \<in> written x \<or> loadable Ws name key v"

lemma loaded_loadable: "W \<in> Ws \<Longrightarrow> loaded W g key = Inr v \<Longrightarrow> loadable Ws (g_name g) key v"
  unfolding loadable_def loaded_def by (auto split: option.splits sum.splits)

definition node_inv :: "(string, string) world set \<Rightarrow> string \<Rightarrow> node_state \<Rightarrow> bool" where
  "node_inv Ws name x \<longleftrightarrow> group_inv (grp x) \<and> g_name (grp x) = name \<and>
     sf_reach (flights x) \<and> calm (flights x) \<and>
     (\<forall>key v. (key, Inr v) \<in> runs_of (flights x) \<longrightarrow> loadable Ws name key v) \<and>
     (\<forall>key v. v \<in> group_can (grp x) key \<longrightarrow> may_be Ws name x key v) \<and>
     (\<forall>t key e. got x t = Some (key, e) \<longrightarrow> (\<exists>r. e = Reply r \<and> (\<forall>v. r = Inr v \<longrightarrow> may_be Ws name x key v)))"

text \<open>A group that holds nothing new, or one more value that may be there.\<close>

lemma node_group:
  assumes inv: "node_inv Ws name x" and g: "group_inv g" "g_name g = name"
    and can: "\<And>k v. v \<in> group_can g k \<Longrightarrow> v \<in> group_can (grp x) k \<or> may_be Ws name y k v"
    and y: "grp y = g" "flights y = flights x" "got y = got x" "written x \<subseteq> written y"
  shows "node_inv Ws name y"
proof -
  have up: "may_be Ws name x k v \<Longrightarrow> may_be Ws name y k v" for k v using y(4) by (auto simp: may_be_def)
  show ?thesis using inv g can up unfolding node_inv_def y(1-3) by metis
qed

lemma node_got:
  assumes inv: "node_inv Ws name x" and v: "\<And>v. r = Inr v \<Longrightarrow> may_be Ws name x key v"
  shows "node_inv Ws name (finish t key (Reply r) x)"
proof -
  have "may_be Ws name (finish t key (Reply r) x) = may_be Ws name x" by (simp add: may_be_def [abs_def])
  with inv v show ?thesis by (simp add: node_inv_def)
qed

lemma node_flight:
  assumes inv: "node_inv Ws name x" and st: "sf_step (flights x) s" and no: "\<not> panics (flights x) s"
    and runs: "\<And>key v. (key, Inr v) \<in> runs_of s \<Longrightarrow> (key, Inr v) \<in> runs_of (flights x) \<or> loadable Ws name key v"
  shows "node_inv Ws name (x\<lparr>flights := s\<rparr>)"
proof -
  have "sf_reach s" using sf_reach_step [OF _ st] inv by (simp add: node_inv_def)
  moreover have "calm s" using calm_step [OF st _ no] inv by (simp add: node_inv_def)
  moreover have "may_be Ws name (x\<lparr>flights := s\<rparr>) = may_be Ws name x" by (simp add: may_be_def [abs_def])
  ultimately show ?thesis using inv runs by (simp add: node_inv_def) blast
qed

lemma local_no_panic: "local_step s s' \<Longrightarrow> \<not> panics s s'"
  by (fastforce simp: local_step_def panics_def)

lemma local_runs: "local_step s s' \<Longrightarrow> runs_of s' = runs_of s"
  unfolding local_step_def by (elim conjE sf_stepE) (fastforce split: if_split_asm)+

section \<open>Every step keeps the invariant\<close>

lemma node_write:
  assumes inv: "node_inv Ws name x" and st: "group_put W key v (grp x) g" and W: "world_ok W"
    and v: "may_be Ws name y key v"
    and y: "grp y = g" "flights y = flights x" "got y = got x" "written x \<subseteq> written y"
  shows "node_inv Ws name y"
proof (rule node_group [OF inv _ _ _ y])
  have gi: "group_inv (grp x)" "g_name (grp x) = name" using inv by (simp_all add: node_inv_def)
  note l = put_law [OF gi(1) W st]
  show "group_inv g" using l by blast
  show "g_name g = name" using put_id [OF st] gi by (simp add: same_id_def)
  fix k u assume "u \<in> group_can g k"
  then have "u \<in> remember (PutOp key v) (group_can (grp x)) k" using l by blast
  then show "u \<in> group_can (grp x) k \<or> may_be Ws name y k u" using v by (auto split: if_split_asm)
qed

lemma node_beside:
  assumes inv: "node_inv Ws name x" and st: "group_step (grp x) opn g" and op: "\<forall>k v. opn \<noteq> PutOp k v"
  shows "node_inv Ws name (x\<lparr>grp := g\<rparr>)"
proof (rule node_group [OF inv])
  have gi: "group_inv (grp x)" "g_name (grp x) = name" using inv by (simp_all add: node_inv_def)
  note l = group_step_law [OF gi(1) st]
  show "group_inv g" using l by blast
  show "g_name g = name"
  proof (cases "opn = ClearOp")
    case True
    then obtain d where "close_group (grp x) = Some (g, d)" using st by (auto simp: group_step_def)
    then show ?thesis using close_group_law [OF gi(1)] gi by auto
  next
    case False
    then show ?thesis using group_step_id [OF st] gi by (simp add: same_id_def)
  qed
  fix k u assume "u \<in> group_can g k"
  then have "u \<in> remember opn (group_can (grp x)) k" using l by blast
  then show "u \<in> group_can (grp x) k \<or> may_be Ws name (x\<lparr>grp := g\<rparr>) k u"
    using op by (cases opn) (auto split: if_split_asm)
qed simp_all

lemma node_core:
  assumes inv: "node_inv Ws name x" and core: "same_core (grp x) g"
  shows "node_inv Ws name (x\<lparr>grp := g\<rparr>)"
proof (rule node_group [OF inv])
  have gi: "group_inv (grp x)" "g_name (grp x) = name" using inv by (simp_all add: node_inv_def)
  show "group_inv g" "g_name g = name" using same_core_inv [OF core] gi core by (simp_all add: same_core_def)
  show "u \<in> group_can (grp x) k \<or> may_be Ws name (x\<lparr>grp := g\<rparr>) k u" if "u \<in> group_can g k" for k u
    using that same_core_inv [OF core] by simp
qed simp_all

lemma node_lookup:
  assumes inv: "node_inv Ws name x" and W: "world_ok W" and l: "group_lookup W (grp x) key = Some (g, r)"
  shows "node_inv Ws name (x\<lparr>grp := g\<rparr>)" and "r = Some (Inr v) \<Longrightarrow> may_be Ws name x key v"
proof -
  have gi: "group_inv (grp x)" "g_name (grp x) = name" using inv by (simp_all add: node_inv_def)
  have *: "group_inv g" "\<And>k. group_can g k \<subseteq> group_can (grp x) k" "g_name g = name"
      "\<And>v. r = Some (Inr v) \<Longrightarrow> v \<in> group_can (grp x) key"
    using group_lookup_law [OF gi(1) W, of key] l gi(2) by auto
  show "node_inv Ws name (x\<lparr>grp := g\<rparr>)"
    by (rule node_group [OF inv *(1,3)]) (use *(2) in auto)
  show "may_be Ws name x key v" if "r = Some (Inr v)"
    using *(4) [OF that] inv by (simp add: node_inv_def)
qed

text \<open>The end of a load stores what the flight brought.\<close>

lemma node_rest:
  fixes W :: "(string, string) world"
  assumes inv: "node_inv Ws name x" and W: "world_ok W" and t: "pcs (flights x) t = Returned key r"
    and l: "load_rest W (grp x) key r = Some (g, r')"
  shows "node_inv Ws name (x\<lparr>grp := g\<rparr>)" and "r' = Inr v \<Longrightarrow> may_be Ws name x key v"
proof -
  have gi: "group_inv (grp x)" using inv by (simp add: node_inv_def)
  have "calm (flights x)" using inv by (simp add: node_inv_def)
  with t obtain q where q: "r = Some q" by (cases r) (auto simp: calm_def)
  from load_rest_law [OF gi W, of key q] l q have r': "r' = q" "\<And>e. q = Inl e \<Longrightarrow> same_core (grp x) g" by auto
  have run: "(key, q) \<in> runs_of (flights x)"
    using sf_reach_ok [of "flights x"] inv t q unfolding node_inv_def rest_ok_def values_ok_def by blast
  show v: "may_be Ws name x key v" if "r' = Inr v" for v
    using run that r'(1) inv by (simp add: node_inv_def may_be_def)
  show "node_inv Ws name (x\<lparr>grp := g\<rparr>)"
  proof (cases q)
    case (Inl e)
    then show ?thesis using node_core [OF inv r'(2)] by blast
  next
    case (Inr u)
    then have "group_put W key u (grp x) g" using l q by (intro put_loaded) simp
    moreover have "may_be Ws name (x\<lparr>grp := g\<rparr>) key u" using v [of u] Inr r'(1) by (simp add: may_be_def)
    ultimately show ?thesis using node_write [OF inv _ W, of key u g "x\<lparr>grp := g\<rparr>"] by simp
  qed
qed

lemma node_loads:
  assumes inv: "node_inv Ws name x" and W: "W \<in> Ws" and t: "pcs (flights x) t = Running key c" "heap (flights x) c = Some k"
    and l: "loadData W (grp x) key = Some (g, r, sent)"
  shows "node_inv Ws name (x\<lparr>grp := g, flights := fn_ends t key c k r (flights x)\<rparr>)"
proof -
  note ld = loadData_loaded [OF l]
  have y: "node_inv Ws name (x\<lparr>grp := g\<rparr>)" by (rule node_core [OF inv]) (use ld in blast)
  have "r = loaded W (grp x) key" "g_name (grp x) = name" using ld inv by (simp_all add: node_inv_def)
  then have v: "\<And>v. r = Inr v \<Longrightarrow> loadable Ws name key v" using loaded_loadable [OF W, of "grp x" key] by simp
  have no: "\<not> panics (flights x) (fn_ends t key c k r (flights x))"
    by (auto simp: panics_def)
  have "node_inv Ws name ((x\<lparr>grp := g\<rparr>)\<lparr>flights := fn_ends t key c k r (flights x)\<rparr>)"
    by (rule node_flight [OF y]) (use fn_ends_step [OF t] no v in auto)
  then show ?thesis by simp
qed

lemma node_step_inv:
  assumes st: "node_step Ws x y" and inv: "node_inv Ws name x" and Ws: "Ws \<subseteq> Collect world_ok"
  shows "node_inv Ws name y"
  using st
proof cases
  case (found_here t W key g r)
  then have W: "world_ok W" using Ws by blast
  note l = node_lookup [OF inv W found_here(5)]
  have "may_be Ws name (x\<lparr>grp := g\<rparr>) key v" if "r = Inr v" for v using l(2) that by (simp add: may_be_def)
  from node_got [OF l(1) this] found_here(1) show ?thesis by simp
next
  case (missed_here t W key g)
  then have W: "world_ok W" using Ws by blast
  let ?s = "goto t (Calling key) (flights x)"
  have no: "\<not> panics (flights x) ?s" by (auto simp: panics_def)
  have "node_inv Ws name ((x\<lparr>grp := g\<rparr>)\<lparr>flights := ?s\<rparr>)"
    by (rule node_flight [OF node_lookup(1) [OF inv W missed_here(5)]])
      (use sf_step.enter [OF missed_here(3)] no in auto)
  then show ?thesis using missed_here(1) by simp
next
  case (lookup_panics t W key)
  then have "group_inv (grp x)" "world_ok W" using inv Ws by (auto simp: node_inv_def)
  then show ?thesis using group_lookup_law [of "grp x" W key] lookup_panics by auto
next
  case (in_flight s)
  have "node_inv Ws name (x\<lparr>flights := s\<rparr>)"
    by (rule node_flight [OF inv _ local_no_panic [OF in_flight(2)]])
      (use in_flight local_runs [OF in_flight(2)] in \<open>auto simp: local_step_def\<close>)
  then show ?thesis using in_flight by simp
next
  case (data_loaded t key c k W g r sent)
  then show ?thesis using node_loads [OF inv data_loaded(4,2,3,5)] by simp
next
  case (load_panics t key c W)
  then have "world_ok W" using Ws by blast
  then show ?thesis using loadData_total load_panics by blast
next
  case (load_done t key r W g r')
  then have W: "world_ok W" using Ws by blast
  note l = node_rest [OF inv W load_done(3,5)]
  have "may_be Ws name (x\<lparr>grp := g\<rparr>) key v" if "r' = Inr v" for v using l(2) that by (simp add: may_be_def)
  from node_got [OF l(1) this] load_done(1) show ?thesis by simp
next
  case (rest_panics t key r W)
  then have W: "group_inv (grp x)" "world_ok W" "calm (flights x)" using inv Ws by (auto simp: node_inv_def)
  with rest_panics(3) obtain q where "r = Some q" by (cases r) (auto simp: calm_def)
  then show ?thesis using load_rest_law [OF W(1,2), of key q] rest_panics by auto
next
  case (leader_panics t key)
  then show ?thesis using inv by (auto simp: node_inv_def calm_def)
next
  case (write_set W ctx key v g)
  have "group_put W key (ByteView v) (grp x) g" using write_set by (intro put_set [of _ ctx]) simp
  then show ?thesis by (rule node_write [OF inv]) (use write_set Ws in \<open>auto simp: may_be_def\<close>)
next
  case (write_direct W key v g)
  have "group_put W key (ByteView v) (grp x) g" using write_direct by (intro put_direct) simp
  then show ?thesis by (rule node_write [OF inv]) (use write_direct Ws in \<open>auto simp: may_be_def\<close>)
next
  case (beside opn g)
  then show ?thesis using node_beside [OF inv] by simp
qed

lemma node_runs_inv:
  assumes "(node_step Ws)\<^sup>*\<^sup>* (node_start g) x" and "group_inv g" and "\<And>k. group_can g k = {}" and "Ws \<subseteq> Collect world_ok"
  shows "node_inv Ws (g_name g) x"
  using assms(1)
proof (induction rule: rtranclp_induct)
  case base
  then show ?case using assms(2,3) calm_start
    by (simp add: node_inv_def node_start_def sf_reach_def) (simp add: sf_start_def)
next
  case (step y z)
  then show ?case using node_step_inv assms(4) by blast
qed

section \<open>What concurrent Gets return\<close>


text \<open>One Get alone, from its miss to its reply.\<close>

lemma lone_load:
  assumes inv: "group_inv g" and W: "world_ok W" and miss: "group_lookup W g key = Some (g1, None)"
  shows "\<exists>x. (node_step {W})\<^sup>*\<^sup>* (node_start g) x \<and> got x 0 = Some (key, Reply (loaded W g1 key)) \<and> written x = {}"
proof -
  have i1: "group_inv g1" using group_lookup_law [OF inv W, of key] miss by auto
  obtain g2 sent where l: "loadData W g1 key = Some (g2, loaded W g1 key, sent)" "same_core g1 g2"
    using load_value [OF i1 W, of key] by blast
  have "group_inv g2" using i1 same_core_inv [OF l(2)] by simp
  from load_rest_law [OF this W, of key "loaded W g1 key"] obtain g3 where
    r: "load_rest W g2 key (Some (loaded W g1 key)) = Some (g3, loaded W g1 key)" by blast
  let ?k = "new_call\<lparr>val := Some (loaded W g1 key)\<rparr>"
  let ?s1 = "goto 0 (Calling key) sf_start :: load_result sf"
  let ?s2 = "goto 0 (Running key 0) (?s1\<lparr>heap := (heap ?s1)(0 \<mapsto> new_call), calls_m := (calls_m ?s1)(key \<mapsto> 0)\<rparr>)"
  let ?s3 = "fn_ends 0 key 0 new_call (loaded W g1 key) ?s2"
  let ?s4 = "goto 0 (Deleting key 0 False) (?s3\<lparr>heap := (heap ?s3)(0 \<mapsto> ?k\<lparr>wg_done := True\<rparr>)\<rparr>)"
  let ?s5 = "goto 0 (Returned key (val (?k\<lparr>wg_done := True\<rparr>))) (?s4\<lparr>calls_m := (calls_m ?s4)(key := None)\<rparr>)"
  let ?x0 = "node_start g"
  let ?x1 = "?x0\<lparr>grp := g1, flights := ?s1\<rparr>"
  let ?x3 = "?x1\<lparr>grp := g2, flights := ?s3\<rparr>"
  have f: "sf_step ?s1 ?s2" "sf_step ?s3 ?s4" "sf_step ?s4 ?s5"
    using sf_step.lead [of ?s1 0 key 0] sf_step.release [of ?s3 0 key 0 False ?k]
      sf_step.delete [of ?s4 0 key 0 False "?k\<lparr>wg_done := True\<rparr>"] by (simp_all add: sf_start_def)
  have 1: "node_step {W} ?x0 ?x1"
    using missed_here [of ?x0 0 W "{W}" key g1] miss by (simp add: node_start_def sf_start_def)
  have 2: "node_step {W} ?x1 (?x1\<lparr>flights := ?s2\<rparr>)"
    using in_flight [of ?x1 ?s2 "{W}"] f(1) by (simp add: local_step_def)
  have 3: "node_step {W} (?x1\<lparr>flights := ?s2\<rparr>) ?x3"
    using data_loaded [of "?x1\<lparr>flights := ?s2\<rparr>" 0 key 0 new_call W "{W}" g2 "loaded W g1 key" sent] l(1) by simp
  have 4: "node_step {W} ?x3 (?x3\<lparr>flights := ?s4\<rparr>)"
    using in_flight [of ?x3 ?s4 "{W}"] f(2) by (simp add: local_step_def sf_start_def)
  have 5: "node_step {W} (?x3\<lparr>flights := ?s4\<rparr>) (?x3\<lparr>flights := ?s5\<rparr>)"
    using in_flight [of "?x3\<lparr>flights := ?s4\<rparr>" ?s5 "{W}"] f(3) by (simp add: local_step_def sf_start_def)
  let ?x6 = "finish 0 key (Reply (loaded W g1 key)) (?x3\<lparr>flights := ?s5, grp := g3\<rparr>)"
  have 6: "node_step {W} (?x3\<lparr>flights := ?s5\<rparr>) ?x6"
    using load_done [of "?x3\<lparr>flights := ?s5\<rparr>" 0 key "Some (loaded W g1 key)" W "{W}" g3 "loaded W g1 key"] r
    by (simp add: node_start_def)
  have "(node_step {W})\<^sup>*\<^sup>* ?x0 ?x6"
    using 1 2 3 4 5 6 by (meson r_into_rtranclp rtranclp.rtrancl_into_rtrancl)
  moreover have "got ?x6 0 = Some (key, Reply (loaded W g1 key))" "written ?x6 = {}" by (simp_all add: node_start_def)
  ultimately show ?thesis by blast
qed


end
