(* ===== verification/PeerContract.thy ===== *)
theory PeerContract
  imports GroupProps
begin

text \<open>
  What a group relies on of the peer picker it is given (\<open>PeerPicker\<close> and its extensions in
  \<open>peers.go\<close>), as an interface: a picker in a good state never answers nil for a peer that it says is
  there, and never names the node itself. The group's calls then never go to the node itself.
\<close>

fun rpc_target :: "'p rpc \<Rightarrow> 'p" where
  "rpc_target (RpcGet p _ _) = p"
| "rpc_target (RpcSet p _ _ _ _) = p"
| "rpc_target (RpcDelete p _ _ _) = p"

lemma send_target: "c \<in> set (send g oper key v p) \<Longrightarrow> rpc_target c = p"
  by (auto simp: send_def split: if_split_asm)

lemma asked_candidates: "set (asked W g key) \<subseteq> set (candidates W g key)"
  by (auto simp: asked_def find_Some_iff eq_commute [of "Some _"] dest: set_takeWhileD split: option.split)

locale peer_interface =
  fixes good :: "'s \<Rightarrow> bool"
    and iface :: "'s \<Rightarrow> 'p PeerPicker"
    and own :: "'s \<Rightarrow> 'p \<Rightarrow> bool"
  assumes pick_some: "good s \<Longrightarrow> PickPeer (iface s) key = (peer, True, False) \<Longrightarrow> peer \<noteq> None"
    and pick_other: "good s \<Longrightarrow> PickPeer (iface s) key = (Some c, ok, self) \<Longrightarrow> \<not> own s c"
    and fallback_other: "good s \<Longrightarrow> PickPeerWithFallback (iface s) = Some pick \<Longrightarrow> pick key = (pr, re, ok, self) \<Longrightarrow>
      pr = Some c \<or> re = Some c \<Longrightarrow> \<not> own s c"
    and all_other: "good s \<Longrightarrow> GetAllPeers (iface s) = Some ps \<Longrightarrow> c \<in> set ps \<Longrightarrow> \<not> own s c"
begin

lemma iface_ok: "good s \<Longrightarrow> picker_ok (iface s)"
  using pick_some by (auto simp: picker_ok_def)

lemma candidates_other:
  assumes "good s" and "picker W = iface s" and "c \<in> set (candidates W g key)"
  shows "\<not> own s c"
proof (cases "PickPeerWithFallback (iface s)")
  case None
  obtain peer ok self where p: "PickPeer (iface s) key = (peer, ok, self)" by (cases "PickPeer (iface s) key")
  then have "peer = Some c"
    using assms(2,3) None by (cases peer) (auto simp: candidates_def List.map_filter_simps split: if_split_asm)
  with pick_other [OF assms(1)] p show ?thesis by blast
next
  case (Some pick)
  obtain pr re ok self where p: "pick key = (pr, re, ok, self)" by (cases "pick key")
  then have "pr = Some c \<or> re = Some c"
    using assms(2,3) Some
    by (cases pr; cases re) (auto simp: candidates_def List.map_filter_simps split: if_split_asm)
  with fallback_other [OF assms(1) Some p] show ?thesis by blast
qed

lemma load_other:
  assumes "good s" and "picker W = iface s" and "loadData W g key = Some (g', r, sent)" and "c \<in> set sent"
  shows "\<not> own s (rpc_target c)"
  using candidates_other [OF assms(1,2)] loadData_loaded [OF assms(3)] assms(4) asked_candidates by fastforce

lemma one_other:
  assumes "good s" and "picker W = iface s" and "syncToPeers W g oper key v = Some sent" and "c \<in> set sent"
  shows "\<not> own s (rpc_target c)"
  using assms pick_other [OF assms(1)]
  by (auto simp: syncToPeers_def Let_def send_target split: if_split_asm option.splits prod.splits)

lemma replica_other:
  assumes "good s" and "picker W = iface s" and "syncToPeersWithReplica W g oper key v = Some sent" and "c \<in> set sent"
  shows "\<not> own s (rpc_target c)"
proof (cases "PickPeerWithFallback (iface s)")
  case None
  then show ?thesis using one_other [OF assms(1,2) _ assms(4), of g oper key v] assms(2-4)
    by (auto simp: syncToPeersWithReplica_def split: if_split_asm)
next
  case (Some pick)
  obtain pr re ok self where p: "pick key = (pr, re, ok, self)" by (cases "pick key")
  have "\<exists>q. rpc_target c = q \<and> (pr = Some q \<or> re = Some q)"
    using assms(2-4) Some p by (auto simp: syncToPeersWithReplica_def send_target split: if_split_asm option.splits)
  with fallback_other [OF assms(1) Some p] show ?thesis by blast
qed

lemma sync_other:
  assumes "good s" and "picker W = iface s" and "processSyncTask W g task = Some sent" and "c \<in> set sent"
  shows "\<not> own s (rpc_target c)"
proof (cases "t_op task = ''broadcast_delete'' \<and> has_peers g \<and> GetAllPeers (iface s) \<noteq> None")
  case True
  then show ?thesis using assms(2-4) all_other [OF assms(1)] by (auto simp: processSyncTask_def broadcastDelete_def)
next
  case False
  then have "sent = [] \<or> (\<exists>oper v. syncToPeersWithReplica W g oper (t_key task) v = Some sent)"
    using assms(2,3) by (auto simp: processSyncTask_def broadcastDelete_def split: if_split_asm option.splits)
  with replica_other [OF assms(1,2) _ assms(4)] assms(4) show ?thesis by auto
qed

end

end
