(* ===== verification/Picker.thy ===== *)
theory Picker
  imports GroupRegistry RingProps PeerContract
begin

text \<open>
  \<open>peers.go\<close>: the peer picker of a node. It keeps a client for every discovered node and a
  consistent-hash ring of their addresses. etcd is not under the repository: the services it
  reports and its events are arguments. \<open>dials\<close> says whether \<open>NewClient\<close> of an address succeeds.
  Locks are held only during the methods modelled here, so each is one step. What a goroutine
  does later (the end of a migration, the timer of a leaving node) is an operation of its own.
\<close>

section \<open>State\<close>

record Client =
  c_addr :: string
  c_svcName :: string

definition NewClient :: "(string \<Rightarrow> bool) \<Rightarrow> string \<Rightarrow> string \<Rightarrow> Client option" where
  "NewClient dials addr svcName' = (if dials addr then Some \<lparr>c_addr = addr, c_svcName = svcName'\<rparr> else None)"

record ClientPicker =
  selfAddr :: string
  svcName :: string
  consHash :: Map
  clients :: "(string, Client) gomap"

datatype event_type = EventTypePut | EventTypeDelete

type_synonym event = "event_type \<times> string"

datatype picker_error = EtcdClientFailed | GetServicesFailed

definition defaultSvcName :: string where
  "defaultSvcName = ''kama-cache''"

type_synonym PickerOption = "ClientPicker \<Rightarrow> ClientPicker"

definition WithServiceName :: "string \<Rightarrow> PickerOption" where
  "WithServiceName name = (\<lambda>p. p\<lparr>svcName := name\<rparr>)"

section \<open>Membership\<close>

definition picker_set :: "(string \<Rightarrow> bool) \<Rightarrow> ClientPicker \<Rightarrow> string \<Rightarrow> ClientPicker" where
  "picker_set dials p addr = (case NewClient dials addr (svcName p) of
     Some client \<Rightarrow>
       p\<lparr>consHash := (case ring_Add (consHash p) [addr] of Inr m \<Rightarrow> m | Inl _ \<Rightarrow> consHash p),
         clients := AList.update addr client (clients p)\<rparr>
   | None \<Rightarrow> p)"

definition picker_remove :: "ClientPicker \<Rightarrow> string \<Rightarrow> ClientPicker" where
  "picker_remove p addr =
     p\<lparr>consHash := (case ring_Remove False (consHash p) addr of Returns (Inr m) \<Rightarrow> m | _ \<Rightarrow> consHash p),
       clients := AList.delete addr (clients p)\<rparr>"

definition mark_unhealthy :: "ClientPicker \<Rightarrow> string \<Rightarrow> ClientPicker" where
  "mark_unhealthy p addr = p\<lparr>consHash := MarkUnhealthy (consHash p) addr\<rparr>"

definition mark_healthy :: "ClientPicker \<Rightarrow> string \<Rightarrow> ClientPicker" where
  "mark_healthy p addr = p\<lparr>consHash := MarkHealthy (consHash p) addr\<rparr>"

definition handle_event ::
  "(string \<Rightarrow> bool) \<Rightarrow> event \<Rightarrow> ClientPicker \<times> string list \<times> string list \<Rightarrow> ClientPicker \<times> string list \<times> string list" where
  "handle_event dials ev = (\<lambda>(p, newNodes, leavingNodes).
     let addr = snd ev
     in if addr = selfAddr p then (p, newNodes, leavingNodes)
        else (case fst ev of
            EventTypePut \<Rightarrow>
              if map_of (clients p) addr = None
              then (mark_unhealthy (picker_set dials p addr) addr, newNodes @ [addr], leavingNodes)
              else (p, newNodes, leavingNodes)
          | EventTypeDelete \<Rightarrow>
              if map_of (clients p) addr \<noteq> None
              then (mark_unhealthy p addr, newNodes, leavingNodes @ [addr])
              else (p, newNodes, leavingNodes)))"

text \<open>The nodes whose goroutines are started, for new and for leaving nodes, are part of the result.\<close>

definition handleWatchEvents ::
  "(string \<Rightarrow> bool) \<Rightarrow> ClientPicker \<Rightarrow> event list \<Rightarrow> ClientPicker \<times> string list \<times> string list" where
  "handleWatchEvents dials p events = fold (handle_event dials) events (p, [], [])"

text \<open>\<open>watchServiceChanges\<close>: the messages of its two channels so far; the flag says whether the loop goes
  on. A closed watch channel delivers responses without events for ever.\<close>

datatype watch_message = CtxDone | WatchResponse "event list"

fun watch_loop ::
  "(string \<Rightarrow> bool) \<Rightarrow> watch_message list \<Rightarrow> ClientPicker \<times> string list \<times> string list \<Rightarrow> (ClientPicker \<times> string list \<times> string list) \<times> bool" where
  "watch_loop dials [] st = (st, True)"
| "watch_loop dials (CtxDone # _) st = (st, False)"
| "watch_loop dials (WatchResponse events # msgs) (p, newNodes, leavingNodes) =
     (let (p, new, leaving) = handleWatchEvents dials p events
      in watch_loop dials msgs (p, newNodes @ new, leavingNodes @ leaving))"

text \<open>The goroutine of a leaving node, after its 30 seconds.\<close>

definition drop_leaving :: "ClientPicker \<Rightarrow> string \<Rightarrow> ClientPicker" where
  "drop_leaving p addr = (if map_of (clients p) addr \<noteq> None then picker_remove p addr else p)"

definition fetchAllServices :: "(string \<Rightarrow> bool) \<Rightarrow> string list option \<Rightarrow> ClientPicker \<Rightarrow> picker_error + ClientPicker" where
  "fetchAllServices dials services p = (case services of
     None \<Rightarrow> Inl GetServicesFailed
   | Some addrs \<Rightarrow>
       Inr (fold (\<lambda>addr p. if addr \<noteq> [] \<and> addr \<noteq> selfAddr p then mark_healthy (picker_set dials p addr) addr else p) addrs p))"

text \<open>\<open>registry.DefaultConfig\<close>, with which the pickers and \<open>Register\<close> ask for an etcd client. Whether an
  etcd client can be had for endpoints and a timeout (\<open>clientv3.New\<close>) is an argument. A \<open>time.Duration\<close>
  counts nanoseconds.\<close>

type_synonym etcd_client = "string list \<Rightarrow> int \<Rightarrow> bool"

record registry_Config =
  registry_Endpoints :: "string list"
  registry_DialTimeout :: int

definition registry_DefaultConfig :: registry_Config where
  "registry_DefaultConfig = \<lparr>registry_Endpoints = [''localhost:2379''], registry_DialTimeout = 5 * 1000000000\<rparr>"

definition default_etcd :: "etcd_client \<Rightarrow> bool" where
  "default_etcd etcd = etcd (registry_Endpoints registry_DefaultConfig) (registry_DialTimeout registry_DefaultConfig)"

definition NewClientPicker ::
  "etcd_client \<Rightarrow> (string \<Rightarrow> bool) \<Rightarrow> string list option \<Rightarrow> string \<Rightarrow> PickerOption list \<Rightarrow> picker_error + ClientPicker" where
  "NewClientPicker etcd dials services addr opts =
     (let p = fold (\<lambda>opt p. opt p) opts
        \<lparr>selfAddr = addr, svcName = defaultSvcName, consHash = ConsHash.New [], clients = []\<rparr>
      in if \<not> default_etcd etcd then Inl EtcdClientFailed else fetchAllServices dials services p)"

section \<open>Picking peers\<close>

definition picker_PickPeer :: "ClientPicker \<Rightarrow> string \<Rightarrow> ClientPicker \<times> Client option \<times> bool \<times> bool" where
  "picker_PickPeer p key =
     (let (m, addr) = ring_Get (consHash p) key; p = p\<lparr>consHash := m\<rparr>
      in if addr \<noteq> [] then
           (case map_of (clients p) addr of
              Some client \<Rightarrow> (p, Some client, True, addr = selfAddr p)
            | None \<Rightarrow> (p, None, False, False))
         else (p, None, False, False))"

definition picker_PickPeerWithFallback :: "ClientPicker \<Rightarrow> string \<Rightarrow> Client option \<times> Client option \<times> bool \<times> bool" where
  "picker_PickPeerWithFallback p key =
     (let nodes = GetNHealthy (consHash p) key 2
      in if length nodes = 0 then (None, None, False, False)
         else
           (let primaryAddr = nodes ! 0
            in if primaryAddr = selfAddr p then
                 (if length nodes \<ge> 2 then
                    (case map_of (clients p) (nodes ! 1) of
                       Some client \<Rightarrow> (None, Some client, True, True)
                     | None \<Rightarrow> (None, None, True, True))
                  else (None, None, True, True))
               else
                 (let primary = map_of (clients p) primaryAddr;
                      ok = (primary \<noteq> None);
                      replica = (if length nodes \<ge> 2 \<and> nodes ! 1 \<noteq> selfAddr p then map_of (clients p) (nodes ! 1) else None)
                  in (primary, replica, ok, False))))"

text \<open>\<open>ord\<close> is the order in which Go visits the map of clients.\<close>

definition picker_GetAllPeers :: "(string list \<Rightarrow> string list) \<Rightarrow> ClientPicker \<Rightarrow> Client list" where
  "picker_GetAllPeers ord p =
     fold (\<lambda>addr peers. case map_of (clients p) addr of
         Some client \<Rightarrow> if addr \<noteq> selfAddr p then peers @ [client] else peers
       | None \<Rightarrow> peers) (ord (map fst (clients p))) []"

text \<open>The picker as the interface value that a group holds.\<close>

definition as_picker :: "(string list \<Rightarrow> string list) \<Rightarrow> ClientPicker \<Rightarrow> Client PeerPicker" where
  "as_picker ord p = \<lparr>PickPeer = (\<lambda>key. snd (picker_PickPeer p key)),
     PickPeerWithFallback = Some (picker_PickPeerWithFallback p), GetAllPeers = Some (picker_GetAllPeers ord p)\<rparr>"

definition shouldKeyBeOnNode :: "ClientPicker \<Rightarrow> string \<Rightarrow> string \<Rightarrow> bool" where
  "shouldKeyBeOnNode p key nodeAddr = list_ex (\<lambda>n. n = nodeAddr) (GetN (consHash p) key 2)"

definition wasKeyOnNode :: "ClientPicker \<Rightarrow> string \<Rightarrow> string \<Rightarrow> bool" where
  "wasKeyOnNode p key nodeAddr = shouldKeyBeOnNode p key nodeAddr"

section \<open>Migration\<close>

definition migration_ctx :: ctx where
  "migration_ctx = Background\<lparr>from_migration := True\<rparr>"

definition migrateBatchSize :: nat where "migrateBatchSize = 100"

text \<open>\<open>accepts\<close> says which calls succeed; the number of successes is only logged.\<close>

definition sendMigrateBatch ::
  "(Client rpc \<Rightarrow> bool) \<Rightarrow> Client \<Rightarrow> ctx \<Rightarrow> string \<Rightarrow> string list \<Rightarrow> string list \<Rightarrow> Client rpc list \<times> nat" where
  "sendMigrateBatch accepts target ctx groupName ks vs =
     (let sent = map (\<lambda>i. RpcSet target ctx groupName (ks ! i) (vs ! i)) [0..<length ks]
      in (sent, length (filter accepts sent)))"

text \<open>The loop over the keys of one group, with the current batch; the calls, the number of keys and
  the number of successes.\<close>

fun migrate_keys ::
  "(Client, 'e) world \<Rightarrow> (Client rpc \<Rightarrow> bool) \<Rightarrow> ClientPicker \<Rightarrow> Client \<Rightarrow> string \<Rightarrow> Group \<Rightarrow> string \<Rightarrow>
   string list \<Rightarrow> string list \<Rightarrow> string list \<Rightarrow> (Client rpc list \<times> nat \<times> nat) option" where
  "migrate_keys W accepts p target newAddr g groupName [] batchKeys batchValues =
     (if length batchKeys > 0 then
        (let (sent, success) = sendMigrateBatch accepts target migration_ctx groupName batchKeys batchValues
         in Some (sent, length batchKeys, success))
      else Some ([], 0, 0))"
| "migrate_keys W accepts p target newAddr g groupName (key # ks) batchKeys batchValues =
     (if \<not> shouldKeyBeOnNode p key newAddr
      then migrate_keys W accepts p target newAddr g groupName ks batchKeys batchValues
      else do {
        (val, ok) \<leftarrow> GetLocalKeyValue W g key;
        if \<not> ok then migrate_keys W accepts p target newAddr g groupName ks batchKeys batchValues
        else
          (let batchKeys = batchKeys @ [key]; batchValues = batchValues @ [val]
           in if length batchKeys \<ge> migrateBatchSize then
                (let (sent, success) = sendMigrateBatch accepts target migration_ctx groupName batchKeys batchValues
                 in do {
                   (sent', total, successes) \<leftarrow> migrate_keys W accepts p target newAddr g groupName ks [] [];
                   Some (sent @ sent', length batchKeys + total, success + successes) })
              else migrate_keys W accepts p target newAddr g groupName ks batchKeys batchValues) })"

fun migrate_groups ::
  "(Client, 'e) world \<Rightarrow> (Client rpc \<Rightarrow> bool) \<Rightarrow> ClientPicker \<Rightarrow> Client \<Rightarrow> string \<Rightarrow> registry \<Rightarrow> string list \<Rightarrow> Client rpc list option" where
  "migrate_groups W accepts p target newAddr r [] = Some []"
| "migrate_groups W accepts p target newAddr r (groupName # names) =
     (case do { a \<leftarrow> GetGroup r groupName; objects r a } of
        None \<Rightarrow> migrate_groups W accepts p target newAddr r names
      | Some g \<Rightarrow> do {
          ks \<leftarrow> GetAllLocalKeys W g;
          (sent, _) \<leftarrow> migrate_keys W accepts p target newAddr g groupName ks [] [];
          sent' \<leftarrow> migrate_groups W accepts p target newAddr r names;
          Some (sent @ sent') })"

text \<open>The last section of \<open>migrateDataToNewNode\<close>.\<close>

definition finish_migration :: "ClientPicker \<Rightarrow> string \<Rightarrow> ClientPicker" where
  "finish_migration p newAddr = (if map_of (clients p) newAddr \<noteq> None then mark_healthy p newAddr else p)"

definition migrateDataToNewNode ::
  "(Client, 'e) world \<Rightarrow> (Client rpc \<Rightarrow> bool) \<Rightarrow> (string list \<Rightarrow> string list) \<Rightarrow> registry \<Rightarrow> ClientPicker \<Rightarrow> string \<Rightarrow>
   (ClientPicker \<times> Client rpc list) option" where
  "migrateDataToNewNode W accepts ord r p newAddr = (case map_of (clients p) newAddr of
     None \<Rightarrow> Some (p, [])
   | Some target \<Rightarrow> do {
       sent \<leftarrow> migrate_groups W accepts p target newAddr r (ord (map fst (groups r)));
       Some (finish_migration p newAddr, sent) })"

text \<open>\<open>MigrateDataAway\<close>: the keys of a group per destination, and the calls to one destination.\<close>

definition add_dest :: "string \<Rightarrow> string \<Rightarrow> (string, string list) gomap \<Rightarrow> (string, string list) gomap" where
  "add_dest key dest destKeys =
     AList.update dest ((case map_of destKeys dest of Some ks \<Rightarrow> ks | None \<Rightarrow> []) @ [key]) destKeys"

definition dest_keys :: "ClientPicker \<Rightarrow> string list \<Rightarrow> (string, string list) gomap" where
  "dest_keys p ks = fold (\<lambda>key destKeys.
     fold (\<lambda>dest destKeys. if dest \<noteq> [] \<and> dest \<noteq> selfAddr p then add_dest key dest destKeys else destKeys)
       (GetN (consHash p) key 2) destKeys) ks []"

fun send_keys :: "(Client, 'e) world \<Rightarrow> Group \<Rightarrow> string \<Rightarrow> Client \<Rightarrow> string list \<Rightarrow> Client rpc list option" where
  "send_keys W g groupName destClient [] = Some []"
| "send_keys W g groupName destClient (key # ks) = do {
     (val, ok) \<leftarrow> GetLocalKeyValue W g key;
     sent \<leftarrow> send_keys W g groupName destClient ks;
     Some (if \<not> ok then sent else RpcSet destClient migration_ctx groupName key val # sent) }"

fun send_dests ::
  "(Client, 'e) world \<Rightarrow> ClientPicker \<Rightarrow> Group \<Rightarrow> string \<Rightarrow> (string, string list) gomap \<Rightarrow> string list \<Rightarrow> Client rpc list option" where
  "send_dests W p g groupName destKeys [] = Some []"
| "send_dests W p g groupName destKeys (dest # dests) = (case map_of (clients p) dest of
     None \<Rightarrow> send_dests W p g groupName destKeys dests
   | Some destClient \<Rightarrow> do {
       sent \<leftarrow> send_keys W g groupName destClient (case map_of destKeys dest of Some ks \<Rightarrow> ks | None \<Rightarrow> []);
       sent' \<leftarrow> send_dests W p g groupName destKeys dests;
       Some (sent @ sent') })"

fun migrate_away ::
  "(Client, 'e) world \<Rightarrow> (string list \<Rightarrow> string list) \<Rightarrow> ClientPicker \<Rightarrow> registry \<Rightarrow> string list \<Rightarrow> Client rpc list option" where
  "migrate_away W ord p r [] = Some []"
| "migrate_away W ord p r (groupName # names) =
     (case do { a \<leftarrow> GetGroup r groupName; objects r a } of
        None \<Rightarrow> migrate_away W ord p r names
      | Some g \<Rightarrow> do {
          ks \<leftarrow> GetAllLocalKeys W g;
          sent \<leftarrow> (if length ks = 0 then Some []
                   else (let destKeys = dest_keys p ks in send_dests W p g groupName destKeys (ord (map fst destKeys))));
          sent' \<leftarrow> migrate_away W ord p r names;
          Some (sent @ sent') })"

definition MigrateDataAway ::
  "(Client, 'e) world \<Rightarrow> (string list \<Rightarrow> string list) \<Rightarrow> ClientPicker \<Rightarrow> registry \<Rightarrow> Client rpc list option" where
  "MigrateDataAway W ord p r = migrate_away W ord p r (ord (map fst (groups r)))"

text \<open>\<open>migrateDataFromLeavingNode\<close> changes nothing and sends nothing; it logs the keys, by group.\<close>

definition migrateDataFromLeavingNode ::
  "(Client, 'e) world \<Rightarrow> (string list \<Rightarrow> string list) \<Rightarrow> registry \<Rightarrow> ClientPicker \<Rightarrow> string \<Rightarrow> (string \<times> string list) list option" where
  "migrateDataFromLeavingNode W ord r p leavingAddr =
     fold (\<lambda>groupName logged. do {
         logged \<leftarrow> logged;
         case do { a \<leftarrow> GetGroup r groupName; objects r a } of
           None \<Rightarrow> Some logged
         | Some g \<Rightarrow> do {
             ks \<leftarrow> GetAllLocalKeys W g;
             Some (logged @ [(groupName, filter (\<lambda>key. wasKeyOnNode p key leavingAddr \<and> shouldKeyBeOnNode p key (selfAddr p)) ks)]) } })
       (ord (map fst (groups r))) (Some [])"

section \<open>Addresses in etcd keys\<close>

text \<open>The key under which \<open>registry.Register\<close> puts an address, and its parser.\<close>

definition service_key :: "string \<Rightarrow> string \<Rightarrow> string" where
  "service_key svc addr = ''/services/'' @ svc @ ''/'' @ addr"

definition has_prefix :: "string \<Rightarrow> string \<Rightarrow> bool" where
  "has_prefix s p = (take (length p) s = p)"

definition parseAddrFromKey :: "string \<Rightarrow> string \<Rightarrow> string" where
  "parseAddrFromKey key svc =
     (let p = ''/services/'' @ svc @ ''/''
      in if has_prefix key p then drop (length p) key else [])"

text \<open>The address that \<open>Register\<close> announces, given the local IP; an empty address panics.\<close>

definition register_addr :: "string \<Rightarrow> string \<Rightarrow> string option" where
  "register_addr localIP addr =
     (if length addr = 0 then None
      else Some (if addr ! 0 = CHR '':'' then localIP @ addr else addr))"

end
