(* ===== verification/PickerProps.thy ===== *)
theory PickerProps
  imports Picker
begin

text \<open>
  The properties of the peer picker: the node itself is never among its peers, which nodes it
  picks, what the migrations send, and the addresses in etcd keys.
\<close>

section \<open>Reachable pickers\<close>

inductive picker_reach :: "ClientPicker \<Rightarrow> bool" where
  p_new: "NewClientPicker etcd dials services addr opts = Inr p \<Longrightarrow>
    \<forall>opt \<in> set opts. \<exists>name. opt = WithServiceName name \<Longrightarrow> picker_reach p"
| p_events: "picker_reach p \<Longrightarrow> handleWatchEvents dials p events = (p', newNodes, leavingNodes) \<Longrightarrow> picker_reach p'"
| p_drop: "picker_reach p \<Longrightarrow> picker_reach (drop_leaving p addr)"
| p_finish: "picker_reach p \<Longrightarrow> picker_reach (finish_migration p addr)"
| p_pick: "picker_reach p \<Longrightarrow> picker_reach (fst (picker_PickPeer p key))"
| p_balance: "picker_reach p \<Longrightarrow> visits ord \<Longrightarrow> checkAndRebalance fl ord (consHash p) = Returns m \<Longrightarrow>
    picker_reach (p\<lparr>consHash := m\<rparr>)"

text \<open>No virtual node and no client belongs to the node itself, and clients are kept under their
  own address.\<close>

definition picker_inv :: "ClientPicker \<Rightarrow> bool" where
  "picker_inv p \<longleftrightarrow> (\<forall>h. map_of (hashMap (consHash p)) h \<noteq> Some (selfAddr p)) \<and>
     map_of (clients p) (selfAddr p) = None \<and> map_ok (clients p) \<and> map_ok (hashMap (consHash p)) \<and>
     (\<forall>a c. map_of (clients p) a = Some c \<longrightarrow> c_addr c = a)"

lemma ring_Add_hashMap:
  assumes "ring_Add m [node] = Inr m'" and "map_ok (hashMap m)"
  shows "map_ok (hashMap m')" and "map_of (hashMap m') h = Some x \<Longrightarrow> x = node \<or> map_of (hashMap m) h = Some x"
  using assms addNode_result(3,4) [where m = m and node = node and r = "DefaultReplicas (config m)"]
  by (auto simp: ring_Add_def Let_def split: if_split_asm)

lemma ring_Remove_hashMap:
  assumes "ring_Remove False m node = Returns (Inr m')" and "map_ok (hashMap m)"
  shows "map_ok (hashMap m')" and "map_of (hashMap m') h = Some x \<Longrightarrow> map_of (hashMap m) h = Some x"
proof -
  let ?r = "case map_of (nodeReplicas m) node of Some r \<Rightarrow> r | None \<Rightarrow> 0"
  let ?f = "fold (\<lambda>i m. (let hash = vhash (config m) node i
       in m\<lparr>hashMap := AList.delete hash (hashMap m), keys := remove_hash hash (keys m)\<rparr>)) [0..<nat ?r] m"
  note r = remove_points [of node "[0..<nat ?r]" m, unfolded Let_def]
  have "hashMap m' = hashMap (fold (\<lambda>i m. m\<lparr>hashMap := AList.delete (vhash (config m) node i) (hashMap m),
      keys := remove_hash (vhash (config m) node i) (keys m)\<rparr>) [0..<nat ?r] m)"
    using assms(1) by (auto simp: ring_Remove_def Let_def split: if_split_asm)
  with r assms(2) show "map_ok (hashMap m')" "map_of (hashMap m') h = Some x \<Longrightarrow> map_of (hashMap m) h = Some x"
    by (auto split: if_split_asm)
qed

lemma set_inv:
  assumes "picker_inv p" and "addr \<noteq> selfAddr p"
  shows "picker_inv (picker_set dials p addr)" and "selfAddr (picker_set dials p addr) = selfAddr p"
proof -
  show "selfAddr (picker_set dials p addr) = selfAddr p"
    by (simp add: picker_set_def split: option.split)
  show "picker_inv (picker_set dials p addr)"
  proof (cases "ring_Add (consHash p) [addr]")
    case (Inl e)
    then show ?thesis using assms by (auto simp: picker_set_def picker_inv_def NewClient_def map_of_update)
  next
    case (Inr m)
    then show ?thesis
      using assms ring_Add_hashMap [OF Inr] by (auto simp: picker_set_def picker_inv_def NewClient_def map_of_update)
  qed
qed

lemma marks_inv [simp]:
  "picker_inv (mark_unhealthy p addr) = picker_inv p" "picker_inv (mark_healthy p addr) = picker_inv p"
  "selfAddr (mark_unhealthy p addr) = selfAddr p" "selfAddr (mark_healthy p addr) = selfAddr p"
  by (simp_all add: picker_inv_def mark_unhealthy_def mark_healthy_def MarkUnhealthy_def MarkHealthy_def)

lemma remove_inv:
  assumes "picker_inv p"
  shows "picker_inv (picker_remove p addr)" and "selfAddr (picker_remove p addr) = selfAddr p"
proof -
  show "selfAddr (picker_remove p addr) = selfAddr p" by (simp add: picker_remove_def)
  show "picker_inv (picker_remove p addr)"
  proof (cases "\<exists>m. ring_Remove False (consHash p) addr = Returns (Inr m)")
    case True
    then obtain m where m: "ring_Remove False (consHash p) addr = Returns (Inr m)" by blast
    then show ?thesis
      using assms ring_Remove_hashMap [OF m] by (auto simp: picker_remove_def picker_inv_def map_of_delete)
  next
    case False
    then have "(case ring_Remove False (consHash p) addr of Returns (Inr m) \<Rightarrow> m | _ \<Rightarrow> consHash p) = consHash p"
      by (auto split: locking.split sum.split)
    then show ?thesis using assms by (auto simp: picker_remove_def picker_inv_def map_of_delete)
  qed
qed

lemma event_inv:
  assumes "picker_inv p" and "handle_event dials ev (p, ns, ls) = (p', ns', ls')"
  shows "picker_inv p' \<and> selfAddr p' = selfAddr p"
  using assms set_inv [OF assms(1), where dials = dials]
  by (auto simp: handle_event_def Let_def split: if_split_asm event_type.splits)

lemma events_inv:
  "picker_inv p \<Longrightarrow> fold (handle_event dials) events (p, ns, ls) = (p', ns', ls') \<Longrightarrow> picker_inv p' \<and> selfAddr p' = selfAddr p"
proof (induction events arbitrary: p ns ls)
  case (Cons ev evs)
  obtain p1 n1 l1 where 1: "handle_event dials ev (p, ns, ls) = (p1, n1, l1)" by (cases "handle_event dials ev (p, ns, ls)")
  with Cons.prems(2) have "fold (handle_event dials) evs (p1, n1, l1) = (p', ns', ls')" by simp
  with Cons.IH event_inv [OF Cons.prems(1) 1] show ?case by metis
qed simp

lemma fetch_inv:
  assumes "picker_inv p" and "fetchAllServices dials services p = Inr p'"
  shows "picker_inv p' \<and> selfAddr p' = selfAddr p"
proof -
  let ?f = "\<lambda>addr p. if addr \<noteq> [] \<and> addr \<noteq> selfAddr p then mark_healthy (picker_set dials p addr) addr else p"
  have "picker_inv p \<Longrightarrow> picker_inv (fold ?f addrs p) \<and> selfAddr (fold ?f addrs p) = selfAddr p" for addrs
    by (induction addrs arbitrary: p) (use set_inv in auto)
  with assms show ?thesis by (auto simp: fetchAllServices_def split: option.splits)
qed

lemma new_picker_inv:
  assumes "NewClientPicker etcd dials services addr opts = Inr p" and "\<forall>opt \<in> set opts. \<exists>name. opt = WithServiceName name"
  shows "picker_inv p \<and> selfAddr p = addr"
proof -
  have *: "picker_inv q \<Longrightarrow> picker_inv (fold (\<lambda>opt p. opt p) opts q) \<and> selfAddr (fold (\<lambda>opt p. opt p) opts q) = selfAddr q" for q
    using assms(2)
  proof (induction opts arbitrary: q)
    case (Cons opt opts)
    then obtain name where o: "opt = WithServiceName name" by auto
    have "picker_inv (opt q)" "selfAddr (opt q) = selfAddr q" using Cons.prems by (simp_all add: o WithServiceName_def picker_inv_def)
    with Cons show ?case by simp
  qed simp
  have "picker_inv \<lparr>selfAddr = addr, svcName = defaultSvcName, consHash = ConsHash.New [], clients = []\<rparr>"
    by (simp add: picker_inv_def ConsHash.New_def)
  from * [OF this] assms(1) show ?thesis
    by (auto simp: NewClientPicker_def Let_def split: if_split_asm dest!: fetch_inv [rotated])
qed

lemma rebalance_hashMap:
  assumes "checkAndRebalance fl ord m = Returns m'"
  shows "hashMap m' = hashMap m"
proof -
  have loop: "rebalance_loop fl avg ns m1 = Returns m2 \<Longrightarrow> hashMap m2 = hashMap m1" for avg ns m1 m2
  proof (induction ns arbitrary: m1)
    case (Cons n ns)
    then show ?case by (auto simp: ring_Remove_def Let_def split: option.splits if_split_asm locking.splits sum.splits)
  qed simp
  show ?thesis
    using assms loop
    by (auto simp: checkAndRebalance_def rebalanceNodes_def Let_def split: if_split_asm locking.splits)
qed

lemma count_request_hashMap: "hashMap (count_request m node) = hashMap m"
  by (simp add: count_request_def Let_def split: option.split)

lemma ring_Get_hashMap: "hashMap (fst (ring_Get m key)) = hashMap m"
  by (simp add: ring_Get_def Let_def count_request_hashMap)

lemma picker_reach_inv: "picker_reach p \<Longrightarrow> picker_inv p"
proof (induction rule: picker_reach.induct)
  case (p_new etcd dials services addr opts p)
  then show ?case using new_picker_inv by blast
next
  case (p_events p dials events p' ns ls)
  then show ?case using events_inv by (simp add: handleWatchEvents_def)
next
  case (p_drop p addr)
  then show ?case using remove_inv by (simp add: drop_leaving_def)
next
  case (p_finish p addr)
  then show ?case by (simp add: finish_migration_def)
next
  case (p_pick p key)
  have "consHash (fst (picker_PickPeer p key)) = fst (ring_Get (consHash p) key)" "clients (fst (picker_PickPeer p key)) = clients p"
    "selfAddr (fst (picker_PickPeer p key)) = selfAddr p"
    by (simp_all add: picker_PickPeer_def Let_def split: prod.split option.split)
  with p_pick ring_Get_hashMap [of "consHash p" key] show ?case by (simp add: picker_inv_def)
next
  case (p_balance p ord fl m)
  then show ?case using rebalance_hashMap [OF p_balance.hyps(3)] by (simp add: picker_inv_def)
qed

section \<open>Picking\<close>

lemma node_at_cases: "node_at m i = [] \<or> (\<exists>h. map_of (hashMap m) h = Some (node_at m i))"
  by (auto simp: node_at_def zero_str_def split: option.split)

lemma collect_members:
  "x \<in> set (collect_loop skip m idx n js seen result) \<Longrightarrow> x \<in> set result \<or> (\<exists>i. x = node_at m i)"
proof (induction js arbitrary: seen result)
  case (Cons j js)
  then show ?case by (auto simp: Let_def split: if_split_asm) fastforce+
qed simp

lemma GetN_members:
  "x \<in> set (GetN m key n) \<Longrightarrow> \<exists>i. x = node_at m i" "x \<in> set (GetNHealthy m key n) \<Longrightarrow> \<exists>i. x = node_at m i"
  by (auto simp: GetN_def GetNHealthy_def split: if_split_asm dest!: collect_members)

lemma all_peers_set:
  "set (picker_GetAllPeers ord p) = {c. \<exists>a \<in> set (ord (map fst (clients p))). map_of (clients p) a = Some c \<and> a \<noteq> selfAddr p}"
proof -
  have "set (fold (\<lambda>addr peers. case map_of (clients p) addr of
         Some client \<Rightarrow> if addr \<noteq> selfAddr p then peers @ [client] else peers
       | None \<Rightarrow> peers) as acc) = set acc \<union> {c. \<exists>a \<in> set as. map_of (clients p) a = Some c \<and> a \<noteq> selfAddr p}" for as acc
    by (induction as arbitrary: acc) (auto split: option.split)
  then show ?thesis by (simp add: picker_GetAllPeers_def)
qed

text \<open>A picker never picks its own node: in every run of a picker (discovery, events, removals, ends of
  migrations, lookups, rebalancing) no peer it returns has the node's own address and the flag for
  "this key is mine" is never set, neither by PickPeer nor by PickPeerWithFallback.\<close>
lemma picker_never_self:
  assumes "picker_reach p" and "selfAddr p \<noteq> []"
  shows "(snd (picker_PickPeer p key) = (c, ok, self) \<longrightarrow> \<not> self \<and> map_option c_addr c \<noteq> Some (selfAddr p)) \<and>
    (picker_PickPeerWithFallback p key = (pr, re, ok', self') \<longrightarrow>
       \<not> self' \<and> map_option c_addr pr \<noteq> Some (selfAddr p) \<and> map_option c_addr re \<noteq> Some (selfAddr p)) \<and>
    (\<forall>c \<in> set (picker_GetAllPeers ord p). c_addr c \<noteq> selfAddr p)"
proof (intro conjI impI)
  have inv: "picker_inv p" by (rule picker_reach_inv [OF assms(1)])
  have client: "map_of (clients p) a = Some c \<Longrightarrow> a \<noteq> selfAddr p \<and> c_addr c = a" for a c
    using inv by (auto simp: picker_inv_def)
  have member: "a \<noteq> selfAddr p" if "a \<in> set (GetNHealthy (consHash p) key 2)" for a
    using GetN_members(2) [OF that] node_at_cases [of "consHash p"] inv assms(2) by (metis picker_inv_def)
  show "\<not> self" "map_option c_addr c \<noteq> Some (selfAddr p)" if "snd (picker_PickPeer p key) = (c, ok, self)"
    using that client by (auto simp: picker_PickPeer_def Let_def split: prod.splits option.splits if_split_asm)
  {
    assume f: "picker_PickPeerWithFallback p key = (pr, re, ok', self')"
    have n: "GetNHealthy (consHash p) key 2 \<noteq> [] \<Longrightarrow> GetNHealthy (consHash p) key 2 ! 0 \<noteq> selfAddr p"
      using member by simp
    show "\<not> self'" "map_option c_addr pr \<noteq> Some (selfAddr p)" "map_option c_addr re \<noteq> Some (selfAddr p)"
      using f n client by (auto simp: picker_PickPeerWithFallback_def Let_def split: if_split_asm)
  }
  show "\<forall>c \<in> set (picker_GetAllPeers ord p). c_addr c \<noteq> selfAddr p"
    using client by (auto simp: all_peers_set)
qed

text \<open>A picker keeps the promise of the interface that groups rely on.\<close>

interpretation pickp: peer_interface "\<lambda>p. picker_reach p \<and> selfAddr p \<noteq> []" "as_picker ord" "\<lambda>p c. c_addr c = selfAddr p" for ord
proof unfold_locales
  fix p key peer
  assume "PickPeer (as_picker ord p) key = (peer, True, False)"
  then show "peer \<noteq> None"
    by (cases peer) (auto simp: as_picker_def picker_PickPeer_def Let_def split: prod.splits option.splits if_split_asm)
next
  fix p key c ok self
  assume "picker_reach p \<and> selfAddr p \<noteq> []" "PickPeer (as_picker ord p) key = (Some c, ok, self)"
  then show "c_addr c \<noteq> selfAddr p"
    using picker_never_self [of p key "Some c" ok self] by (auto simp: as_picker_def)
next
  fix p pick key pr re ok self c
  assume "picker_reach p \<and> selfAddr p \<noteq> []" "PickPeerWithFallback (as_picker ord p) = Some pick"
    "pick key = (pr, re, ok, self)" "pr = Some c \<or> re = Some c"
  then show "c_addr c \<noteq> selfAddr p"
    using picker_never_self [of p key None ok self pr re ok self] by (auto simp: as_picker_def)
next
  fix p ps c
  assume "picker_reach p \<and> selfAddr p \<noteq> []" "GetAllPeers (as_picker ord p) = Some ps" "c \<in> set ps"
  then show "c_addr c \<noteq> selfAddr p"
    using picker_never_self [of p, where ord = ord] by (auto simp: as_picker_def)
qed

definition picker0 :: ClientPicker where
  "picker0 = \<lparr>selfAddr = ''s'', svcName = defaultSvcName, consHash = ConsHash.New [], clients = []\<rparr>"

lemma picker0_reach: "picker_reach picker0"
  by (rule p_new [where etcd = "\<lambda>_ _. True" and dials = "\<lambda>_. True" and services = "Some []" and addr = "''s''" and opts = "[]"])
    (simp_all add: NewClientPicker_def default_etcd_def fetchAllServices_def picker0_def)

definition picker1 :: ClientPicker where
  "picker1 = fst (handleWatchEvents (\<lambda>_. True) picker0 [(EventTypePut, ''s''), (EventTypePut, ''a'')])"

lemma picker_never_self_witness:
  "picker_reach picker1 \<and> map_of (clients picker1) ''a'' \<noteq> None \<and> snd (snd (snd (picker_PickPeer picker1 ''key''))) = False"
proof -
  obtain ns ls where e: "handleWatchEvents (\<lambda>_. True) picker0 [(EventTypePut, ''s''), (EventTypePut, ''a'')] = (picker1, ns, ls)"
    unfolding picker1_def by (metis prod.collapse)
  have r: "picker_reach picker1" by (rule p_events [OF picker0_reach e])
  have "selfAddr picker1 = ''s''" "map_of (clients picker1) ''a'' \<noteq> None"
    by (simp_all add: picker1_def handleWatchEvents_def handle_event_def picker0_def picker_set_def NewClient_def
        mark_unhealthy_def Let_def)
  with picker_never_self [OF r, of "''key''"] r show ?thesis by (metis list.distinct(1) prod.collapse)
qed

text \<open>What a picker's ring and clients have to do with each other once no two virtual nodes collide.\<close>

definition picker_wf :: "ClientPicker \<Rightarrow> bool" where
  "picker_wf p \<longleftrightarrow> picker_inv p \<and> ring_ok (consHash p) \<and> nodes_of (consHash p) \<subseteq> dom (map_of (clients p)) \<and>
     selfAddr p \<notin> nodes_of (consHash p)"

lemma wf_client:
  assumes "picker_wf p" and "a \<in> nodes_of (consHash p)"
  obtains c where "map_of (clients p) a = Some c" "c_addr c = a" "a \<noteq> selfAddr p"
proof -
  have "a \<in> dom (map_of (clients p))" "a \<noteq> selfAddr p" using assms by (auto simp: picker_wf_def)
  then show thesis using assms(1) by (auto simp: picker_wf_def picker_inv_def intro: that)
qed

lemma healthy_first:
  assumes ok: "ring_ok m" and key: "key \<noteq> []" and h: "GetNHealthy m key 2 \<noteq> []"
  shows "GetNHealthy m key 2 ! 0 = snd (GetHealthy m key)"
proof -
  let ?P = "\<lambda>x. \<not> unhealthy m x"
  note v = GetN_value(2) [OF ok key, of 2]
  obtain x where x: "x \<in> set (GetNHealthy m key 2)" using h by (cases "GetNHealthy m key 2") auto
  then have "x \<in> nodes_of m" "IsHealthy m x" using GetN_facts [OF ok key, of 2] by auto
  from GetHealthy_found [OF ok key this(1)] this(2)
  have g: "snd (GetHealthy m key) = hd (filter ?P (circle m key))" by (auto simp: IsHealthy_def)
  have "filter ?P (circle m key) \<noteq> []"
    using \<open>x \<in> nodes_of m\<close> \<open>IsHealthy m x\<close> set_circle [OF ok, of key] by (auto simp: filter_empty_conv IsHealthy_def)
  with fresh_hd [of "{}" "unhealthy m" "circle m key"]
  have f: "fresh (unhealthy m) {} (circle m key) \<noteq> []" "hd (fresh (unhealthy m) {} (circle m key)) = hd (filter ?P (circle m key))"
    by simp_all
  then show ?thesis using v g h by (cases "fresh (unhealthy m) {} (circle m key)") simp_all
qed

lemma fallback_facts:
  assumes "picker_wf p" and "key \<noteq> []"
  shows "\<exists>pr re. picker_PickPeerWithFallback p key = (pr, re, {x \<in> nodes_of (consHash p). IsHealthy (consHash p) x} \<noteq> {}, False) \<and>
    map_option c_addr pr = (if {x \<in> nodes_of (consHash p). IsHealthy (consHash p) x} = {} then None
      else Some (snd (GetHealthy (consHash p) key))) \<and>
    (re \<noteq> None \<longleftrightarrow> 2 \<le> card {x \<in> nodes_of (consHash p). IsHealthy (consHash p) x}) \<and>
    (\<forall>c. re = Some c \<longrightarrow> IsHealthy (consHash p) (c_addr c) \<and> c_addr c \<in> nodes_of (consHash p) \<and>
      c_addr c \<noteq> snd (GetHealthy (consHash p) key) \<and> re \<noteq> pr)"
proof -
  let ?m = "consHash p" and ?H = "{x \<in> nodes_of (consHash p). IsHealthy (consHash p) x}"
  let ?ns = "GetNHealthy ?m key 2"
  have ok: "ring_ok ?m" using assms(1) by (simp add: picker_wf_def)
  have n: "distinct ?ns" "set ?ns \<subseteq> ?H" "length ?ns = min 2 (card ?H)"
    using GetN_facts [OF ok assms(2), of 2] by auto
  have fin: "finite ?H" using finite_nodes [of ?m] by simp
  show ?thesis
  proof (cases "?ns = []")
    case True
    then have "card ?H = 0" using n(3) by (simp add: min_def split: if_split_asm)
    then have e: "?H = {}" using fin by (metis card_0_eq)
    show ?thesis unfolding e by (simp add: picker_PickPeerWithFallback_def True)
  next
    case False
    then have "?ns ! 0 \<in> set ?ns" by simp
    then have a: "?ns ! 0 \<in> ?H" "?ns ! 0 = snd (GetHealthy ?m key)"
      using n(2) healthy_first [OF ok assms(2) False] by blast+
    then have ne: "?H \<noteq> {}" by blast
    obtain c where c: "map_of (clients p) (?ns ! 0) = Some c" "c_addr c = ?ns ! 0" "?ns ! 0 \<noteq> selfAddr p"
      using wf_client [OF assms(1), of "?ns ! 0"] a(1) by blast
    show ?thesis
    proof (cases "2 \<le> length ?ns")
      case True
      then have "?ns ! 1 \<in> set ?ns" by simp
      with n(2) have b1: "?ns ! 1 \<in> ?H" by blast
      have "1 < length ?ns" "0 < length ?ns" using True by linarith+
      then have "?ns ! 1 \<noteq> ?ns ! 0" using nth_eq_iff_index_eq [OF n(1), of 1 0] by simp
      note b = b1 this
      obtain d where d: "map_of (clients p) (?ns ! 1) = Some d" "c_addr d = ?ns ! 1" "?ns ! 1 \<noteq> selfAddr p"
        using wf_client [OF assms(1), of "?ns ! 1"] b(1) by blast
      have "picker_PickPeerWithFallback p key = (Some c, Some d, True, False)"
        using False True c d by (simp add: picker_PickPeerWithFallback_def Let_def)
      moreover have "2 \<le> card ?H" using True n(3) by simp
      ultimately show ?thesis using ne a b c d by auto
    next
      case less: False
      then have "picker_PickPeerWithFallback p key = (Some c, None, True, False)"
        using False c by (simp add: picker_PickPeerWithFallback_def Let_def)
      moreover have "\<not> 2 \<le> card ?H" using less n(3) by simp
      ultimately show ?thesis using ne a c by auto
    qed
  qed
qed

text \<open>C16: PickPeerWithFallback on a ring without collisions: without a healthy node there is no peer;
  otherwise the primary is the client of the first healthy node clockwise from the key, and the
  replica, present exactly when a second node is healthy, is another healthy node's client.\<close>
theorem picker_fallback:
  assumes "picker_wf p" and "key \<noteq> []"
  shows "\<exists>pr re. picker_PickPeerWithFallback p key = (pr, re, {x \<in> nodes_of (consHash p). IsHealthy (consHash p) x} \<noteq> {}, False) \<and>
    map_option c_addr pr = (if {x \<in> nodes_of (consHash p). IsHealthy (consHash p) x} = {} then None
      else Some (snd (GetHealthy (consHash p) key))) \<and>
    (re \<noteq> None \<longleftrightarrow> 2 \<le> card {x \<in> nodes_of (consHash p). IsHealthy (consHash p) x}) \<and>
    (\<forall>c. re = Some c \<longrightarrow> IsHealthy (consHash p) (c_addr c) \<and> c_addr c \<in> nodes_of (consHash p) \<and>
      c_addr c \<noteq> snd (GetHealthy (consHash p) key) \<and> re \<noteq> pr)"
  by (rule fallback_facts [OF assms])

definition picker2 :: ClientPicker where
  "picker2 = \<lparr>selfAddr = ''s'', svcName = defaultSvcName, consHash = ring2,
     clients = map (\<lambda>a. (a, \<lparr>c_addr = a, c_svcName = defaultSvcName\<rparr>)) [''a'', ''b'']\<rparr>"

lemma picker2_wf: "picker_wf picker2"
proof -
  have out: "''s'' \<notin> nodes_of ring2" unfolding ring2_facts(2) by simp
  have "map_of (hashMap ring2) h \<noteq> Some ''s''" for h
  proof
    assume "map_of (hashMap ring2) h = Some ''s''"
    then obtain r where "map_of (nodeReplicas ring2) ''s'' = Some r"
      using ring_ok_map [OF ring2_facts(1)] by blast
    with out show False by (auto simp: nodes_of_def)
  qed
  moreover have "map_ok (hashMap ring2)" using ring2_facts(1) unfolding ring_ok_def by blast
  moreover have f: "selfAddr picker2 = ''s''" "consHash picker2 = ring2"
    "clients picker2 = [(''a'', \<lparr>c_addr = ''a'', c_svcName = defaultSvcName\<rparr>), (''b'', \<lparr>c_addr = ''b'', c_svcName = defaultSvcName\<rparr>)]"
    by (simp_all add: picker2_def)
  ultimately have "picker_inv picker2" unfolding picker_inv_def f by (simp add: map_ok_def)
  moreover have "nodes_of ring2 \<subseteq> dom (map_of (clients picker2))" unfolding f ring2_facts(2) by auto
  ultimately show ?thesis using ring2_facts(1) out unfolding picker_wf_def f by blast
qed

theorem picker_fallback_witness:
  "\<exists>c d. picker_PickPeerWithFallback picker2 ''key'' = (Some c, Some d, True, False) \<and> c \<noteq> d"
proof -
  have "unhealthyNodes ring2 = []" by code_simp
  then have h: "{x \<in> nodes_of (consHash picker2). IsHealthy (consHash picker2) x} = {''a'', ''b''}"
    using ring2_facts(2) by (auto simp: picker2_def IsHealthy_def unhealthy_def)
  have "''key'' \<noteq> []" by simp
  from picker_fallback [OF picker2_wf this] show ?thesis unfolding h by auto
qed

end
