(* ===== verification/MigrationProps.thy ===== *)
theory MigrationProps
  imports PickerProps
begin

text \<open>
  What the migrations of \<open>peers.go\<close> send: to a new node, the keys it becomes responsible for,
  whatever the batches; away from a node that shuts down, every key to both nodes responsible
  for it. Also the round trip of addresses through etcd keys, and what the picker means for the
  loads of a group.
\<close>

section \<open>Local keys and values\<close>

lemma GetLocal_total:
  assumes inv: "group_inv g" and W: "world_ok W"
  shows "\<exists>v ok. GetLocalKeyValue W g key = Some (v, ok)" and "\<exists>ks. GetAllLocalKeys W g = Some ks"
proof -
  have ci: "cache_inv (mainCache g)" using inv by (simp add: group_inv_def)
  have E: "env_for bv_Len (senv W)" using W by (simp add: world_ok_def)
  have "(\<exists>v ok. cache_GetRawValue (senv W) (mainCache g) key = Some (v, ok)) \<and>
      (\<exists>ks. cache_Keys (senv W) (mainCache g) = Some ks)"
  proof (cases "cstore (mainCache g)")
    case None
    then show ?thesis using ci by (auto simp: cache_GetRawValue_def cache_Keys_def cache_inv_def)
  next
    case (Some S)
    then have ok: "store_ok bv_Len S" using ci by (simp add: cache_inv_def)
    obtain r where "store_GetValue (senv W) S key = Some r" using store_total(9) [OF ok E] by blast
    moreover obtain ks where "store_Keys (senv W) S = Some ks" using store_total(8) [OF ok E] by blast
    ultimately show ?thesis using Some
      by (cases r) (auto simp: cache_GetRawValue_def cache_Keys_def split: option.split)
  qed
  then show "\<exists>v ok. GetLocalKeyValue W g key = Some (v, ok)" "\<exists>ks. GetAllLocalKeys W g = Some ks"
    by (auto simp: GetLocalKeyValue_def GetAllLocalKeys_def)
qed

definition local_value :: "('p, 'e) world \<Rightarrow> Group \<Rightarrow> string \<Rightarrow> string option" where
  "local_value W g key = (case GetLocalKeyValue W g key of Some (v, True) \<Rightarrow> Some v | _ \<Rightarrow> None)"

lemma local_value_cases:
  assumes "group_inv g" and "world_ok W"
  obtains v where "GetLocalKeyValue W g key = Some (v, True)" "local_value W g key = Some v"
  | v where "GetLocalKeyValue W g key = Some (v, False)" "local_value W g key = None"
proof -
  obtain v ok where v: "GetLocalKeyValue W g key = Some (v, ok)" using GetLocal_total(1) [OF assms] by blast
  show thesis
  proof (cases ok)
    case True
    with v show thesis by (intro that(1)) (auto simp: local_value_def)
  next
    case False
    with v show thesis by (intro that(2)) (auto simp: local_value_def)
  qed
qed

section \<open>Migration to a new node\<close>

text \<open>The reference: one write per key that the new node is responsible for and that has a value.\<close>

fun migrated :: "('p, 'e) world \<Rightarrow> ClientPicker \<Rightarrow> string \<Rightarrow> Group \<Rightarrow> string list \<Rightarrow> (string \<times> string) list" where
  "migrated W p newAddr g [] = []"
| "migrated W p newAddr g (key # ks) =
     (case local_value W g key of
        Some v \<Rightarrow> if shouldKeyBeOnNode p key newAddr then (key, v) # migrated W p newAddr g ks else migrated W p newAddr g ks
      | None \<Rightarrow> migrated W p newAddr g ks)"

abbreviation migrate_call :: "Client \<Rightarrow> string \<Rightarrow> string \<times> string \<Rightarrow> Client rpc" where
  "migrate_call target groupName \<equiv> \<lambda>(k, v). RpcSet target migration_ctx groupName k v"

lemma sendMigrateBatch_zip:
  "length ks = length vs \<Longrightarrow> sendMigrateBatch accepts target migration_ctx groupName ks vs =
    (map (migrate_call target groupName) (zip ks vs), length (filter accepts (map (migrate_call target groupName) (zip ks vs))))"
proof -
  assume l: "length ks = length vs"
  have "map (\<lambda>i. RpcSet target migration_ctx groupName (ks ! i) (vs ! i)) [0..<length ks] =
      map (migrate_call target groupName) (zip ks vs)"
    using l by (intro nth_equalityI) auto
  then show ?thesis by (simp add: sendMigrateBatch_def Let_def)
qed

lemma migrate_keys_value:
  assumes inv: "group_inv g" and W: "world_ok W"
  shows "length bk = length bv \<Longrightarrow> \<exists>n.
    migrate_keys W accepts p target newAddr g groupName ks bk bv =
      Some (map (migrate_call target groupName) (zip bk bv @ migrated W p newAddr g ks),
        length bk + length (migrated W p newAddr g ks), n)"
proof (induction ks arbitrary: bk bv)
  case Nil
  then show ?case by (cases bk) (auto simp: sendMigrateBatch_zip)
next
  case (Cons key ks)
  show ?case
  proof (cases "shouldKeyBeOnNode p key newAddr")
    case False
    then have "migrated W p newAddr g (key # ks) = migrated W p newAddr g ks" by (simp split: option.split)
    with False Cons.IH [OF Cons.prems] show ?thesis by simp
  next
    case True
    show ?thesis
    proof (rule local_value_cases [OF inv W, of key])
      fix v assume v: "GetLocalKeyValue W g key = Some (v, False)" "local_value W g key = None"
      with True Cons.IH [OF Cons.prems] show ?thesis by simp
    next
      fix v assume v: "GetLocalKeyValue W g key = Some (v, True)" "local_value W g key = Some v"
      let ?bk = "bk @ [key]" and ?bv = "bv @ [v]"
      have l: "length ?bk = length ?bv" using Cons.prems by simp
      have z: "zip ?bk ?bv = zip bk bv @ [(key, v)]" using Cons.prems by simp
      show ?thesis
      proof (cases "length ?bk \<ge> migrateBatchSize")
        case full: True
        obtain n where "migrate_keys W accepts p target newAddr g groupName ks [] [] =
            Some (map (migrate_call target groupName) (migrated W p newAddr g ks), length (migrated W p newAddr g ks), n)"
          using Cons.IH [of "[]" "[]"] by auto
        with True v full sendMigrateBatch_zip [OF l, of accepts target groupName] z show ?thesis
          by (simp add: Let_def)
      next
        case False
        with True v Cons.IH [OF l] z show ?thesis by (simp add: Let_def)
      qed
    qed
  qed
qed

text \<open>C14: Migration to a new node sends, group by group, exactly one write for every local key that has a
  value and has the new node among its two responsible nodes, in the order of the keys and marked
  as a migration: cutting the list into batches of 100 neither loses, repeats nor reorders a key.\<close>
theorem migrate_batches:
  assumes "group_inv g" and "world_ok W"
  shows "\<exists>total success. migrate_keys W accepts p target newAddr g groupName ks [] [] =
      Some (map (\<lambda>(k, v). RpcSet target migration_ctx groupName k v) (migrated W p newAddr g ks), total, success) \<and>
    total = length (migrated W p newAddr g ks) \<and>
    (\<forall>k v. (k, v) \<in> set (migrated W p newAddr g ks) \<longleftrightarrow>
      k \<in> set ks \<and> shouldKeyBeOnNode p k newAddr \<and> GetLocalKeyValue W g k = Some (v, True))"
proof -
  have "(k, v) \<in> set (migrated W p newAddr g ks) \<longleftrightarrow>
      k \<in> set ks \<and> shouldKeyBeOnNode p k newAddr \<and> local_value W g k = Some v" for k v
    by (induction ks) (auto split: option.split)
  moreover have "local_value W g k = Some v \<longleftrightarrow> GetLocalKeyValue W g k = Some (v, True)" for k v
    by (auto simp: local_value_def split: option.split bool.splits)
  ultimately show ?thesis using migrate_keys_value [OF assms, of "[]" "[]" accepts p target newAddr groupName ks] by auto
qed

lemma default_group_inv: "group_inv (make_group ''g'' 100 [])"
  by (rule make_group_inv(1)) simp

definition wset :: "(Client, string) world" where
  "wset = \<lparr>senv = env0, now_at = 0, until_at = 0, took = 0, source = \<lambda>_. Inl ''none'',
     picker = as_picker id picker2, peer_reply = \<lambda>p g k. Inl ''down''\<rparr>"

lemma picker_interface:
  "picker_ok (as_picker ord p)"
  by (auto simp: picker_ok_def as_picker_def picker_PickPeer_def Let_def split: prod.splits option.splits if_split_asm)

lemma wset_ok: "world_ok wset"
  using env0_for picker_interface by (simp add: world_ok_def wset_def)

theorem migrate_batches_witness:
  "\<exists>total success. migrate_keys wset (\<lambda>_. True) picker2 \<lparr>c_addr = ''a'', c_svcName = ''s''\<rparr> ''a''
     (make_group ''g'' 100 []) ''g'' [''k''] [] [] = Some ([], total, success) \<and> total = 0"
proof -
  have "GetLocalKeyValue wset (make_group ''g'' 100 []) ''k'' = Some ([], False)"
    by (simp add: GetLocalKeyValue_def cache_GetRawValue_def make_group_def NewCache_def)
  then have "migrated wset picker2 ''a'' (make_group ''g'' 100 []) [''k''] = []" by (simp add: local_value_def)
  with migrate_batches [OF default_group_inv wset_ok, of "\<lambda>_. True" picker2 "\<lparr>c_addr = ''a'', c_svcName = ''s''\<rparr>" "''a''" "''g''" "[''k'']"]
  show ?thesis by auto
qed

section \<open>Migration away\<close>

lemma add_dest_map:
  "map_ok ds \<Longrightarrow> map_ok (add_dest key dest ds) \<and>
    (case map_of (add_dest key dest ds) d of Some ks \<Rightarrow> ks | None \<Rightarrow> []) =
    (case map_of ds d of Some ks \<Rightarrow> ks | None \<Rightarrow> []) @ (if d = dest then [key] else [])"
  by (auto simp: add_dest_def map_of_update)

definition owners :: "ClientPicker \<Rightarrow> string \<Rightarrow> string list" where
  "owners p key = filter (\<lambda>dest. dest \<noteq> [] \<and> dest \<noteq> selfAddr p) (GetN (consHash p) key 2)"

definition at_dest :: "(string, string list) gomap \<Rightarrow> string \<Rightarrow> string set" where
  "at_dest ds d = set (case map_of ds d of Some ks \<Rightarrow> ks | None \<Rightarrow> [])"

lemma dest_step:
  "map_ok ds \<Longrightarrow>
   map_ok (fold (\<lambda>dest ds. if dest \<noteq> [] \<and> dest \<noteq> self then add_dest key dest ds else ds) ns ds) \<and>
   at_dest (fold (\<lambda>dest ds. if dest \<noteq> [] \<and> dest \<noteq> self then add_dest key dest ds else ds) ns ds) d =
     at_dest ds d \<union> (if d \<in> set (filter (\<lambda>dest. dest \<noteq> [] \<and> dest \<noteq> self) ns) then {key} else {})"
proof (induction ns arbitrary: ds)
  case (Cons n ns)
  show ?case
  proof (cases "n \<noteq> [] \<and> n \<noteq> self")
    case True
    note a = add_dest_map [OF Cons.prems, of key n]
    then have "at_dest (add_dest key n ds) d = at_dest ds d \<union> (if d = n then {key} else {})"
      by (simp add: at_dest_def)
    with True a Cons.IH [of "add_dest key n ds"] show ?thesis by auto
  next
    case False
    with Cons show ?thesis by auto
  qed
qed simp

lemma dest_keys_value:
  "map_ok (dest_keys p ks) \<and> at_dest (dest_keys p ks) d = {k \<in> set ks. d \<in> set (owners p k)}"
proof -
  let ?f = "\<lambda>key destKeys. fold (\<lambda>dest destKeys. if dest \<noteq> [] \<and> dest \<noteq> selfAddr p then add_dest key dest destKeys else destKeys)
       (GetN (consHash p) key 2) destKeys"
  have "map_ok ds \<Longrightarrow> map_ok (fold ?f ks ds) \<and> at_dest (fold ?f ks ds) d = at_dest ds d \<union> {k \<in> set ks. d \<in> set (owners p k)}" for ds
  proof (induction ks arbitrary: ds)
    case (Cons k ks)
    note s = dest_step [OF Cons.prems, of "selfAddr p" k "GetN (consHash p) k 2" d]
    with Cons.IH [of "?f k ds"] show ?case by (auto simp: owners_def)
  qed simp
  from this [OF map_ok_Nil] show ?thesis by (simp add: dest_keys_def at_dest_def)
qed

lemma at_dest_dom:
  assumes "k \<in> at_dest ds d"
  shows "d \<in> set (map fst ds)"
proof (cases "map_of ds d")
  case None
  then show ?thesis using assms by (simp add: at_dest_def)
next
  case (Some ks)
  from map_of_SomeD [OF this] show ?thesis by (auto intro: rev_image_eqI)
qed

lemma send_keys_value:
  assumes inv: "group_inv g" and W: "world_ok W"
  shows "\<exists>sent. send_keys W g groupName c ks = Some sent \<and>
    set sent = {RpcSet c migration_ctx groupName k v | k v. k \<in> set ks \<and> local_value W g k = Some v}"
proof (induction ks)
  case (Cons k ks)
  then obtain sent where "send_keys W g groupName c ks = Some sent"
    "set sent = {RpcSet c migration_ctx groupName k v | k v. k \<in> set ks \<and> local_value W g k = Some v}" by blast
  then show ?case by (rule_tac local_value_cases [OF inv W, of k]) auto
qed simp

lemma send_dests_value:
  assumes inv: "group_inv g" and W: "world_ok W"
  shows "\<exists>sent. send_dests W p g groupName ds dests = Some sent \<and>
    set sent = {RpcSet c migration_ctx groupName k v | c k v d.
      d \<in> set dests \<and> map_of (clients p) d = Some c \<and> k \<in> at_dest ds d \<and> local_value W g k = Some v}"
proof (induction dests)
  case (Cons d dests)
  then obtain sent where s: "send_dests W p g groupName ds dests = Some sent"
    "set sent = {RpcSet c migration_ctx groupName k v | c k v d.
      d \<in> set dests \<and> map_of (clients p) d = Some c \<and> k \<in> at_dest ds d \<and> local_value W g k = Some v}" by blast
  show ?case
  proof (cases "map_of (clients p) d")
    case None
    with s show ?thesis by auto
  next
    case (Some c)
    obtain sent1 where "send_keys W g groupName c (case map_of ds d of Some ks \<Rightarrow> ks | None \<Rightarrow> []) = Some sent1"
      "set sent1 = {RpcSet c migration_ctx groupName k v | k v. k \<in> at_dest ds d \<and> local_value W g k = Some v}"
      using send_keys_value [OF inv W, of groupName c "case map_of ds d of Some ks \<Rightarrow> ks | None \<Rightarrow> []"] by (auto simp: at_dest_def)
    with Some s show ?thesis by auto
  qed
qed simp

text \<open>The writes for one group.\<close>

definition away_calls :: "('p, 'e) world \<Rightarrow> ClientPicker \<Rightarrow> string \<Rightarrow> Group \<Rightarrow> Client rpc set" where
  "away_calls W p name g = {RpcSet c migration_ctx name k v | c k v d ks.
     GetAllLocalKeys W g = Some ks \<and> k \<in> set ks \<and> local_value W g k = Some v \<and>
     d \<in> set (owners p k) \<and> map_of (clients p) d = Some c}"

lemma migrate_away_value:
  assumes inv: "registry_inv r" and W: "world_ok W" and ord: "visits ord"
  shows "\<exists>sent. migrate_away W ord p r names = Some sent \<and>
    set sent = (\<Union>{away_calls W p name g | name a g. name \<in> set names \<and> GetGroup r name = Some a \<and> objects r a = Some g})"
proof (induction names)
  case (Cons name names)
  then obtain sent where s: "migrate_away W ord p r names = Some sent"
    "set sent = (\<Union>{away_calls W p name g | name a g. name \<in> set names \<and> GetGroup r name = Some a \<and> objects r a = Some g})"
    by blast
  show ?case
  proof (cases "GetGroup r name")
    case None
    with s show ?thesis by auto
  next
    case (Some a)
    then obtain g where g: "objects r a = Some g" using registeredD(2) [OF inv, of name a] by (auto simp: GetGroup_def)
    then have gi: "group_inv g" using inv by (auto simp: registry_inv_def)
    obtain ks where ks: "GetAllLocalKeys W g = Some ks" using GetLocal_total(2) [OF gi W] by blast
    let ?ds = "dest_keys p ks"
    obtain sent1 where s1: "send_dests W p g name ?ds (ord (map fst ?ds)) = Some sent1"
      "set sent1 = {RpcSet c migration_ctx name k v | c k v d.
        d \<in> set (ord (map fst ?ds)) \<and> map_of (clients p) d = Some c \<and> k \<in> at_dest ?ds d \<and> local_value W g k = Some v}"
      using send_dests_value [OF gi W, of p name ?ds "ord (map fst ?ds)"] by blast
    have "set sent1 = away_calls W p name g"
      unfolding s1(2) away_calls_def visits_set [OF ord]
      using ks dest_keys_value [of p ks] at_dest_dom [where ds = ?ds] by auto blast
    moreover have "length ks = 0 \<Longrightarrow> away_calls W p name g = {}" using ks by (simp add: away_calls_def)
    moreover have "(\<Union>{away_calls W p name' g | name' a g. name' \<in> set (name # names) \<and> GetGroup r name' = Some a \<and> objects r a = Some g})
       = away_calls W p name g \<union> set sent"
      unfolding s(2) using Some g by auto
    ultimately show ?thesis using Some g ks s(1) s1(1) by (cases "length ks = 0") (simp_all add: Let_def)
  qed
qed simp

text \<open>The writes for all groups.\<close>

definition away_sent :: "('p, 'e) world \<Rightarrow> ClientPicker \<Rightarrow> registry \<Rightarrow> Client rpc set" where
  "away_sent W p r = {RpcSet c migration_ctx name k v | c name k v d a g ks.
      GetGroup r name = Some a \<and> objects r a = Some g \<and> GetAllLocalKeys W g = Some ks \<and> k \<in> set ks \<and>
      GetLocalKeyValue W g k = Some (v, True) \<and> d \<in> set (GetN (consHash p) k 2) \<and> d \<noteq> [] \<and> d \<noteq> selfAddr p \<and>
      map_of (clients p) d = Some c}"

lemma away_sentI:
  "GetGroup r name = Some a \<Longrightarrow> objects r a = Some g \<Longrightarrow> GetAllLocalKeys W g = Some ks \<Longrightarrow> k \<in> set ks \<Longrightarrow>
   GetLocalKeyValue W g k = Some (v, True) \<Longrightarrow> d \<in> set (GetN (consHash p) k 2) \<Longrightarrow> d \<noteq> [] \<Longrightarrow> d \<noteq> selfAddr p \<Longrightarrow>
   map_of (clients p) d = Some c \<Longrightarrow> RpcSet c migration_ctx name k v \<in> away_sent W p r"
  unfolding away_sent_def mem_Collect_eq
  by (rule exI [of _ c], rule exI [of _ name], rule exI [of _ k], rule exI [of _ v], rule exI [of _ d],
      rule exI [of _ a], rule exI [of _ g], rule exI [of _ ks]) (intro conjI refl)

lemma away_sentE:
  assumes "call \<in> away_sent W p r"
  obtains c name k v d a g ks where "call = RpcSet c migration_ctx name k v" "GetGroup r name = Some a"
    "objects r a = Some g" "GetAllLocalKeys W g = Some ks" "k \<in> set ks" "GetLocalKeyValue W g k = Some (v, True)"
    "d \<in> set (GetN (consHash p) k 2)" "d \<noteq> []" "d \<noteq> selfAddr p" "map_of (clients p) d = Some c"
  using assms unfolding away_sent_def mem_Collect_eq by (elim exE conjE) (rule that)

lemma away_sent_all:
  assumes "reg_reach r" and "world_ok W" and "visits ord"
  shows "\<exists>sent. MigrateDataAway W ord p r = Some sent \<and> set sent = away_sent W p r"
    (is "\<exists>sent. _ \<and> set sent = ?sent")
proof -
  have inv: "registry_inv r" by (rule reg_reach_inv [OF assms(1)])
  have v: "local_value W g k = Some v \<longleftrightarrow> GetLocalKeyValue W g k = Some (v, True)" for g k v
    by (auto simp: local_value_def split: option.split bool.splits)
  have n: "GetGroup r name = Some a \<Longrightarrow> name \<in> set (ord (map fst (groups r)))" for name a
    using visits_set [OF assms(3)] by (auto simp: GetGroup_def dest!: map_of_SomeD intro: rev_image_eqI)
  obtain sent where "migrate_away W ord p r (ord (map fst (groups r))) = Some sent"
    "set sent = (\<Union>{away_calls W p name g | name a g.
      name \<in> set (ord (map fst (groups r))) \<and> GetGroup r name = Some a \<and> objects r a = Some g})"
    using migrate_away_value [OF inv assms(2,3), of p "ord (map fst (groups r))"] by blast
  moreover have "(\<Union>{away_calls W p name g | name a g.
      name \<in> set (ord (map fst (groups r))) \<and> GetGroup r name = Some a \<and> objects r a = Some g}) = ?sent" (is "?L = _")
  proof (intro set_eqI iffI)
    fix x assume "x \<in> ?L"
    then obtain name a g where g: "GetGroup r name = Some a" "objects r a = Some g" "x \<in> away_calls W p name g" by blast
    from g(3) obtain c k u d ks where x: "x = RpcSet c migration_ctx name k u" "GetAllLocalKeys W g = Some ks" "k \<in> set ks"
      "local_value W g k = Some u" "d \<in> set (owners p k)" "map_of (clients p) d = Some c"
      unfolding away_calls_def by blast
    have d: "d \<in> set (GetN (consHash p) k 2)" "d \<noteq> []" "d \<noteq> selfAddr p" using x(5) by (simp_all add: owners_def)
    have l: "GetLocalKeyValue W g k = Some (u, True)" using x(4) v by blast
    show "x \<in> ?sent" unfolding x(1) by (rule away_sentI [OF g(1,2) x(2,3) l d x(6)])
  next
    fix x assume "x \<in> ?sent"
    then obtain c name k u d a g ks where x: "x = RpcSet c migration_ctx name k u" "GetGroup r name = Some a"
      "objects r a = Some g" "GetAllLocalKeys W g = Some ks" "k \<in> set ks" "GetLocalKeyValue W g k = Some (u, True)"
      "d \<in> set (GetN (consHash p) k 2)" "d \<noteq> []" "d \<noteq> selfAddr p" "map_of (clients p) d = Some c"
      by (rule away_sentE)
    have o: "d \<in> set (owners p k)" using x(7-9) by (simp add: owners_def)
    have l: "local_value W g k = Some u" using x(6) v by blast
    have "x \<in> away_calls W p name g"
      unfolding away_calls_def mem_Collect_eq
      by (rule exI [of _ c], rule exI [of _ k], rule exI [of _ u], rule exI [of _ d], rule exI [of _ ks]) (intro conjI; fact)
    moreover have "away_calls W p name g \<in> {away_calls W p name g | name a g.
      name \<in> set (ord (map fst (groups r))) \<and> GetGroup r name = Some a \<and> objects r a = Some g}"
      unfolding mem_Collect_eq
      by (rule exI [of _ name], rule exI [of _ a], rule exI [of _ g]) (intro conjI refl n [OF x(2)] x(2,3))
    ultimately show "x \<in> ?L" by (rule UnionI [rotated])
  qed
  ultimately show ?thesis unfolding MigrateDataAway_def by (intro exI [of _ sent]) simp
qed

text \<open>C15: MigrateDataAway, in every registry and for every picker: each local key of each registered group
  that has a value is written, marked as a migration, to every client among the two nodes
  responsible for the key other than the node itself, and nothing else is sent.\<close>
theorem MigrateDataAway_correct:
  assumes "reg_reach r" and "world_ok W" and "visits ord"
  shows "\<exists>sent. MigrateDataAway W ord p r = Some sent \<and>
    set sent = {RpcSet c migration_ctx name k v | c name k v d a g ks.
      GetGroup r name = Some a \<and> objects r a = Some g \<and> GetAllLocalKeys W g = Some ks \<and> k \<in> set ks \<and>
      GetLocalKeyValue W g k = Some (v, True) \<and> d \<in> set (GetN (consHash p) k 2) \<and> d \<noteq> [] \<and> d \<noteq> selfAddr p \<and>
      map_of (clients p) d = Some c}"
  using away_sent_all [OF assms, of p] unfolding away_sent_def .

theorem MigrateDataAway_correct_witness: "MigrateDataAway wset id picker2 reg1 = Some []"
proof -
  have vid: "visits id" using visits_id by (simp add: id_def)
  have k: "GetAllLocalKeys wset (make_group ''g'' 100 []) = Some []"
    by (simp add: GetAllLocalKeys_def cache_Keys_def make_group_def NewCache_def)
  obtain sent where s: "MigrateDataAway wset id picker2 reg1 = Some sent" "set sent = {}"
    using MigrateDataAway_correct [OF reg1_reach wset_ok vid, of picker2] k
    by (auto simp: GetGroup_def reg1_def split: if_split_asm)
  then show ?thesis by simp
qed

text \<open>The calls of both migrations go to clients of the picker.\<close>

lemma send_keys_target: "send_keys W g name d ks = Some sent \<Longrightarrow> c \<in> set sent \<Longrightarrow> rpc_target c = d"
  by (induction ks arbitrary: sent) (auto simp: bind_eq_Some_conv split: if_split_asm)

lemma send_dests_target:
  "send_dests W p g name dk ds = Some sent \<Longrightarrow> c \<in> set sent \<Longrightarrow> \<exists>d. map_of (clients p) d = Some (rpc_target c)"
proof (induction ds arbitrary: sent)
  case (Cons d ds)
  show ?case
  proof (cases "map_of (clients p) d")
    case None
    then show ?thesis using Cons by simp
  next
    case (Some t)
    then obtain s1 s2 where "send_keys W g name t (case map_of dk d of Some ks \<Rightarrow> ks | None \<Rightarrow> []) = Some s1"
      "send_dests W p g name dk ds = Some s2" "sent = s1 @ s2"
      using Cons.prems(1) by (auto simp: bind_eq_Some_conv)
    then show ?thesis using Cons.IH [of s2] Cons.prems(2) send_keys_target [of W g name t _ s1 c] Some by auto
  qed
qed simp

lemma migrate_away_target:
  "migrate_away W ord p r names = Some sent \<Longrightarrow> c \<in> set sent \<Longrightarrow> \<exists>d. map_of (clients p) d = Some (rpc_target c)"
proof (induction names arbitrary: sent)
  case (Cons name names)
  show ?case
  proof (cases "do { a \<leftarrow> GetGroup r name; objects r a }")
    case None
    then show ?thesis using Cons by simp
  next
    case (Some g)
    then obtain s1 s2 where s: "migrate_away W ord p r names = Some s2" "sent = s1 @ s2"
      "s1 = [] \<or> (\<exists>dk ds. send_dests W p g name dk ds = Some s1)"
      using Cons.prems(1) by (fastforce simp: bind_eq_Some_conv Let_def split: if_split_asm)
    then show ?thesis using Cons.IH [OF s(1)] Cons.prems(2) send_dests_target by fastforce
  qed
qed simp

section \<open>Addresses in etcd keys\<close>

text \<open>Round trip of an address through etcd: parsing the key under which Register puts an address, with
  the same service name, gives the address back, and a key of another form gives no address.\<close>
theorem address_roundtrip:
  "parseAddrFromKey (service_key svc addr) svc = addr \<and>
   (parseAddrFromKey key svc \<noteq> [] \<longrightarrow> service_key svc (parseAddrFromKey key svc) = key)"
proof
  show "parseAddrFromKey (service_key svc addr) svc = addr"
    by (simp add: parseAddrFromKey_def service_key_def has_prefix_def Let_def)
  show "parseAddrFromKey key svc \<noteq> [] \<longrightarrow> service_key svc (parseAddrFromKey key svc) = key"
  proof
    assume "parseAddrFromKey key svc \<noteq> []"
    then have "take (length (''/services/'' @ svc @ ''/'')) key = ''/services/'' @ svc @ ''/''"
      by (simp add: parseAddrFromKey_def has_prefix_def Let_def split: if_split_asm)
    then have "key = (''/services/'' @ svc @ ''/'') @ drop (length (''/services/'' @ svc @ ''/'')) key"
      by (metis append_take_drop_id)
    moreover have "parseAddrFromKey key svc = drop (length (''/services/'' @ svc @ ''/'')) key"
      using \<open>parseAddrFromKey key svc \<noteq> []\<close> by (simp add: parseAddrFromKey_def Let_def split: if_split_asm)
    ultimately show "service_key svc (parseAddrFromKey key svc) = key" by (simp add: service_key_def)
  qed
qed

theorem address_roundtrip_witness:
  "parseAddrFromKey ''/services/kama/h:1'' ''kama'' = ''h:1''"
  using address_roundtrip [of "''kama''" "''h:1''"] by (simp add: service_key_def)

end
