(* ===== verification/Rpc.thy ===== *)
theory Rpc
  imports MigrationProps
begin

text \<open>
  \<open>client.go\<close>, \<open>server.go\<close> and \<open>registry/registry.go\<close>: the calls between nodes. A client turns the
  marks of a context into gRPC metadata, a server turns metadata back into marks and calls its
  group. gRPC, etcd and TLS are not under the repository: what they answer is an argument, and
  metadata arrives as it was sent. Metadata is the list of its key and value pairs.
\<close>

section \<open>Marks as metadata\<close>

type_synonym metadata = "(string \<times> string) list"

definition propagateContext :: "ctx \<Rightarrow> metadata" where
  "propagateContext ctx =
     (let pairs = [];
          pairs = (if from_peer ctx then pairs @ [(''from-peer'', ''true'')] else pairs);
          pairs = (if from_migration ctx then pairs @ [(''from-migration'', ''true'')] else pairs)
      in pairs)"

definition md_Get :: "metadata \<Rightarrow> string \<Rightarrow> string list" where
  "md_Get md k = map snd (filter (\<lambda>p. fst p = k) md)"

definition decorateContext :: "metadata option \<Rightarrow> ctx \<Rightarrow> ctx" where
  "decorateContext md ctx = (case md of
     None \<Rightarrow> ctx
   | Some md \<Rightarrow>
       (let vals = md_Get md ''from-peer'';
            ctx = (if length vals > 0 \<and> vals ! 0 = ''true'' then ctx\<lparr>from_peer := True\<rparr> else ctx);
            vals = md_Get md ''from-migration''
        in if length vals > 0 \<and> vals ! 0 = ''true'' then ctx\<lparr>from_migration := True\<rparr> else ctx))"

section \<open>The server's handlers\<close>

datatype 'e server_error = GroupNotFound string | GroupError "'e group_error"

text \<open>The group of a request, and the registry after the group has changed.\<close>

definition group_of :: "registry \<Rightarrow> string \<Rightarrow> (nat \<times> Group) option" where
  "group_of r name = (case GetGroup r name of
     None \<Rightarrow> None
   | Some a \<Rightarrow> (case objects r a of Some g \<Rightarrow> Some (a, g) | None \<Rightarrow> None))"

definition put_group :: "registry \<Rightarrow> nat \<Rightarrow> Group \<Rightarrow> registry" where
  "put_group r a g = r\<lparr>objects := (objects r)(a \<mapsto> g)\<rparr>"

definition server_Get ::
  "('p, 'e) world \<Rightarrow> registry \<Rightarrow> string \<Rightarrow> string \<Rightarrow> (registry \<times> ('e server_error + string) \<times> 'p rpc list) option" where
  "server_Get W r name key = (case group_of r name of
     None \<Rightarrow> Some (r, Inl (GroupNotFound name), [])
   | Some (a, g) \<Rightarrow> do {
       (g, view, sent) \<leftarrow> group_Get W g key;
       Some (put_group r a g, case view of Inl e \<Rightarrow> Inl (GroupError e) | Inr v \<Rightarrow> Inr (ByteSLice v), sent) })"

definition server_Set ::
  "('p, 'e) world \<Rightarrow> metadata option \<Rightarrow> registry \<Rightarrow> string \<Rightarrow> string \<Rightarrow> string \<Rightarrow> (registry \<times> ('e server_error + string)) option" where
  "server_Set W md r name key value =
     (let ctx = decorateContext md Background
      in case group_of r name of
           None \<Rightarrow> Some (r, Inl (GroupNotFound name))
         | Some (a, g) \<Rightarrow> do {
             (g, err) \<leftarrow> group_Set W ctx g key value;
             Some (put_group r a g, case err of Some e \<Rightarrow> Inl (GroupError e) | None \<Rightarrow> Inr value) })"

text \<open>\<open>Delete\<close> returns a response in both cases: whether the deletion succeeded, and its error.\<close>

definition server_Delete ::
  "('p, 'e) world \<Rightarrow> metadata option \<Rightarrow> registry \<Rightarrow> string \<Rightarrow> string \<Rightarrow> (registry \<times> bool \<times> 'e server_error option) option" where
  "server_Delete W md r name key =
     (let ctx = decorateContext md Background
      in case group_of r name of
           None \<Rightarrow> Some (r, False, Some (GroupNotFound name))
         | Some (a, g) \<Rightarrow> do {
             (g, err) \<leftarrow> group_Delete W ctx g key;
             Some (put_group r a g, err = None, map_option GroupError err) })"

text \<open>What a call of a client does at the server that it reaches (\<open>Client.Get\<close>, \<open>Client.Set\<close>,
  \<open>Client.Delete\<close>, each through the handler of its name).\<close>

definition deliver :: "('p, 'e) world \<Rightarrow> registry \<Rightarrow> 'q rpc \<Rightarrow> registry option" where
  "deliver W r c = (case c of
     RpcGet _ name key \<Rightarrow> map_option fst (server_Get W r name key)
   | RpcSet _ ctx name key value \<Rightarrow> map_option fst (server_Set W (Some (propagateContext ctx)) r name key value)
   | RpcDelete _ ctx name key \<Rightarrow> map_option fst (server_Delete W (Some (propagateContext ctx)) r name key))"

section \<open>Server options\<close>

record ServerOptions =
  EtcdEndpoints :: "string list"
  DialTimeout :: int
  MaxMsgSize :: int
  TLS :: bool
  CertFile :: string
  KeyFile :: string
  CORSAllowedOrigins :: "string list"

type_synonym ServerOption = "ServerOptions \<Rightarrow> ServerOptions"

definition DefaultServerOptions :: ServerOptions where
  "DefaultServerOptions = \<lparr>EtcdEndpoints = [''localhost:2379''], DialTimeout = 5 * 1000000000,
     MaxMsgSize = 4 * 2 ^ 20, TLS = False, CertFile = [], KeyFile = [], CORSAllowedOrigins = []\<rparr>"

definition WithEtcdEndpoints :: "string list \<Rightarrow> ServerOption" where
  "WithEtcdEndpoints endpoints = (\<lambda>opts. opts\<lparr>EtcdEndpoints := endpoints\<rparr>)"

definition WithDialTimeout :: "int \<Rightarrow> ServerOption" where
  "WithDialTimeout timeout = (\<lambda>opts. opts\<lparr>DialTimeout := timeout\<rparr>)"

definition WithTLS :: "string \<Rightarrow> string \<Rightarrow> ServerOption" where
  "WithTLS certFile keyFile = (\<lambda>opts. opts\<lparr>TLS := True, CertFile := certFile, KeyFile := keyFile\<rparr>)"

definition WithCORS :: "string list \<Rightarrow> ServerOption" where
  "WithCORS allowedOrigins = (\<lambda>opts. opts\<lparr>CORSAllowedOrigins := allowedOrigins\<rparr>)"

record Server =
  s_addr :: string
  s_svcName :: string
  s_opts :: ServerOptions
  s_stopped :: bool

datatype server_init_error = EtcdFailed | TLSFailed

text \<open>\<open>NewServer\<close> writes its options into the shared \<open>DefaultServerOptions\<close>, the state \<open>defaults\<close>. A
  server keeps a pointer to it; \<open>s_opts\<close> is its content now. \<open>s_stopped\<close>: \<open>stopCh\<close> is closed. \<open>etcd\<close> and \<open>certs\<close> say whether the
  etcd client and the certificates can be had.\<close>

definition loadTLSCredentials :: "(string \<Rightarrow> string \<Rightarrow> 'c option) \<Rightarrow> string \<Rightarrow> string \<Rightarrow> 'c list option" where
  "loadTLSCredentials LoadX509KeyPair certFile keyFile = (case LoadX509KeyPair certFile keyFile of
     None \<Rightarrow> None
   | Some cert \<Rightarrow> Some [cert])"

definition NewServer ::
  "etcd_client \<Rightarrow> (string \<Rightarrow> string \<Rightarrow> 'c option) \<Rightarrow> ServerOptions \<Rightarrow> string \<Rightarrow> string \<Rightarrow> ServerOption list \<Rightarrow>
   ServerOptions \<times> (server_init_error + Server)" where
  "NewServer etcd certs defaults addr svcName' opts =
     (let options = fold (\<lambda>opt o'. opt o') opts defaults
      in (options,
          if \<not> etcd (EtcdEndpoints options) (DialTimeout options) then Inl EtcdFailed
          else if TLS options \<and> loadTLSCredentials certs (CertFile options) (KeyFile options) = None then Inl TLSFailed
          else Inr \<lparr>s_addr = addr, s_svcName = svcName', s_opts = options, s_stopped = False\<rparr>))"

section \<open>The CORS interceptor\<close>

text \<open>\<open>strings.TrimSpace\<close>, for the white space of ASCII.\<close>

definition is_space :: "char \<Rightarrow> bool" where
  "is_space ch = (of_char ch \<in> {9, 10, 11, 12, 13, 32 :: int})"

definition TrimSpace :: "string \<Rightarrow> string" where
  "TrimSpace s = rev (dropWhile is_space (rev (dropWhile is_space s)))"

definition allowed_set :: "string list \<Rightarrow> (string, bool) gomap" where
  "allowed_set allowedOrigins = fold (\<lambda>o' m. AList.update (TrimSpace o') True m) allowedOrigins []"

definition request_origin :: "metadata option \<Rightarrow> string" where
  "request_origin md = (case md of
     None \<Rightarrow> ''*''
   | Some md \<Rightarrow> (let vals = md_Get md ''origin'' in if length vals > 0 then vals ! 0 else ''*''))"

definition allow_origin :: "string list \<Rightarrow> metadata option \<Rightarrow> string" where
  "allow_origin allowedOrigins md =
     (if length allowedOrigins = 0 then ''*''
      else (let origin = request_origin md
            in if map_of (allowed_set allowedOrigins) origin = Some True then origin else allowedOrigins ! 0))"

definition cors_headers :: "string list \<Rightarrow> metadata option \<Rightarrow> metadata" where
  "cors_headers allowedOrigins md =
     [(''access-control-allow-origin'', allow_origin allowedOrigins md),
      (''access-control-allow-methods'', ''POST, OPTIONS''),
      (''access-control-allow-headers'', ''content-type, x-grpc-web, x-user-agent, x-grpc-timeout, grpc-timeout, authorization, x-requested-with''),
      (''access-control-expose-headers'', ''grpc-status, grpc-message, grpc-status-details''),
      (''access-control-allow-credentials'', ''true''),
      (''access-control-max-age'', ''86400'')]"

text \<open>The interceptor: the headers it sets, and the handler's result unless the request is a
  preflight, which is answered with an empty response.\<close>

definition corsInterceptor :: "string list \<Rightarrow> metadata option \<Rightarrow> ('s \<Rightarrow> 's \<times> 'r) \<Rightarrow> 's \<Rightarrow> metadata \<times> 's \<times> 'r option" where
  "corsInterceptor allowedOrigins md handler s =
     (let headers = cors_headers allowedOrigins md;
          preflight = (case md of
            None \<Rightarrow> False
          | Some md \<Rightarrow> (let vals = md_Get md '':method'' in length vals > 0 \<and> vals ! 0 = ''OPTIONS''))
      in if preflight then (headers, s, None)
         else (let (s, r) = handler s in (headers, s, Some r)))"

section \<open>Registration in etcd\<close>

datatype register_error = NoEtcd | NoLocalIP | NoLease | PutFailed | KeepAliveFailed

text \<open>An address of a network interface, as \<open>getLocalIP\<close> looks at it.\<close>

record net_addr =
  is_ipnet :: bool
  is_loopback :: bool
  is_v4 :: bool
  ip_string :: string

fun first_ip :: "net_addr list \<Rightarrow> string option" where
  "first_ip [] = None"
| "first_ip (addr # addrs) =
     (if is_ipnet addr \<and> \<not> is_loopback addr then
        (if is_v4 addr then Some (ip_string addr) else first_ip addrs)
      else first_ip addrs)"

definition getLocalIP :: "net_addr list option \<Rightarrow> string option" where
  "getLocalIP interfaces = (case interfaces of None \<Rightarrow> None | Some addrs \<Rightarrow> first_ip addrs)"

record etcd_answers =
  new_etcd :: etcd_client
  interfaces :: "net_addr list option"
  lease_ok :: bool
  put_ok :: bool
  keepalive_ok :: bool

text \<open>The key and the address that \<open>Register\<close> puts, with its errors in their order; an empty
  address panics. The address is put before the lease is kept alive.\<close>

definition Register :: "etcd_answers \<Rightarrow> string \<Rightarrow> string \<Rightarrow> ((string \<times> string) option \<times> register_error option) option" where
  "Register A svcName' addr =
     (if \<not> default_etcd (new_etcd A) then Some (None, Some NoEtcd)
      else (case getLocalIP (interfaces A) of
          None \<Rightarrow> Some (None, Some NoLocalIP)
        | Some localIP \<Rightarrow> do {
            addr \<leftarrow> register_addr localIP addr;
            if \<not> lease_ok A then Some (None, Some NoLease)
            else if \<not> put_ok A then Some (None, Some PutFailed)
            else Some (Some (service_key svcName' addr, addr), if keepalive_ok A then None else Some KeepAliveFailed) }))"

text \<open>The goroutine that keeps the lease: what it does after the messages of its two channels so far.\<close>

datatype lease_message = StopSignal | Renewed | KeepAliveClosed

datatype lease_state = Renewing | Revoked | Abandoned

fun lease_loop :: "lease_message list \<Rightarrow> lease_state" where
  "lease_loop [] = Renewing"
| "lease_loop (StopSignal # _) = Revoked"
| "lease_loop (KeepAliveClosed # _) = Abandoned"
| "lease_loop (Renewed # msgs) = lease_loop msgs"

section \<open>Starting\<close>

datatype 'e start_error = ListenFailed | ServeFailed 'e

text \<open>\<open>Start\<close>: \<open>listens\<close> says whether the port can be opened, \<open>serve\<close> is what serving it ends with. The
  registration runs beside the serving, and its error is only logged; its panic ends the process.\<close>

definition server_Start ::
  "bool \<Rightarrow> 'e option \<Rightarrow> etcd_answers \<Rightarrow> Server \<Rightarrow>
   (((string \<times> string) option \<times> register_error option) option \<times> 'e start_error option) option" where
  "server_Start listens serve A s =
     (if \<not> listens then Some (None, Some ListenFailed)
      else do {
        registered \<leftarrow> Register A (s_svcName s) (s_addr s);
        Some (Some registered, map_option ServeFailed serve) })"

section \<open>Shutting down\<close>

text \<open>\<open>Stop\<close> closes \<open>stopCh\<close>, and closing it again panics.\<close>

definition server_Stop :: "Server \<Rightarrow> Server option" where
  "server_Stop s = (if s_stopped s then None else Some (s\<lparr>s_stopped := True\<rparr>))"

text \<open>\<open>Client.Close\<close>: whether the connection, which \<open>NewClient\<close> always sets, closes without an error.\<close>

definition client_Close :: "(string \<Rightarrow> bool) \<Rightarrow> Client \<Rightarrow> bool" where
  "client_Close closes c = closes (c_addr c)"

text \<open>\<open>ClientPicker.Close\<close>: the addresses whose clients could not be closed, and whether etcd's could
  not; \<open>None\<close> when there is no error.\<close>

definition picker_Close :: "(string \<Rightarrow> bool) \<Rightarrow> bool \<Rightarrow> (string list \<Rightarrow> string list) \<Rightarrow> ClientPicker \<Rightarrow> (string list \<times> bool) option" where
  "picker_Close closes etcd_closes ord p =
     (let errs = fold (\<lambda>addr errs. case map_of (clients p) addr of
            Some client \<Rightarrow> if \<not> client_Close closes client then errs @ [addr] else errs
          | None \<Rightarrow> errs) (ord (map fst (clients p))) []
      in if length errs > 0 \<or> \<not> etcd_closes then Some (errs, \<not> etcd_closes) else None)"

text \<open>\<open>GracefulShutdown\<close>: the calls of the migration, then \<open>Stop\<close>. Closing the picker after that
  changes no modelled state, and its error is dropped.\<close>

definition GracefulShutdown ::
  "(Client, 'e) world \<Rightarrow> (string list \<Rightarrow> string list) \<Rightarrow> ClientPicker option \<Rightarrow> registry \<Rightarrow> Server \<Rightarrow>
   (Server \<times> Client rpc list) option" where
  "GracefulShutdown W ord picker' r s = do {
     sent \<leftarrow> (case picker' of Some p \<Rightarrow> MigrateDataAway W ord p r | None \<Rightarrow> Some []);
     s \<leftarrow> server_Stop s;
     Some (s, sent) }"

end
