(* ===== verification/RpcProps.thy ===== *)
theory RpcProps
  imports Rpc
begin

text \<open>
  The properties of the calls between nodes: marks survive the way through metadata, a write is
  passed on at most once, what the handlers answer, the CORS headers, and the consequences of
  how nodes find each other.
\<close>

section \<open>Marks\<close>

lemma decorate_propagate: "decorateContext (Some (propagateContext ctx)) Background = ctx"
  by (cases ctx; cases "from_peer ctx"; cases "from_migration ctx")
    (simp_all add: decorateContext_def propagateContext_def md_Get_def Background_def Let_def)

text \<open>C40: The marks of a context survive the way from client to server: decoding what propagateContext has
  encoded gives the same marks, a call without metadata has none, and in any metadata a mark is
  set exactly when the first value of its key is "true".\<close>
theorem context_roundtrip:
  "decorateContext (Some (propagateContext ctx)) Background = ctx \<and>
   decorateContext None Background = Background \<and>
   from_peer (decorateContext (Some md) Background) = (\<exists>vs. md_Get md ''from-peer'' = ''true'' # vs) \<and>
   from_migration (decorateContext (Some md) Background) = (\<exists>vs. md_Get md ''from-migration'' = ''true'' # vs)"
proof (intro conjI)
  have first: "(length vals > 0 \<and> vals ! 0 = v) = (\<exists>vs. vals = v # vs)" for vals :: "string list" and v
    by (cases vals) auto
  show "decorateContext (Some (propagateContext ctx)) Background = ctx" by (rule decorate_propagate)
  show "decorateContext None Background = Background" by (simp add: decorateContext_def)
  show "from_peer (decorateContext (Some md) Background) = (\<exists>vs. md_Get md ''from-peer'' = ''true'' # vs)"
    "from_migration (decorateContext (Some md) Background) = (\<exists>vs. md_Get md ''from-migration'' = ''true'' # vs)"
    unfolding decorateContext_def option.case Let_def first by (auto simp: Background_def)
qed

section \<open>Handlers\<close>

lemma group_of_value:
  assumes "registry_inv r"
  shows "group_of r name = (case GetGroup r name of None \<Rightarrow> None | Some a \<Rightarrow> map_option (Pair a) (objects r a))"
    and "group_of r name = Some (a, g) \<Longrightarrow> objects r a = Some g \<and> group_inv g"
proof -
  show "group_of r name = (case GetGroup r name of None \<Rightarrow> None | Some a \<Rightarrow> map_option (Pair a) (objects r a))"
    by (simp add: group_of_def split: option.split)
  show "group_of r name = Some (a, g) \<Longrightarrow> objects r a = Some g \<and> group_inv g"
    using assms by (auto simp: group_of_def registry_inv_def split: option.splits)
qed

text \<open>The queues of the groups are as they were.\<close>

definition same_queues :: "registry \<Rightarrow> registry \<Rightarrow> bool" where
  "same_queues r r' \<longleftrightarrow> (\<forall>a. map_option syncTasks (objects r' a) = map_option syncTasks (objects r a))"

lemma same_queues_put:
  "objects r a = Some g \<Longrightarrow> syncTasks g' = syncTasks g \<Longrightarrow> same_queues r (put_group r a g')"
  by (simp add: same_queues_def put_group_def)

lemma marked_Set:
  assumes "group_inv g" and "world_ok W" and "from_peer ctx \<or> from_migration ctx"
  shows "\<exists>g' e. group_Set W ctx g key value = Some (g', e) \<and> syncTasks g' = syncTasks g"
proof -
  obtain g' e where s: "group_Set W ctx g key value = Some (g', e)" "e \<noteq> None \<longrightarrow> g' = g"
    using group_Set_law [OF assms(1,2), of ctx key "value"] by blast
  show ?thesis
  proof (cases e)
    case None
    then show ?thesis using s(1) assms(3) group_Set_keep [of W ctx g key "value" g'] keep_law [OF assms(1,2), of key "ByteView value"] by auto
  next
    case (Some x)
    then show ?thesis using s by auto
  qed
qed

lemma marked_Delete:
  assumes "group_inv g" and "world_ok W" and "from_peer ctx \<or> from_migration ctx"
  shows "\<exists>g' e. group_Delete W ctx g key = Some (g', e) \<and> syncTasks g' = syncTasks g"
proof -
  obtain g' e where d: "group_Delete W ctx g key = Some (g', e)"
    using group_Delete_law [OF assms(1,2), of ctx key] by blast
  then have "syncTasks g' = syncTasks g"
    using assms(3) by (auto simp: group_Delete_def bind_eq_Some_conv Let_def split: if_split_asm)
  with d show ?thesis by blast
qed

text \<open>The writes that nodes send to each other: by their workers, by migration away, and by migration
  to a new node.\<close>

inductive node_sends :: "Client rpc \<Rightarrow> bool" where
  by_worker: "processSyncTask (V :: (Client, string) world) g task = Some sent \<Longrightarrow> c \<in> set sent \<Longrightarrow> node_sends c"
| by_away: "MigrateDataAway (V :: (Client, string) world) ord p r = Some sent \<Longrightarrow> reg_reach r \<Longrightarrow> world_ok V \<Longrightarrow>
    visits ord \<Longrightarrow> c \<in> set sent \<Longrightarrow> node_sends c"
| by_join: "migrate_keys (V :: (Client, string) world) accepts p target a g name ks [] [] = Some (sent, n, m) \<Longrightarrow>
    group_inv g \<Longrightarrow> world_ok V \<Longrightarrow> c \<in> set sent \<Longrightarrow> node_sends c"

definition marked_write :: "Client rpc \<Rightarrow> bool" where
  "marked_write c = (case c of
     RpcGet _ _ _ \<Rightarrow> False
   | RpcSet _ ctx _ _ _ \<Rightarrow> from_peer ctx \<or> from_migration ctx
   | RpcDelete _ ctx _ _ \<Rightarrow> from_peer ctx \<or> from_migration ctx)"

lemma marked_write_simps [simp]:
  "marked_write (RpcSet q peer_ctx n k v)" "marked_write (RpcDelete q peer_ctx n k)"
  "marked_write (RpcSet q migration_ctx n k v)"
  by (simp_all add: marked_write_def peer_ctx_def migration_ctx_def)

lemma away_calls_marked: "c \<in> away_calls V p name g \<Longrightarrow> marked_write c"
  by (auto simp: away_calls_def)

lemma worker_marked: "processSyncTask V g task = Some sent \<Longrightarrow> c \<in> set sent \<Longrightarrow> marked_write c"
  by (drule sends_marked, drule (1) bspec, elim disjE exE) simp_all

lemma away_marked:
  assumes "registry_inv r" and "world_ok V" and "visits ord"
    and s: "migrate_away V ord p r names = Some sent" and c: "c \<in> set sent"
  shows "marked_write c"
proof -
  have "set sent = (\<Union>{away_calls V p name g | name a g. name \<in> set names \<and> GetGroup r name = Some a \<and> objects r a = Some g})"
    using migrate_away_value [OF assms(1-3), of p names] unfolding s option.inject by (elim exE conjE) simp
  with c have "c \<in> (\<Union>{away_calls V p name g | name a g. name \<in> set names \<and> GetGroup r name = Some a \<and> objects r a = Some g})"
    by simp
  then show ?thesis
    by (elim UnionE CollectE exE conjE) (simp add: away_calls_marked)
qed

lemma join_marked:
  assumes "group_inv g" and "world_ok V" and s: "migrate_keys V accepts p target a g name ks [] [] = Some (sent, n, m)"
    and c: "c \<in> set sent"
  shows "marked_write c"
proof -
  have "sent = map (migrate_call target name) (migrated V p a g ks)"
    using migrate_keys_value [OF assms(1,2), of "[]" "[]" accepts p target a name ks] unfolding s by simp
  then show ?thesis using c by auto
qed

lemma node_sends_marked: "node_sends c \<Longrightarrow> marked_write c"
proof (induction rule: node_sends.induct)
  case (by_worker V g task sent c)
  then show ?case by (rule worker_marked)
next
  case (by_away V ord p r sent c)
  show ?case
    by (rule away_marked [OF reg_reach_inv [OF by_away(2)] by_away(3,4) _ by_away(5)])
      (use by_away(1) in \<open>simp add: MigrateDataAway_def\<close>)
next
  case (by_join V accepts p target a g name ks sent n m c)
  show ?case by (rule join_marked [OF by_join(2,3,1,4)])
qed

text \<open>C12: A write travels one hop only: every write that a node sends to another, by a worker or by a
  migration, is handled by a server in any reachable state without adding a task to any of its
  queues, so nodes that pass writes to each other never start a loop.\<close>
theorem no_write_loop:
  assumes "reg_reach r" and "world_ok W" and "node_sends c"
  shows "\<exists>r'. deliver W r c = Some r' \<and> same_queues r r'"
proof -
  have inv: "registry_inv r" by (rule reg_reach_inv [OF assms(1)])
  have m: "marked_write c" by (rule node_sends_marked [OF assms(3)])
  show ?thesis
  proof (cases c)
    case (RpcGet q n k)
    with m show ?thesis by (simp add: marked_write_def)
  next
    case c: (RpcSet q ctx n k v)
    show ?thesis
    proof (cases "group_of r n")
      case None
      then show ?thesis by (simp add: deliver_def c server_Set_def same_queues_def Let_def)
    next
      case (Some ag)
      obtain a h where ag: "group_of r n = Some (a, h)" using Some by (cases ag) auto
      note h = group_of_value(2) [OF inv ag]
      obtain h' e where "group_Set W ctx h k v = Some (h', e)" "syncTasks h' = syncTasks h"
        using marked_Set [of h W ctx k v] h assms(2) m c by (auto simp: marked_write_def)
      with ag h same_queues_put [of r a h h'] show ?thesis
        by (simp add: deliver_def c server_Set_def decorate_propagate Let_def)
    qed
  next
    case c: (RpcDelete q ctx n k)
    show ?thesis
    proof (cases "group_of r n")
      case None
      then show ?thesis by (simp add: deliver_def c server_Delete_def same_queues_def Let_def)
    next
      case (Some ag)
      obtain a h where ag: "group_of r n = Some (a, h)" using Some by (cases ag) auto
      note h = group_of_value(2) [OF inv ag]
      obtain h' e where "group_Delete W ctx h k = Some (h', e)" "syncTasks h' = syncTasks h"
        using marked_Delete [of h W ctx k] h assms(2) m c by (auto simp: marked_write_def)
      with ag h same_queues_put [of r a h h'] show ?thesis
        by (simp add: deliver_def c server_Delete_def decorate_propagate Let_def)
    qed
  qed
qed

definition node_a :: Client where
  "node_a = \<lparr>c_addr = ''a'', c_svcName = defaultSvcName\<rparr>"

lemma broadcast_sends:
  "processSyncTask (wset\<lparr>picker := \<lparr>PickPeer = (\<lambda>_. (None, False, False)), PickPeerWithFallback = None, GetAllPeers = Some [node_a]\<rparr>\<rparr>)
     (make_group ''g'' 100 [WithPeers True]) \<lparr>t_op = ''broadcast_delete'', t_key = ''k'', t_value = []\<rparr> =
   Some [RpcDelete node_a peer_ctx ''g'' ''k'']"
  by (simp add: processSyncTask_def broadcastDelete_def make_group_def WithPeers_def)

theorem no_write_loop_witness:
  "\<exists>r'. deliver wset reg1 (RpcDelete node_a peer_ctx ''g'' ''k'') = Some r' \<and> same_queues reg1 r'"
  by (rule no_write_loop [OF reg1_reach wset_ok], rule by_worker [OF broadcast_sends]) simp

section \<open>What the handlers answer\<close>

lemma registered_group:
  assumes "reg_reach r"
  shows "GetGroup r name = Some a \<Longrightarrow> \<exists>g. group_of r name = Some (a, g) \<and> objects r a = Some g \<and> g_name g = name \<and>
      \<not> g_closed g \<and> group_inv g \<and> put_group r a g = r"
    and "GetGroup r name = None \<Longrightarrow> group_of r name = None"
proof -
  have inv: "registry_inv r" by (rule reg_reach_inv [OF assms])
  show "GetGroup r name = None \<Longrightarrow> group_of r name = None" by (simp add: group_of_def)
  assume a: "GetGroup r name = Some a"
  then obtain g where g: "objects r a = Some g" "g_name g = name" "\<not> g_closed g"
    using inv by (fastforce simp: registry_inv_def GetGroup_def)
  moreover have "group_inv g" using inv g(1) by (auto simp: registry_inv_def)
  moreover have "put_group r a g = r" using g(1) by (simp add: put_group_def fun_upd_idem)
  ultimately show "\<exists>g. group_of r name = Some (a, g) \<and> objects r a = Some g \<and> g_name g = name \<and>
      \<not> g_closed g \<and> group_inv g \<and> put_group r a g = r" using a by (simp add: group_of_def)
qed

lemma open_Delete:
  assumes "group_inv g" and "world_ok W" and "\<not> g_closed g" and "key \<noteq> []"
  shows "\<exists>g'. group_Delete W ctx g key = Some (g', None) \<and> group_inv g' \<and> group_can g' key = {}"
proof -
  obtain g' e where d: "group_Delete W ctx g key = Some (g', e)" "group_inv g'"
    "e = None \<longrightarrow> (\<forall>k. group_can g' k \<subseteq> remember (DelOp key) (group_can g) k)"
    using group_Delete_law [OF assms(1,2), of ctx key] by blast
  have "e = None" using d(1) assms(3,4) by (auto simp: group_Delete_def bind_eq_Some_conv Let_def)
  with d have "group_can g' key \<subseteq> {}" using spec [of _ key] by fastforce
  with d \<open>e = None\<close> show ?thesis by blast
qed

text \<open>The answers of the handlers in every reachable registry: a request for a group that is not
  registered, or without a key, or a Set without a value, is refused and changes nothing; every
  other Set is accepted and echoes the value, and every other Delete succeeds.\<close>
theorem server_answers:
  assumes "reg_reach r" and "world_ok W"
  shows "(GetGroup r name = None \<longrightarrow>
      server_Get W r name key = Some (r, Inl (GroupNotFound name), []) \<and>
      server_Set W md r name key value = Some (r, Inl (GroupNotFound name)) \<and>
      server_Delete W md r name key = Some (r, False, Some (GroupNotFound name))) \<and>
    (GetGroup r name \<noteq> None \<longrightarrow>
      server_Get W r name [] = Some (r, Inl (GroupError ErrKeyRequired), []) \<and>
      server_Set W md r name [] value = Some (r, Inl (GroupError ErrKeyRequired)) \<and>
      server_Delete W md r name [] = Some (r, False, Some (GroupError ErrKeyRequired)) \<and>
      (key \<noteq> [] \<longrightarrow> server_Set W md r name key [] = Some (r, Inl (GroupError ErrValueRequired))) \<and>
      (key \<noteq> [] \<and> value \<noteq> [] \<longrightarrow> (\<exists>r'. server_Set W md r name key value = Some (r', Inr value))) \<and>
      (key \<noteq> [] \<longrightarrow> (\<exists>r'. server_Delete W md r name key = Some (r', True, None))))"
proof (intro conjI impI)
  assume n: "GetGroup r name = None"
  note none = registered_group(2) [OF assms(1) n]
  show "server_Get W r name key = Some (r, Inl (GroupNotFound name), [])" by (simp add: server_Get_def none)
  show "server_Set W md r name key value = Some (r, Inl (GroupNotFound name))" by (simp add: server_Set_def none Let_def)
  show "server_Delete W md r name key = Some (r, False, Some (GroupNotFound name))" by (simp add: server_Delete_def none Let_def)
next
  assume "GetGroup r name \<noteq> None"
  then obtain a where "GetGroup r name = Some a" by blast
  from registered_group(1) [OF assms(1) this] obtain g where g: "group_of r name = Some (a, g)" "\<not> g_closed g" "group_inv g"
    "put_group r a g = r" by blast
  show "server_Get W r name [] = Some (r, Inl (GroupError ErrKeyRequired), [])"
    using g by (simp add: server_Get_def group_Get_def group_lookup_def)
  show "server_Set W md r name [] value = Some (r, Inl (GroupError ErrKeyRequired))"
    using g by (simp add: server_Set_def group_Set_def Let_def)
  show "server_Delete W md r name [] = Some (r, False, Some (GroupError ErrKeyRequired))"
    using g by (simp add: server_Delete_def group_Delete_def Let_def)
  show "server_Set W md r name key [] = Some (r, Inl (GroupError ErrValueRequired))" if "key \<noteq> []"
    using g that by (simp add: server_Set_def group_Set_def Let_def)
  show "\<exists>r'. server_Set W md r name key value = Some (r', Inr value)" if "key \<noteq> [] \<and> value \<noteq> []"
    using g that keep_law [OF g(3) assms(2), of key "ByteView value"]
    by (auto simp: server_Set_def group_Set_def Let_def)
  show "\<exists>r'. server_Delete W md r name key = Some (r', True, None)" if "key \<noteq> []"
    using g(1) open_Delete [OF g(3) assms(2) g(2) that, of "decorateContext md Background"]
    by (auto simp: server_Delete_def Let_def)
qed

theorem server_answers_witness:
  "server_Get wset reg1 ''h'' ''k'' = Some (reg1, Inl (GroupNotFound ''h''), []) \<and>
   (\<exists>r'. server_Set wset None reg1 ''g'' ''k'' ''v'' = Some (r', Inr ''v''))"
proof -
  have "GetGroup reg1 ''h'' = None" "GetGroup reg1 ''g'' \<noteq> None" by (simp_all add: GetGroup_def reg1_def)
  with server_answers [OF reg1_reach wset_ok, of "''h''" "''k''"] server_answers [OF reg1_reach wset_ok, of "''g''" "''k''" None "''v''"]
  show ?thesis by simp
qed

end
