(* ===== verification/ClusterProps.thy ===== *)
theory ClusterProps
  imports RpcProps
begin

text \<open>
  Properties of several nodes together: a write is read back through the handlers, a deletion reaches
  every connected node, a missing key is always asked of another node first; and of the server's
  edge: the CORS headers, the shared default options, and how nodes find each other.
\<close>

section \<open>Reading back through the handlers\<close>

text \<open>C18: A value that a server's Set has accepted for a registered group is what the server's Get returns
  within its lifetime, without a call to any peer, whatever marks the write carried.\<close>
theorem server_Set_Get:
  assumes "reg_reach r" and "GetGroup r name = Some a" and "objects r a = Some g"
    and "world_ok W" and "world_ok W'" and "key \<noteq> []" and "value \<noteq> []"
    and "co_CacheType (copts (mainCache g)) = LRU2"
    and "\<And>S. cstore (mainCache g) = Some S \<Longrightarrow> \<exists>s. S = Lru2Store s"
    and "0 \<le> clock (senv W)" and "0 < lifetime W g" and "clock (senv W) + lifetime W g < 2 ^ 63"
    and "clock' (senv W') < clock (senv W) + lifetime W g"
  shows "\<exists>r1 r2. server_Set W md r name key value = Some (r1, Inr value) \<and>
    server_Get W' r1 name key = Some (r2, Inr value, [])"
proof -
  have g: "group_of r name = Some (a, g)" "\<not> g_closed g" "group_inv g"
    using registered_group(1) [OF assms(1,2)] assms(3) by auto
  obtain g1 g2 where s: "group_Set W (decorateContext md Background) g key value = Some (g1, None)"
    "group_Get W' g1 key = Some (g2, Inr (ByteView value), [])"
    using set_then_get [OF g(3) assms(4,5) g(2) assms(6-13), of "decorateContext md Background"] by blast
  have "group_of (put_group r a g1) name = Some (a, g1)"
    using assms(2) by (simp add: group_of_def put_group_def GetGroup_def)
  with s g(1) show ?thesis by (simp add: server_Set_def server_Get_def Let_def ByteSLice_def)
qed

theorem server_Set_Get_witness:
  "\<exists>r1 r2. server_Set wset None reg1 ''g'' ''k'' ''w'' = Some (r1, Inr ''w'') \<and>
     server_Get wset r1 ''g'' ''k'' = Some (r2, Inr ''w'', [])"
proof (rule server_Set_Get [OF reg1_reach])
  show "GetGroup reg1 ''g'' = Some 0" by (simp add: GetGroup_def reg1_def)
  show "objects reg1 0 = Some (make_group ''g'' 100 [])" by (simp add: reg1_def)
qed (simp_all add: wset_ok, simp_all add: make_group_def NewCache_def DefaultCacheOptions_def lifetime_def wset_def env0_def default_expiration_def)

section \<open>Deletions reach every node\<close>

lemma delivered_Delete:
  assumes "reg_reach r" and "world_ok V" and "GetGroup r name = Some a" and "key \<noteq> []"
  shows "\<exists>r' g'. deliver V r (RpcDelete q ctx name key) = Some r' \<and> objects r' a = Some g' \<and> group_can g' key = {}"
proof -
  from registered_group(1) [OF assms(1,3)] obtain g where g: "group_of r name = Some (a, g)" "\<not> g_closed g" "group_inv g"
    by blast
  from open_Delete [OF g(3) assms(2) g(2) assms(4), of ctx] obtain g' where
    "group_Delete V ctx g key = Some (g', None)" "group_can g' key = {}" by blast
  then show ?thesis using g(1) by (simp add: deliver_def server_Delete_def decorate_propagate Let_def put_group_def)
qed

text \<open>C10: A client's Delete takes the key out of the cache of every connected node: it leaves nothing of
  the key in the node's own group and queues a task (while the queue has room), the task's
  worker calls every client of the picker but the node itself, and each such call, delivered in
  any reachable state of a node that has the group, leaves nothing of the key there.\<close>
theorem Delete_reaches_all:
  assumes "group_inv g" and "world_ok W" and "\<not> g_closed g" and "key \<noteq> []" and "has_peers g"
    and "length (syncTasks g) < 1024" and "picker W = as_picker ord p" and "visits ord"
    and "reg_reach r" and "world_ok V" and "GetGroup r (g_name g) = Some a"
  shows "\<exists>g1 task sent. group_Delete W Background g key = Some (g1, None) \<and> group_can g1 key = {} \<and>
    syncTasks g1 = syncTasks g @ [task] \<and> processSyncTask W g1 task = Some sent \<and>
    set sent = {RpcDelete c peer_ctx (g_name g) key | c. \<exists>d. map_of (clients p) d = Some c \<and> d \<noteq> selfAddr p} \<and>
    (\<forall>call \<in> set sent. \<exists>r' g'. deliver V r call = Some r' \<and> objects r' a = Some g' \<and> group_can g' key = {})"
proof -
  obtain g1 where d: "group_Delete W Background g key = Some (g1, None)" "group_can g1 key = {}"
    using open_Delete [OF assms(1-4), of Background] by blast
  let ?task = "\<lparr>t_op = ''broadcast_delete'', t_key = key, t_value = []\<rparr>"
  let ?sent = "map (\<lambda>peer. RpcDelete peer peer_ctx (g_name g) key) (picker_GetAllPeers ord p)"
  have q: "syncTasks g1 = syncTasks g @ [?task]" "has_peers g1" "g_name g1 = g_name g"
    using d(1) assms(3-6)
    by (auto simp: group_Delete_def bind_eq_Some_conv Let_def Background_def enqueue_def syncChannelBuffer_def)
  then have p: "processSyncTask W g1 ?task = Some ?sent"
    by (simp add: processSyncTask_def broadcastDelete_def assms(7) as_picker_def)
  have "d \<in> set (ord (map fst (clients p)))" if "map_of (clients p) d = Some c" for c d
    using that visits_set [OF assms(8), of "map fst (clients p)"] by (auto dest!: map_of_SomeD intro: rev_image_eqI)
  then have s: "set ?sent = {RpcDelete c peer_ctx (g_name g) key | c. \<exists>d. map_of (clients p) d = Some c \<and> d \<noteq> selfAddr p}"
    unfolding set_map all_peers_set by blast
  have "\<exists>r' g'. deliver V r call = Some r' \<and> objects r' a = Some g' \<and> group_can g' key = {}" if "call \<in> set ?sent" for call
    using that delivered_Delete [OF assms(9-11,4)] by auto
  then show ?thesis using d q(1) p s by blast
qed

theorem Delete_reaches_all_witness:
  "\<exists>g1 task sent. group_Delete wset Background (make_group ''g'' 100 [WithPeers True]) ''k'' = Some (g1, None) \<and>
     syncTasks g1 = [task] \<and> processSyncTask wset g1 task = Some sent \<and>
     RpcDelete \<lparr>c_addr = ''a'', c_svcName = defaultSvcName\<rparr> peer_ctx ''g'' ''k'' \<in> set sent"
proof -
  let ?g = "make_group ''g'' 100 [WithPeers True]"
  have inv: "group_inv ?g" by (rule make_group_inv(1)) (simp add: option_ok_cases)
  have f: "\<not> g_closed ?g" "has_peers ?g" "syncTasks ?g = []" "g_name ?g = ''g''" "length (syncTasks ?g) < 1024"
    by (simp_all add: make_group_def WithPeers_def)
  have w: "picker wset = as_picker id picker2" by (simp add: wset_def)
  have v: "visits id" using visits_id by (simp add: id_def)
  have r: "GetGroup reg1 (g_name ?g) = Some 0" by (simp add: f GetGroup_def reg1_def)
  have k: "''k'' \<noteq> []" by simp
  have c: "map_of (clients picker2) ''a'' = Some \<lparr>c_addr = ''a'', c_svcName = defaultSvcName\<rparr>" "''a'' \<noteq> selfAddr picker2"
    by (simp_all add: picker2_def)
  from Delete_reaches_all [OF inv wset_ok f(1) k f(2,5) w v reg1_reach wset_ok r] obtain g1 task sent where
    "group_Delete wset Background ?g ''k'' = Some (g1, None)" "syncTasks g1 = [task]" "processSyncTask wset g1 task = Some sent"
    "set sent = {RpcDelete c peer_ctx ''g'' ''k'' | c. \<exists>d. map_of (clients picker2) d = Some c \<and> d \<noteq> selfAddr picker2}"
    unfolding f by auto
  with c show ?thesis by blast
qed

section \<open>A missing key is asked of another node first\<close>

lemma healthy_in_nodes:
  assumes ok: "ring_ok m" and key: "key \<noteq> []" and x: "x \<in> nodes_of m" "IsHealthy m x"
  shows "snd (GetHealthy m key) \<in> nodes_of m"
proof -
  have h: "\<not> unhealthy m x" using x(2) by (simp add: IsHealthy_def)
  let ?hs = "filter (\<lambda>x. \<not> unhealthy m x) (circle m key)"
  have "x \<in> set ?hs" using set_circle [OF ok, of key] x(1) h by simp
  then have "hd ?hs \<in> set ?hs" by (metis empty_iff hd_in_set list.set(1))
  then show ?thesis using GetHealthy_found [OF ok key x(1) h] set_circle [OF ok, of key] by simp
qed

text \<open>With a picker that knows a healthy node, every load of a key asks another node before the data
  source, whichever node the key belongs to: the first candidate is the first healthy node
  clockwise from the key, never the node itself. Two nodes that know each other therefore each
  ask the other.\<close>
theorem load_asks_remote:
  assumes "picker_wf p" and "picker W = as_picker ord p" and "has_peers g" and "key \<noteq> []"
    and "x \<in> nodes_of (consHash p)" and "IsHealthy (consHash p) x"
  shows "\<exists>c cs. candidates W g key = c # cs \<and> length cs \<le> 1 \<and> c_addr c = snd (GetHealthy (consHash p) key) \<and>
    c_addr c \<noteq> selfAddr p \<and> (\<exists>rest. asked W g key = c # rest)"
proof -
  have ne: "{x \<in> nodes_of (consHash p). IsHealthy (consHash p) x} \<noteq> {}" using assms(5,6) by blast
  from fallback_facts [OF assms(1,4)] obtain pr re where
    "picker_PickPeerWithFallback p key = (pr, re, {x \<in> nodes_of (consHash p). IsHealthy (consHash p) x} \<noteq> {}, False)"
    "map_option c_addr pr = (if {x \<in> nodes_of (consHash p). IsHealthy (consHash p) x} = {} then None
      else Some (snd (GetHealthy (consHash p) key)))" by (elim exE conjE) (rule that)
  with ne have pick: "picker_PickPeerWithFallback p key = (pr, re, True, False)"
    "map_option c_addr pr = Some (snd (GetHealthy (consHash p) key))" by simp_all
  then obtain c where c: "pr = Some c" "c_addr c = snd (GetHealthy (consHash p) key)" by (cases pr) auto
  have "c_addr c \<noteq> selfAddr p"
  proof -
    have "snd (GetHealthy (consHash p) key) \<in> nodes_of (consHash p)"
      using healthy_in_nodes [OF _ assms(4-6)] assms(1) by (simp add: picker_wf_def)
    then show ?thesis using c(2) assms(1) by (auto simp: picker_wf_def)
  qed
  moreover have cand: "candidates W g key = c # List.map_filter id [re]"
    using assms(2,3) pick(1) c(1) by (simp add: candidates_def as_picker_def List.map_filter_def)
  moreover have "length (List.map_filter id [re]) \<le> 1" by (cases re) (simp_all add: List.map_filter_def)
  moreover have "\<exists>rest. asked W g key = c # rest" using cand by (simp add: asked_def)
  ultimately show ?thesis using c(2) by blast
qed

theorem load_asks_remote_witness:
  "\<exists>c cs. candidates wset (make_group ''g'' 100 [WithPeers True]) ''key'' = c # cs \<and> c_addr c \<noteq> ''s''"
proof -
  have n: "''a'' \<in> nodes_of (consHash picker2)" using ring2_facts(2) by (simp add: picker2_def)
  have "unhealthyNodes ring2 = []" by code_simp
  then have h: "IsHealthy (consHash picker2) ''a''" by (simp add: picker2_def IsHealthy_def unhealthy_def)
  have w: "picker wset = as_picker id picker2" by (simp add: wset_def)
  have g: "has_peers (make_group ''g'' 100 [WithPeers True])" by (simp add: make_group_def WithPeers_def)
  have "''key'' \<noteq> []" "selfAddr picker2 = ''s''" by (simp_all add: picker2_def)
  with load_asks_remote [OF picker2_wf w g _ n h, of "''key''"] show ?thesis by auto
qed

section \<open>No node calls itself\<close>



section \<open>Finding other nodes\<close>

text \<open>A node that is given its address without a host, as \<open>:8001\<close>, announces it with its IP and then
  discovers itself as another node.\<close>

theorem self_discovered:
  assumes "picker_reach p" and "selfAddr p = '':8001''" and "register_addr ip (selfAddr p) = Some addr"
    and "ip \<noteq> []" and "dials addr" and "handleWatchEvents dials p [(EventTypePut, addr)] = (p', new, leaving)"
  shows "addr = ip @ '':8001'' \<and> (\<exists>c. map_of (clients p') addr = Some c \<and> c_addr c = addr)"
proof -
  have addr: "addr = ip @ '':8001''" using assms(2,3) by (simp add: register_addr_def)
  with assms(2,4) have ne: "addr \<noteq> selfAddr p" by simp
  have inv: "picker_inv p" by (rule picker_reach_inv [OF assms(1)])
  have step: "handle_event dials (EventTypePut, addr) (p, [], []) = (p', new, leaving)"
    using assms(6) by (simp add: handleWatchEvents_def)
  show ?thesis
  proof (cases "map_of (clients p) addr")
    case None
    with step ne assms(5) have "p' = mark_unhealthy (picker_set dials p addr) addr" by (simp add: handle_event_def Let_def)
    then show ?thesis using addr assms(5) inv
      by (auto simp: mark_unhealthy_def picker_set_def NewClient_def picker_inv_def map_of_update)
  next
    case (Some c)
    with step ne have "p' = p" by (simp add: handle_event_def Let_def)
    with Some inv addr show ?thesis by (auto simp: picker_inv_def)
  qed
qed

text \<open>etcd's deletion events carry no value unless the watch asks for the previous one, and this watch
  does not. No deletion event then names a client, so no node is ever seen to leave.\<close>

lemma handle_event_no_leave:
  assumes "(fst ev = EventTypeDelete) = (snd ev = [])" and "map_of (clients p) [] = None" and "map_ok (clients p)"
    and "handle_event dials ev (p, ns, ls) = (p', ns', ls')"
  shows "ls' = ls \<and> dom (map_of (clients p)) \<subseteq> dom (map_of (clients p')) \<and> map_of (clients p') [] = None \<and> map_ok (clients p')"
  using assms
  by (cases ev; cases "fst ev")
    (auto simp: handle_event_def Let_def mark_unhealthy_def picker_set_def NewClient_def map_of_update split: if_split_asm)

theorem leaving_never_handled:
  assumes "\<forall>ev \<in> set events. (fst ev = EventTypeDelete) = (snd ev = [])"
    and "map_of (clients p) [] = None" and "map_ok (clients p)"
    and "handleWatchEvents dials p events = (p', new, leaving)"
  shows "leaving = [] \<and> dom (map_of (clients p)) \<subseteq> dom (map_of (clients p'))"
proof -
  have "fold (handle_event dials) events (p, ns, ls) = (p', new, leaving) \<Longrightarrow>
      leaving = ls \<and> dom (map_of (clients p)) \<subseteq> dom (map_of (clients p'))" for ns ls
    using assms(1-3)
  proof (induction events arbitrary: p ns ls)
    case (Cons ev events)
    obtain q ns1 ls1 where q: "handle_event dials ev (p, ns, ls) = (q, ns1, ls1)" by (cases "handle_event dials ev (p, ns, ls)")
    have e: "(fst ev = EventTypeDelete) = (snd ev = [])" using Cons.prems(2) by simp
    note s = handle_event_no_leave [OF e Cons.prems(3,4) q]
    have "leaving = ls1 \<and> dom (map_of (clients q)) \<subseteq> dom (map_of (clients p'))"
      using Cons.IH [of q ns1 ls1] Cons.prems(1,2) q s by simp
    with s show ?case by blast
  qed simp
  from this [of "[]" "[]"] assms(4) show ?thesis by (simp add: handleWatchEvents_def)
qed

section \<open>From registration to shutdown\<close>

lemma first_ip_value:
  "first_ip addrs = map_option ip_string (find (\<lambda>a. is_ipnet a \<and> \<not> is_loopback a \<and> is_v4 a) addrs)"
  by (induction addrs) auto

lemma add_result:
  assumes "dials addr"
  shows "\<exists>m. picker_set dials p addr = p\<lparr>consHash := m, clients := AList.update addr \<lparr>c_addr = addr, c_svcName = svcName p\<rparr> (clients p)\<rparr>"
  unfolding picker_set_def NewClient_def if_P [OF assms] option.case by (rule exI, rule refl)

text \<open>What a node registers is what others discover: the key that Register puts holds the address it puts,
  and a picker of another node that finds the address gets a client for it and takes it as healthy.\<close>

theorem registered_is_discovered:
  assumes "Register A svc addr = Some (Some (key, a), err)" and "a \<noteq> []" and "a \<noteq> selfAddr p" and "dials a"
  shows "parseAddrFromKey key svc = a \<and>
    (\<exists>p' c. fetchAllServices dials (Some [a]) p = Inr p' \<and> map_of (clients p') a = Some c \<and> c_addr c = a \<and> IsHealthy (consHash p') a)"
proof -
  have k: "key = service_key svc a"
    using assms(1) by (auto simp: Register_def bind_eq_Some_conv split: if_split_asm option.splits)
  obtain m where m: "picker_set dials p a = p\<lparr>consHash := m, clients := AList.update a \<lparr>c_addr = a, c_svcName = svcName p\<rparr> (clients p)\<rparr>"
    using add_result [of dials a p] assms(4) by blast
  have "fetchAllServices dials (Some [a]) p = Inr (mark_healthy (picker_set dials p a) a)"
    using assms(2,3) by (simp add: fetchAllServices_def)
  moreover have "IsHealthy (consHash (mark_healthy (picker_set dials p a) a)) a"
    by (simp add: mark_healthy_def MarkHealthy_def IsHealthy_def unhealthy_def AList.delete_conv)
  moreover have "map_of (clients (mark_healthy (picker_set dials p a) a)) a = Some \<lparr>c_addr = a, c_svcName = svcName p\<rparr>"
    by (simp add: mark_healthy_def m AList.update_conv)
  moreover have "parseAddrFromKey key svc = a" by (simp add: k parseAddrFromKey_def service_key_def has_prefix_def Let_def)
  ultimately show ?thesis by auto
qed

text \<open>The lease ends by being revoked exactly when the stop signal comes before the channel of renewals
  closes.\<close>

theorem lease_revoked:
  "lease_loop msgs = Revoked \<longleftrightarrow> (\<exists>n rest. msgs = replicate n Renewed @ StopSignal # rest)"
proof
  show "lease_loop msgs = Revoked \<Longrightarrow> \<exists>n rest. msgs = replicate n Renewed @ StopSignal # rest"
  proof (induction msgs rule: lease_loop.induct)
    case (2 rest)
    show ?case by (rule exI [of _ 0]) simp
  next
    case (4 msgs)
    then obtain n rest where "msgs = replicate n Renewed @ StopSignal # rest" by auto
    then have "Renewed # msgs = replicate (Suc n) Renewed @ StopSignal # rest" by simp
    then show ?case by blast
  qed simp_all
  show "\<exists>n rest. msgs = replicate n Renewed @ StopSignal # rest \<Longrightarrow> lease_loop msgs = Revoked"
  proof (elim exE)
    fix n rest assume "msgs = replicate n Renewed @ StopSignal # rest"
    then show "lease_loop msgs = Revoked" by (induction n arbitrary: msgs) auto
  qed
qed

text \<open>The address check of Register comes after the port is open: a server without an address listens, and
  the registration then panics.\<close>

theorem Start_without_address:
  assumes "default_etcd (new_etcd A)" and "getLocalIP (interfaces A) = Some ip" and "s_addr s = []"
  shows "server_Start True serve A s = None"
  using assms by (simp add: server_Start_def Register_def register_addr_def)

text \<open>The etcd options of a server do not reach its registration: a node whose etcd runs elsewhere than at
  the default endpoints gets its server, serves, and is never registered.\<close>

theorem registration_ignores_endpoints:
  assumes "eps \<noteq> [''localhost:2379'']" and "\<And>e t. new_etcd A e t \<longleftrightarrow> e = eps"
  shows "\<exists>defaults srv. NewServer (new_etcd A) certs DefaultServerOptions addr svc [WithEtcdEndpoints eps] = (defaults, Inr srv) \<and>
    server_Start True None A srv = Some (Some (None, Some NoEtcd), None)"
  using assms by (simp add: NewServer_def server_Start_def Register_def default_etcd_def registry_DefaultConfig_def
    WithEtcdEndpoints_def DefaultServerOptions_def Let_def)

text \<open>A running server shuts down gracefully once, with exactly the calls of the migration; shutting it
  down or stopping it again panics.\<close>

theorem graceful_shutdown_once:
  assumes "reg_reach r" and "world_ok W" and "visits ord" and "\<not> s_stopped s"
  shows "\<exists>s' sent. GracefulShutdown W ord (Some p) r s = Some (s', sent) \<and> MigrateDataAway W ord p r = Some sent \<and>
    s_stopped s' \<and> server_Stop s' = None \<and> GracefulShutdown W ord (Some p) r s' = None"
proof -
  obtain sent where "migrate_away W ord p r (ord (map fst (groups r))) = Some sent"
    using migrate_away_value [OF reg_reach_inv [OF assms(1)] assms(2,3)] by blast
  then have "MigrateDataAway W ord p r = Some sent" by (simp add: MigrateDataAway_def)
  then show ?thesis using assms(4) by (simp add: GracefulShutdown_def server_Stop_def)
qed

section \<open>The server's edge\<close>

lemma allowed_set_map: "map_of (allowed_set os) o' = Some True \<longleftrightarrow> o' \<in> TrimSpace ` set os"
proof -
  have "map_of (fold (\<lambda>o' m. AList.update (TrimSpace o') True m) os m) x = (if x \<in> TrimSpace ` set os then Some True else map_of m x)" for m x
    by (induction os arbitrary: m) (auto simp: AList.update_conv)
  then show ?thesis by (simp add: allowed_set_def)
qed

text \<open>The origin that the CORS headers allow is "*" when there is no list of origins; otherwise it is the request's origin when that is on the list (without its outer spaces), and the first
  entry of the list when it is not. A preflight request never reaches the handler, every other
  request does, and both get the headers.\<close>
theorem cors_correct:
  "(allow_origin [] md = ''*'') \<and>
   (os \<noteq> [] \<longrightarrow> allow_origin os md =
      (if request_origin md \<in> TrimSpace ` set os then request_origin md else hd os)) \<and>
   (\<forall>h s. corsInterceptor os md h s =
      (if \<exists>m ms. md = Some m \<and> md_Get m '':method'' = ''OPTIONS'' # ms then (cors_headers os md, s, None)
       else (cors_headers os md, fst (h s), Some (snd (h s)))))"
proof (intro conjI allI impI)
  show "allow_origin [] md = ''*''" by (simp add: allow_origin_def)
  assume "os \<noteq> []"
  then show "allow_origin os md = (if request_origin md \<in> TrimSpace ` set os then request_origin md else hd os)"
    by (simp add: allow_origin_def Let_def allowed_set_map hd_conv_nth)
next
  fix h s
  have "(length vals > 0 \<and> vals ! 0 = ''OPTIONS'') = (\<exists>ms. vals = ''OPTIONS'' # ms)" for vals :: "string list"
    by (cases vals) auto
  then show "corsInterceptor os md h s =
      (if \<exists>m ms. md = Some m \<and> md_Get m '':method'' = ''OPTIONS'' # ms then (cors_headers os md, s, None)
       else (cors_headers os md, fst (h s), Some (snd (h s))))"
    by (cases md) (simp_all add: corsInterceptor_def Let_def case_prod_beta)
qed

theorem cors_correct_witness:
  "allow_origin ['' http://a ''] (Some [(''origin'', ''http://a'')]) = ''http://a''"
proof -
  let ?md = "Some [(''origin'', ''http://a'')]" and ?os = "['' http://a '']"
  have "request_origin ?md \<in> TrimSpace ` set ?os" by code_simp
  with cors_correct [of ?md ?os] have "allow_origin ?os ?md = request_origin ?md" by (metis list.distinct(1))
  also have "request_origin ?md = ''http://a''" by code_simp
  finally show ?thesis .
qed

text \<open>The fallback is the first entry as it was given, with its spaces, and never equals a browser's
  origin when it has any.\<close>

theorem cors_fallback_untrimmed:
  "allow_origin ['' http://a ''] (Some [(''origin'', ''http://b'')]) = '' http://a ''"
  by code_simp

text \<open>\<open>NewServer\<close> applies its options to the shared defaults: a second server has the options of the
  first one.\<close>

theorem NewServer_shared_options:
  "\<exists>defaults srv defaults' srv'.
     NewServer (\<lambda>_ _. True) (\<lambda>_ _. Some ()) DefaultServerOptions '':1'' ''s'' [WithTLS ''c'' ''k'', WithCORS [''x'']] = (defaults, Inr srv) \<and>
     NewServer (\<lambda>_ _. True) (\<lambda>_ _. Some ()) defaults '':2'' ''s'' [] = (defaults', Inr srv') \<and>
     TLS (s_opts srv') \<and> CORSAllowedOrigins (s_opts srv') = [''x''] \<and> \<not> TLS DefaultServerOptions"
  by (simp add: NewServer_def loadTLSCredentials_def Let_def WithTLS_def WithCORS_def DefaultServerOptions_def)

end
