(* ===== verification/Flights.thy ===== *)
theory Flights
  imports ClusterProps Singleflight
begin

text \<open>
  Loads that wait for each other across nodes. Every node has its own \<open>singleflight.Group\<close>; the
  function that a load runs asks the node that the picker names first, through \<open>Client.Get\<close>, and
  there a thread of the server calls \<open>Get\<close> and, on a miss, \<open>Do\<close> for the same key. The cluster is the
  state of the nodes' groups (\<open>sf\<close> of \<open>Singleflight\<close>) with the call that each running load waits for.
  What the caches answer is left open: an asked node may find the key (\<open>found\<close>) or load it (\<open>asks\<close>).
\<close>

section \<open>Steps\<close>

record 'r cluster =
  node_sf :: "string \<Rightarrow> 'r sf"
  waits_for :: "string \<times> nat \<Rightarrow> (string \<times> nat) option"

definition cluster_start :: "'r cluster" where
  "cluster_start = \<lparr>node_sf = (\<lambda>_. sf_start), waits_for = (\<lambda>_. None)\<rparr>"

abbreviation set_node :: "string \<Rightarrow> 'r sf \<Rightarrow> 'r cluster \<Rightarrow> 'r cluster" where
  "set_node n s x \<equiv> x\<lparr>node_sf := (node_sf x)(n := s)\<rparr>"

text \<open>The steps while no outstanding call fails; \<open>target\<close> is the node that a load asks first. The
  thread that serves a call is one that was idle.\<close>

inductive quiet :: "(string \<Rightarrow> string \<Rightarrow> string option) \<Rightarrow> 'r cluster \<Rightarrow> 'r cluster \<Rightarrow> bool"
  for target
where
  inside: "local_step (node_sf x n) s' \<Longrightarrow> quiet target x (set_node n s' x)"
| asks: "pcs (node_sf x n) t = Running key c \<Longrightarrow> waits_for x (n, t) = None \<Longrightarrow> target n key = Some m \<Longrightarrow>
    pcs (node_sf x m) u = Idle \<Longrightarrow>
    quiet target x ((set_node m (goto u (Calling key) (node_sf x m)) x)\<lparr>waits_for := (waits_for x)((n, t) \<mapsto> (m, u))\<rparr>)"
| found: "pcs (node_sf x n) t = Running key c \<Longrightarrow> waits_for x (n, t) = None \<Longrightarrow> target n key = Some m \<Longrightarrow>
    heap (node_sf x n) c = Some k \<Longrightarrow> quiet target x (set_node n (fn_ends t key c k r (node_sf x n)) x)"
| from_source: "pcs (node_sf x n) t = Running key c \<Longrightarrow> waits_for x (n, t) = None \<Longrightarrow> target n key = None \<Longrightarrow>
    heap (node_sf x n) c = Some k \<Longrightarrow> quiet target x (set_node n (fn_ends t key c k r (node_sf x n)) x)"
| answered: "pcs (node_sf x n) t = Running key c \<Longrightarrow> waits_for x (n, t) = Some (m, u) \<Longrightarrow>
    pcs (node_sf x m) u = Returned key (Some r) \<Longrightarrow> heap (node_sf x n) c = Some k \<Longrightarrow>
    quiet target x ((set_node n (fn_ends t key c k r (node_sf x n)) x)\<lparr>waits_for := (waits_for x)((n, t) := None)\<rparr>)"

text \<open>An outstanding call that fails, by the client's timeout or otherwise: the load goes on to the
  replica or the data source.\<close>

inductive gives_up :: "'r cluster \<Rightarrow> 'r cluster \<Rightarrow> bool" where
  call_failed: "pcs (node_sf x n) t = Running key c \<Longrightarrow> waits_for x (n, t) \<noteq> None \<Longrightarrow> heap (node_sf x n) c = Some k \<Longrightarrow>
    gives_up x ((set_node n (fn_ends t key c k r (node_sf x n)) x)\<lparr>waits_for := (waits_for x)((n, t) := None)\<rparr>)"

inductive cluster_reach :: "(string \<Rightarrow> string \<Rightarrow> string option) \<Rightarrow> 'r cluster \<Rightarrow> bool" for target where
  cr_start: "cluster_reach target cluster_start"
| cr_quiet: "cluster_reach target x \<Longrightarrow> quiet target x y \<Longrightarrow> cluster_reach target y"
| cr_fail: "cluster_reach target x \<Longrightarrow> gives_up x y \<Longrightarrow> cluster_reach target y"

lemma reach_node:
  "cluster_reach target x \<Longrightarrow> sf_reach (node_sf x n)"
proof (induction arbitrary: n rule: cluster_reach.induct)
  case cr_start
  then show ?case by (simp add: cluster_start_def sf_reach_def)
next
  case (cr_quiet x y)
  from cr_quiet.hyps(2) show ?case
  proof cases
    case (inside m s')
    then show ?thesis using cr_quiet.IH sf_reach_step [of "node_sf x m" s'] by (simp add: local_step_def)
  next
    case (asks m t key c m' u)
    then show ?thesis using cr_quiet.IH sf_reach_step [OF _ sf_step.enter [of "node_sf x m'" u key]] by simp
  next
    case (found m t key c m' k r)
    then show ?thesis using cr_quiet.IH sf_reach_step [OF _ fn_ends_step [of "node_sf x m" t key c k r]] by simp
  next
    case (from_source m t key c k r)
    then show ?thesis using cr_quiet.IH sf_reach_step [OF _ fn_ends_step [of "node_sf x m" t key c k r]] by simp
  next
    case (answered m t key c m' u r k)
    then show ?thesis using cr_quiet.IH sf_reach_step [OF _ fn_ends_step [of "node_sf x m" t key c k r]] by simp
  qed
next
  case (cr_fail x y)
  from cr_fail.hyps(2) show ?case
  proof cases
    case (call_failed m t key c k r)
    then show ?thesis using cr_fail.IH sf_reach_step [OF _ fn_ends_step [of "node_sf x m" t key c k r]] by simp
  qed
qed

section \<open>Waiting in a circle\<close>

text \<open>A load of node \<open>na\<close> waits for a load of node \<open>nb\<close>, which waits for a thread of \<open>na\<close> that waits for
  the first load.\<close>

definition circle_wait :: "string \<Rightarrow> string \<Rightarrow> string \<Rightarrow> nat \<Rightarrow> nat \<Rightarrow> nat \<Rightarrow> 'r cluster \<Rightarrow> bool" where
  "circle_wait na nb key t u v x \<longleftrightarrow> na \<noteq> nb \<and> (\<exists>c d k.
     pcs (node_sf x na) t = Running key c \<and> waits_for x (na, t) = Some (nb, u) \<and>
     pcs (node_sf x nb) u = Running key d \<and> waits_for x (nb, u) = Some (na, v) \<and>
     pcs (node_sf x na) v = Waiting key c \<and> heap (node_sf x na) c = Some k \<and> \<not> wg_done k)"

text \<open>While a leader runs, its waiters wait.\<close>

lemma waiter_waits:
  assumes reach: "sf_reach s" and step: "sf_step s s'"
    and run: "pcs s t = Running key c" "pcs s' t = Running key c"
    and wait: "pcs s v = Waiting key c" and k: "heap s c = Some k" "\<not> wg_done k"
  shows "pcs s' v = Waiting key c \<and> (\<exists>k'. heap s' c = Some k' \<and> \<not> wg_done k')"
  using step
proof cases
  case (release t0 key0 c0 p k0)
  obtain owner where ok: "table_ok s" "rest_ok s owner" using sf_reach_ok [OF reach] by blast
  have "c0 \<noteq> c"
  proof
    assume "c0 = c"
    moreover have l: "leads (pcs s t0) = Some (key0, c0)" "leads (pcs s t) = Some (key, c)" using release run by simp_all
    ultimately have "key0 = key"
      using ok(2) unfolding rest_ok_def objects_ok_def by metis
    then have "t0 = t" using l ok(1) unfolding table_ok_def by blast
    with release(2) run(1) show False by simp
  qed
  with release wait k show ?thesis by auto
qed (use wait k run in \<open>auto\<close>)

lemma circle_node:
  assumes circle: "circle_wait na nb key t u v x" and reach: "sf_reach (node_sf x n)" and step: "sf_step (node_sf x n) s'"
    and keep: "\<And>c. n = na \<Longrightarrow> pcs (node_sf x n) t = Running key c \<Longrightarrow> pcs s' t = Running key c"
      "\<And>c. n = nb \<Longrightarrow> pcs (node_sf x n) u = Running key c \<Longrightarrow> pcs s' u = Running key c"
    and w: "w (na, t) = waits_for x (na, t)" "w (nb, u) = waits_for x (nb, u)"
  shows "circle_wait na nb key t u v ((set_node n s' x)\<lparr>waits_for := w\<rparr>)"
proof -
  obtain c d k where *: "na \<noteq> nb" "pcs (node_sf x na) t = Running key c" "waits_for x (na, t) = Some (nb, u)"
     "pcs (node_sf x nb) u = Running key d" "waits_for x (nb, u) = Some (na, v)"
     "pcs (node_sf x na) v = Waiting key c" "heap (node_sf x na) c = Some k" "\<not> wg_done k"
    using circle unfolding circle_wait_def by blast
  show ?thesis
  proof (cases "n = na")
    case True
    from waiter_waits [of "node_sf x na" s' t key c v k] reach step keep(1) * True
    obtain k' where "pcs s' v = Waiting key c" "heap s' c = Some k'" "\<not> wg_done k'" by auto
    moreover have "pcs s' t = Running key c" using keep(1) True *(2) by simp
    ultimately show ?thesis using * w True unfolding circle_wait_def by auto
  next
    case False
    have "n = nb \<Longrightarrow> pcs s' u = Running key d" using keep(2) *(4) by simp
    then show ?thesis using * w False unfolding circle_wait_def by auto
  qed
qed

lemma circle_quiet:
  assumes circle: "circle_wait na nb key t u v x" and reach: "\<And>n. sf_reach (node_sf x n)" and step: "quiet target x y"
  shows "circle_wait na nb key t u v y"
proof -
  obtain c d k where *: "na \<noteq> nb" "pcs (node_sf x na) t = Running key c" "waits_for x (na, t) = Some (nb, u)"
     "pcs (node_sf x nb) u = Running key d" "waits_for x (nb, u) = Some (na, v)"
     "pcs (node_sf x na) v = Waiting key c" "heap (node_sf x na) c = Some k" "\<not> wg_done k"
    using circle unfolding circle_wait_def by blast
  from step show ?thesis
  proof cases
    case (inside n s')
    have "circle_wait na nb key t u v ((set_node n s' x)\<lparr>waits_for := waits_for x\<rparr>)"
      by (rule circle_node [OF circle reach]) (use inside(2) in \<open>auto simp: local_step_def\<close>)
    then show ?thesis using inside(1) by simp
  next
    case (asks n t0 key0 c0 m u0)
    have "circle_wait na nb key t u v ((set_node m (goto u0 (Calling key0) (node_sf x m)) x)\<lparr>waits_for := (waits_for x)((n, t0) \<mapsto> (m, u0))\<rparr>)"
      by (rule circle_node [OF circle reach sf_step.enter [OF asks(5)]]) (use asks(3,5) * in auto)
    then show ?thesis using asks(1) by simp
  next
    case (found n t0 key0 c0 m k0 r)
    have ne: "(n, t0) \<noteq> (na, t)" "(n, t0) \<noteq> (nb, u)" using found(3) * by auto
    have "circle_wait na nb key t u v ((set_node n (fn_ends t0 key0 c0 k0 r (node_sf x n)) x)\<lparr>waits_for := waits_for x\<rparr>)"
      by (rule circle_node [OF circle reach fn_ends_step [OF found(2,5)]]) (use ne in auto)
    then show ?thesis using found(1) by simp
  next
    case (from_source n t0 key0 c0 k0 r)
    have ne: "(n, t0) \<noteq> (na, t)" "(n, t0) \<noteq> (nb, u)" using from_source(3) * by auto
    have "circle_wait na nb key t u v ((set_node n (fn_ends t0 key0 c0 k0 r (node_sf x n)) x)\<lparr>waits_for := waits_for x\<rparr>)"
      by (rule circle_node [OF circle reach fn_ends_step [OF from_source(2,5)]]) (use ne in auto)
    then show ?thesis using from_source(1) by simp
  next
    case (answered n t0 key0 c0 m u0 r k0)
    have ne: "(n, t0) \<noteq> (na, t)" "(n, t0) \<noteq> (nb, u)" using answered(3,4) * by auto
    have "circle_wait na nb key t u v ((set_node n (fn_ends t0 key0 c0 k0 r (node_sf x n)) x)\<lparr>waits_for := (waits_for x)((n, t0) := None)\<rparr>)"
      by (rule circle_node [OF circle reach fn_ends_step [OF answered(2,5)]]) (use ne in auto)
    then show ?thesis using answered(1) by simp
  qed
qed

lemma circle_stays:
  assumes "cluster_reach target x" and "circle_wait na nb key t u v x" and "(quiet target)\<^sup>*\<^sup>* x y"
  shows "circle_wait na nb key t u v y \<and> cluster_reach target y"
  using assms(3)
proof (induction rule: rtranclp_induct)
  case base
  then show ?case using assms(1,2) by blast
next
  case (step y z)
  then show ?case using circle_quiet reach_node cr_quiet by blast
qed

section \<open>The circle is reached\<close>

lemma local_enter: "pcs s t = Idle \<Longrightarrow> local_step s (goto t (Calling key) s)"
  by (auto simp: local_step_def intro: sf_step.enter)

lemma local_lead:
  "pcs s t = Calling key \<Longrightarrow> calls_m s key = None \<Longrightarrow> heap s c = None \<Longrightarrow>
   local_step s (goto t (Running key c) (s\<lparr>heap := (heap s)(c \<mapsto> new_call), calls_m := (calls_m s)(key \<mapsto> c)\<rparr>))"
  using sf_step.lead [of s t key c] by (auto simp: local_step_def)

lemma local_join: "pcs s t = Calling key \<Longrightarrow> calls_m s key = Some c \<Longrightarrow> local_step s (goto t (Waiting key c) s)"
  by (auto simp: local_step_def intro: sf_step.join)

lemma circle_reached:
  assumes ne: "na \<noteq> nb" and t: "target na key = Some nb" "target nb key = Some na"
  shows "\<exists>x :: 'r cluster. cluster_reach target x \<and> circle_wait na nb key 0 0 1 x"
proof -
  let ?lead = "\<lambda>s :: 'r sf. goto 0 (Running key 0) (s\<lparr>heap := (heap s)(0 \<mapsto> new_call), calls_m := (calls_m s)(key \<mapsto> 0)\<rparr>)"
  let ?call = "\<lambda>u s :: 'r sf. goto u (Calling key) s"
  let ?x0 = "cluster_start :: 'r cluster"
  let ?a1 = "?call 0 sf_start"
  let ?x1 = "set_node na ?a1 ?x0"
  let ?x2 = "set_node na (?lead ?a1) ?x1"
  let ?x3 = "(set_node nb (?call 0 sf_start) ?x2)\<lparr>waits_for := (waits_for ?x2)((na, 0) \<mapsto> (nb, 0))\<rparr>"
  let ?x4 = "set_node nb (?lead (?call 0 sf_start)) ?x3"
  let ?x5 = "(set_node na (?call 1 (?lead ?a1)) ?x4)\<lparr>waits_for := (waits_for ?x4)((nb, 0) \<mapsto> (na, 1))\<rparr>"
  let ?x6 = "set_node na (goto 1 (Waiting key 0) (?call 1 (?lead ?a1))) ?x5"
  have idle: "pcs (sf_start :: 'r sf) u = Idle" "calls_m (sf_start :: 'r sf) key = None" "heap (sf_start :: 'r sf) c = None"
    "node_sf ?x0 n = sf_start" "waits_for ?x0 w = None" for u c n w
    by (simp_all add: sf_start_def cluster_start_def)
  have 1: "quiet target ?x0 ?x1"
    using inside [of ?x0 na ?a1 target] local_enter [of "sf_start :: 'r sf" 0 key] idle by simp
  have 2: "quiet target ?x1 ?x2"
    using inside [of ?x1 na "?lead ?a1" target] local_lead [of ?a1 0 key 0] idle by simp
  have 3: "quiet target ?x2 ?x3"
    using asks [of ?x2 na 0 key 0 target nb 0] t(1) ne idle by simp
  have 4: "quiet target ?x3 ?x4"
    using inside [of ?x3 nb "?lead (?call 0 sf_start)" target] local_lead [of "?call 0 sf_start" 0 key 0] idle by simp
  have 5: "quiet target ?x4 ?x5"
    using asks [of ?x4 nb 0 key 0 target na 1] t(2) ne idle by simp
  have 6: "quiet target ?x5 ?x6"
    using inside [of ?x5 na "goto 1 (Waiting key 0) (?call 1 (?lead ?a1))" target] local_join [of "?call 1 (?lead ?a1)" 1 key 0] by simp
  have "cluster_reach target ?x6"
    using cr_quiet [OF cr_quiet [OF cr_quiet [OF cr_quiet [OF cr_quiet [OF cr_quiet [OF cr_start 1] 2] 3] 4] 5] 6] .
  moreover have "circle_wait na nb key 0 0 1 ?x6"
    using ne by (simp add: circle_wait_def new_call_def)
  ultimately show ?thesis by blast
qed

section \<open>Two nodes that know each other\<close>

text \<open>The node that a load asks first, by the pickers of the nodes.\<close>

definition first_asked :: "(string \<Rightarrow> ClientPicker) \<Rightarrow> string \<Rightarrow> string \<Rightarrow> string option" where
  "first_asked pickers n key =
     (let (primary, replica, ok, self) = picker_PickPeerWithFallback (pickers n) key
      in if ok \<and> \<not> self then map_option c_addr primary else None)"

lemma only_peer_asked:
  assumes wf: "picker_wf p" and key: "key \<noteq> []" and n: "nodes_of (consHash p) = {m}" "IsHealthy (consHash p) m"
    and p: "pickers x = p"
  shows "first_asked pickers x key = Some m"
proof -
  have h: "{y \<in> nodes_of (consHash p). IsHealthy (consHash p) y} = {m}" using n by auto
  from fallback_facts [OF wf key] obtain pr re where f:
    "picker_PickPeerWithFallback p key = (pr, re, {x \<in> nodes_of (consHash p). IsHealthy (consHash p) x} \<noteq> {}, False)"
    "map_option c_addr pr = (if {x \<in> nodes_of (consHash p). IsHealthy (consHash p) x} = {} then None
      else Some (snd (GetHealthy (consHash p) key)))" by (elim exE conjE) (rule that)
  have "snd (GetHealthy (consHash p) key) = m"
    using healthy_in_nodes [OF _ key, of "consHash p" m] wf n by (simp add: picker_wf_def)
  with f h p show ?thesis by (simp add: first_asked_def)
qed


definition ring_b :: Map where
  "ring_b = joined ring0 ''b''"

lemma ring_b_apart: "no_collision ring0 ''b''"
  by (rule no_collision_distinct) code_simp

lemma ring_b_facts: "ring_ok ring_b" "nodes_of ring_b = {''b''}"
  using add_one_ok [OF ring0_facts(1) _ _ ring_b_apart] ring0_facts two_points_pos by (simp_all add: ring_b_def)

definition lone_picker :: "string \<Rightarrow> string \<Rightarrow> Map \<Rightarrow> ClientPicker" where
  "lone_picker self peer m = \<lparr>selfAddr = self, svcName = defaultSvcName, consHash = m,
     clients = [(peer, \<lparr>c_addr = peer, c_svcName = defaultSvcName\<rparr>)]\<rparr>"

lemma lone_picker_wf:
  assumes ok: "ring_ok m" and n: "nodes_of m = {peer}" and ne: "self \<noteq> peer"
  shows "picker_wf (lone_picker self peer m)"
proof -
  have "map_of (hashMap m) h \<noteq> Some self" for h
  proof
    assume "map_of (hashMap m) h = Some self"
    then obtain r where "map_of (nodeReplicas m) self = Some r" using ring_ok_map [OF ok] by blast
    then have "self \<in> nodes_of m" by (auto simp: nodes_of_def)
    with n ne show False by simp
  qed
  moreover have "map_ok (hashMap m)" using ok unfolding ring_ok_def by blast
  ultimately have "picker_inv (lone_picker self peer m)" using ne by (simp add: picker_inv_def lone_picker_def map_ok_def)
  with ok n ne show ?thesis by (simp add: picker_wf_def lone_picker_def)
qed


end
