(* ===== verification/Replication.thy ===== *)
theory Replication
  imports ClusterProps
begin

text \<open>
  Values that travel between nodes: a client's write reaches the two nodes responsible for its key,
  and the migration of a node that shuts down hands its values over. Sending and receiving are put
  together: each call that a node sends, delivered to a server that has the group, can be read
  there.
\<close>

section \<open>A value arrives\<close>

text \<open>The receiving group can hold the value until it is read: an LRU-2 cache, whose clock at the read
  has not passed the lifetime that the write gets.\<close>

definition holds_until :: "('p, 'e) world \<Rightarrow> ('q, 'f) world \<Rightarrow> Group \<Rightarrow> bool" where
  "holds_until V V' h \<longleftrightarrow> co_CacheType (copts (mainCache h)) = LRU2 \<and>
     (\<forall>S. cstore (mainCache h) = Some S \<longrightarrow> (\<exists>s. S = Lru2Store s)) \<and>
     0 \<le> clock (senv V) \<and> 0 < lifetime V h \<and> clock (senv V) + lifetime V h < 2 ^ 63 \<and>
     clock' (senv V') < clock (senv V) + lifetime V h"

text \<open>A node's registry with the group \<open>name\<close>, in which the value can be held.\<close>

definition receives :: "('p, 'e) world \<Rightarrow> ('q, 'f) world \<Rightarrow> registry \<Rightarrow> string \<Rightarrow> bool" where
  "receives V V' q name \<longleftrightarrow> reg_reach q \<and> world_ok V \<and> world_ok V' \<and>
     (\<exists>a h. GetGroup q name = Some a \<and> objects q a = Some h \<and> holds_until V V' h)"

lemma delivered_Set:
  assumes "receives V V' q name" and "key \<noteq> []" and "value \<noteq> []"
  shows "\<exists>q1 q2. deliver V q (RpcSet c ctx name key value) = Some q1 \<and> server_Get V' q1 name key = Some (q2, Inr value, [])"
proof -
  obtain a h where q: "reg_reach q" "world_ok V" "world_ok V'" and a: "GetGroup q name = Some a" "objects q a = Some h"
    and h: "holds_until V V' h" using assms(1) by (auto simp: receives_def)
  have g: "group_of q name = Some (a, h)" "\<not> g_closed h" "group_inv h" using registered_group(1) [OF q(1) a(1)] a(2) by auto
  obtain g1 g2 where s: "group_Set V ctx h key value = Some (g1, None)" "group_Get V' g1 key = Some (g2, Inr (ByteView value), [])"
    using set_then_get [OF g(3) q(2,3) g(2) assms(2,3), of ctx] h by (auto simp: holds_until_def)
  have "group_of (put_group q a g1) name = Some (a, g1)"
    using a(1) by (simp add: group_of_def put_group_def GetGroup_def)
  with s g(1) show ?thesis
    by (simp add: deliver_def server_Set_def server_Get_def decorate_propagate Let_def ByteSLice_def)
qed

section \<open>Writes reach the responsible nodes\<close>

lemma GetHealthy_is_healthy:
  assumes ok: "ring_ok m" and key: "key \<noteq> []" and x: "x \<in> nodes_of m" "IsHealthy m x"
  shows "IsHealthy m (snd (GetHealthy m key))"
proof -
  have h: "\<not> unhealthy m x" using x(2) by (simp add: IsHealthy_def)
  let ?hs = "filter (\<lambda>x. \<not> unhealthy m x) (circle m key)"
  have "x \<in> set ?hs" using set_circle [OF ok, of key] x(1) h by simp
  then have "hd ?hs \<in> set ?hs" by (metis empty_iff hd_in_set list.set(1))
  then show ?thesis using GetHealthy_found [OF ok key x(1) h] by (simp add: IsHealthy_def)
qed

definition healthy_nodes :: "ClientPicker \<Rightarrow> string set" where
  "healthy_nodes p = {x \<in> nodes_of (consHash p). IsHealthy (consHash p) x}"

lemma set_task_calls:
  assumes wf: "picker_wf p" and key: "key \<noteq> []" and W: "picker W = as_picker ord p" and hp: "has_peers g"
  shows "\<exists>cs. processSyncTask W g \<lparr>t_op = ''set'', t_key = key, t_value = v\<rparr> =
      Some (map (\<lambda>c. RpcSet c peer_ctx (g_name g) key v) cs) \<and>
    distinct (map c_addr cs) \<and> set (map c_addr cs) \<subseteq> healthy_nodes p \<and> length cs = min 2 (card (healthy_nodes p)) \<and>
    (cs \<noteq> [] \<longrightarrow> c_addr (hd cs) = snd (GetHealthy (consHash p) key))"
proof -
  from fallback_facts [OF wf key, folded healthy_nodes_def] obtain pr re where
    pick: "picker_PickPeerWithFallback p key = (pr, re, healthy_nodes p \<noteq> {}, False)"
    and pr: "map_option c_addr pr = (if healthy_nodes p = {} then None else Some (snd (GetHealthy (consHash p) key)))"
    and two: "re \<noteq> None \<longleftrightarrow> 2 \<le> card (healthy_nodes p)"
    and re: "\<forall>c. re = Some c \<longrightarrow> IsHealthy (consHash p) (c_addr c) \<and> c_addr c \<in> nodes_of (consHash p) \<and>
      c_addr c \<noteq> snd (GetHealthy (consHash p) key) \<and> re \<noteq> pr"
    by (elim exE conjE) (rule that)
  have fin: "finite (healthy_nodes p)" unfolding healthy_nodes_def using finite_nodes [of "consHash p"] by simp
  have run: "processSyncTask W g \<lparr>t_op = ''set'', t_key = key, t_value = v\<rparr> =
    (if healthy_nodes p = {} then Some [] else Some (map (\<lambda>c. RpcSet c peer_ctx (g_name g) key v)
       ((case pr of Some c \<Rightarrow> [c] | None \<Rightarrow> []) @ (case re of Some c \<Rightarrow> if re \<noteq> pr then [c] else [] | None \<Rightarrow> []))))"
    by (simp add: processSyncTask_def syncToPeersWithReplica_def W hp as_picker_def pick send_def split: option.split)
  show ?thesis
  proof (cases "healthy_nodes p = {}")
    case True
    then show ?thesis using run by (intro exI [of _ "[]"]) simp
  next
    case False
    then obtain c where c: "pr = Some c" "c_addr c = snd (GetHealthy (consHash p) key)" using pr by (cases pr) auto
    obtain x where x: "x \<in> nodes_of (consHash p)" "IsHealthy (consHash p) x" using False by (auto simp: healthy_nodes_def)
    have "ring_ok (consHash p)" using wf by (simp add: picker_wf_def)
    with c(2) healthy_in_nodes [OF _ key x] GetHealthy_is_healthy [OF _ key x]
    have c_in: "c_addr c \<in> healthy_nodes p" by (simp add: healthy_nodes_def)
    have pos: "0 < card (healthy_nodes p)" using fin False by (simp add: card_gt_0_iff)
    show ?thesis
    proof (cases re)
      case None
      then have "card (healthy_nodes p) = 1" using two pos by simp
      then show ?thesis using run False c c_in None by (intro exI [of _ "[c]"]) simp
    next
      case (Some d)
      then have "2 \<le> card (healthy_nodes p)" "c_addr d \<in> healthy_nodes p" "c_addr d \<noteq> c_addr c" "re \<noteq> pr"
        using two re c(2) by (auto simp: healthy_nodes_def)
      then show ?thesis using run False c c_in Some by (intro exI [of _ "[c, d]"]) simp
    qed
  qed
qed

text \<open>C8: A client's Set reaches the nodes responsible for its key: the write is accepted and queued (while
  the queue has room), and the task's worker sends it, with the peer mark, to the first healthy
  node clockwise from the key and to one more healthy node, or to the only one. Each of these
  calls, delivered to a server that has the group, lets that server's Get return the value.\<close>
theorem Set_reaches_replicas:
  assumes "group_inv g" and "world_ok W" and "\<not> g_closed g" and "key \<noteq> []" and "value \<noteq> []" and "has_peers g"
    and "length (syncTasks g) < 1024" and "picker W = as_picker ord p" and "picker_wf p" and "receives V V' q (g_name g)"
  shows "\<exists>g1 task sent. group_Set W Background g key value = Some (g1, None) \<and> syncTasks g1 = syncTasks g @ [task] \<and>
    processSyncTask W g1 task = Some sent \<and>
    distinct (map (c_addr \<circ> rpc_target) sent) \<and> set (map (c_addr \<circ> rpc_target) sent) \<subseteq> healthy_nodes p \<and>
    length sent = min 2 (card (healthy_nodes p)) \<and>
    (sent \<noteq> [] \<longrightarrow> c_addr (rpc_target (hd sent)) = snd (GetHealthy (consHash p) key)) \<and>
    (\<forall>call \<in> set sent. \<exists>q1 q2. deliver V q call = Some q1 \<and> server_Get V' q1 (g_name g) key = Some (q2, Inr value, []))"
proof -
  let ?task = "\<lparr>t_op = ''set'', t_key = key, t_value = value\<rparr>"
  obtain g0 where k: "keep W g key (ByteView value) = Some g0" "has_peers g0 = has_peers g" "syncTasks g0 = syncTasks g"
    "g_name g0 = g_name g" using keep_law [OF assms(1,2), of key "ByteView value"] by blast
  let ?g1 = "enqueue g0 ?task"
  have s: "group_Set W Background g key value = Some (?g1, None)"
    using assms(3-6) k by (simp add: group_Set_def Background_def)
  have q: "syncTasks ?g1 = syncTasks g @ [?task]" "has_peers ?g1" "g_name ?g1 = g_name g"
    using assms(6,7) k by (simp_all add: enqueue_def syncChannelBuffer_def)
  from set_task_calls [OF assms(9,4,8) q(2), of "value"] obtain cs where
    cs: "processSyncTask W ?g1 ?task = Some (map (\<lambda>c. RpcSet c peer_ctx (g_name g) key value) cs)"
      "distinct (map c_addr cs)" "set (map c_addr cs) \<subseteq> healthy_nodes p" "length cs = min 2 (card (healthy_nodes p))"
      "cs \<noteq> [] \<longrightarrow> c_addr (hd cs) = snd (GetHealthy (consHash p) key)" unfolding q(3) by blast
  let ?sent = "map (\<lambda>c. RpcSet c peer_ctx (g_name g) key value) cs"
  have targets: "map (c_addr \<circ> rpc_target) ?sent = map c_addr cs" by simp
  have arrive: "\<exists>q1 q2. deliver V q call = Some q1 \<and> server_Get V' q1 (g_name g) key = Some (q2, Inr value, [])"
    if "call \<in> set ?sent" for call
    using that delivered_Set [OF assms(10,4,5)] by auto
  have "length ?sent = min 2 (card (healthy_nodes p))" "?sent \<noteq> [] \<longrightarrow> c_addr (rpc_target (hd ?sent)) = snd (GetHealthy (consHash p) key)"
    using cs(4,5) by (simp_all add: hd_map)
  moreover have "distinct (map (c_addr \<circ> rpc_target) ?sent)" "set (map (c_addr \<circ> rpc_target) ?sent) \<subseteq> healthy_nodes p"
    unfolding targets by (rule cs(2), rule cs(3))
  ultimately show ?thesis using s q(1) cs(1) arrive by blast
qed

lemma reg1_receives: "receives wset wset reg1 ''g''"
proof -
  have "holds_until wset wset (make_group ''g'' 100 [])"
    by (simp add: holds_until_def make_group_def NewCache_def DefaultCacheOptions_def lifetime_def wset_def env0_def default_expiration_def)
  then show ?thesis using reg1_reach wset_ok by (auto simp: receives_def GetGroup_def reg1_def)
qed

theorem Set_reaches_replicas_witness:
  "\<exists>g1 task c d. group_Set wset Background (make_group ''g'' 100 [WithPeers True]) ''k'' ''w'' = Some (g1, None) \<and>
     syncTasks g1 = [task] \<and> (\<exists>x y. processSyncTask wset g1 task = Some [x, y] \<and> rpc_target x = c \<and> rpc_target y = d) \<and>
     {c_addr c, c_addr d} = {''a'', ''b''}"
proof -
  let ?g = "make_group ''g'' 100 [WithPeers True]"
  have inv: "group_inv ?g" by (rule make_group_inv(1)) (simp add: option_ok_cases)
  have f: "\<not> g_closed ?g" "has_peers ?g" "length (syncTasks ?g) < 1024" "g_name ?g = ''g''" "syncTasks ?g = []"
    by (simp_all add: make_group_def WithPeers_def)
  have w: "picker wset = as_picker id picker2" by (simp add: wset_def)
  have "unhealthyNodes ring2 = []" by code_simp
  then have h: "healthy_nodes picker2 = {''a'', ''b''}"
    using ring2_facts(2) by (auto simp: picker2_def IsHealthy_def unhealthy_def healthy_nodes_def)
  have k: "''k'' \<noteq> []" "''w'' \<noteq> []" by simp_all
  from Set_reaches_replicas [OF inv wset_ok f(1) k f(2,3) w picker2_wf, unfolded f(4,5) h, OF reg1_receives]
  obtain g1 task sent where *: "group_Set wset Background ?g ''k'' ''w'' = Some (g1, None)" "syncTasks g1 = [task]"
    "processSyncTask wset g1 task = Some sent" "distinct (map (c_addr \<circ> rpc_target) sent)"
    "set (map (c_addr \<circ> rpc_target) sent) \<subseteq> {''a'', ''b''}" "length sent = 2" by auto
  from *(6) obtain x y where "sent = [x, y]" by (auto simp: length_Suc_conv numeral_2_eq_2)
  with * have "{c_addr (rpc_target x), c_addr (rpc_target y)} = {''a'', ''b''}" by auto
  with * \<open>sent = [x, y]\<close> show ?thesis by blast
qed

section \<open>A node that shuts down hands its values over\<close>

text \<open>C11: Before a node shuts down, MigrateDataAway sends every value of its cache to each connected node that
  is responsible for the key besides itself, and every such call, delivered to a server that has
  the group, lets that server's Get return the value. All calls carry the migration mark and go to
  clients among the two responsible nodes of their key.\<close>
theorem migration_delivers:
  assumes "reg_reach r" and "world_ok W" and "visits ord"
    and "GetGroup r name = Some a" and "objects r a = Some g" and "GetAllLocalKeys W g = Some ks" and "key \<in> set ks"
    and "GetLocalKeyValue W g key = Some (value, True)" and "key \<noteq> []" and "value \<noteq> []"
    and "d \<in> set (GetN (consHash p) key 2)" and "d \<noteq> []" and "d \<noteq> selfAddr p" and "map_of (clients p) d = Some c"
    and "receives V V' q name"
  shows "\<exists>sent q1 q2. MigrateDataAway W ord p r = Some sent \<and> RpcSet c migration_ctx name key value \<in> set sent \<and>
    deliver V q (RpcSet c migration_ctx name key value) = Some q1 \<and> server_Get V' q1 name key = Some (q2, Inr value, []) \<and>
    (\<forall>call \<in> set sent. \<exists>c' n k v d'. call = RpcSet c' migration_ctx n k v \<and>
      d' \<in> set (GetN (consHash p) k 2) \<and> d' \<noteq> selfAddr p \<and> map_of (clients p) d' = Some c')"
proof -
  obtain sent where s: "MigrateDataAway W ord p r = Some sent" "set sent = away_sent W p r"
    using away_sent_all [OF assms(1-3)] by blast
  have "RpcSet c migration_ctx name key value \<in> set sent"
    unfolding s(2) by (rule away_sentI [OF assms(4-8,11-14)])
  moreover have "\<exists>c' n k v d'. call = RpcSet c' migration_ctx n k v \<and>
      d' \<in> set (GetN (consHash p) k 2) \<and> d' \<noteq> selfAddr p \<and> map_of (clients p) d' = Some c'" if "call \<in> set sent" for call
  proof -
    have "call \<in> away_sent W p r" using that s(2) by simp
    then show ?thesis by (rule away_sentE) (intro exI conjI)
  qed
  moreover obtain q1 q2 where "deliver V q (RpcSet c migration_ctx name key value) = Some q1"
    "server_Get V' q1 name key = Some (q2, Inr value, [])"
    using delivered_Set [OF assms(15,9,10), where c = c and ctx = migration_ctx] by (elim exE conjE) (rule that)
  ultimately show ?thesis using s(1) by (intro exI [of _ sent] exI [of _ q1] exI [of _ q2]) simp
qed

text \<open>A node that holds one value, in an LRU cache, for the witness.\<close>

definition lru_opts :: CacheOptions where
  "lru_opts = DefaultCacheOptions\<lparr>co_CacheType := LRU\<rparr>"

definition lru_group :: Group where
  "lru_group = make_group ''g'' 100 [WithCacheOptions lru_opts]"

lemma lru_group_holds:
  "\<exists>g. group_Set wset Background lru_group ''k'' ''w'' = Some (g, None) \<and>
     GetAllLocalKeys wset g = Some [''k''] \<and> GetLocalKeyValue wset g ''k'' = Some (''w'', True)"
  by (auto simp: lru_group_def group_Set_def Background_def make_group_def WithCacheOptions_def NewCache_def lru_opts_def
      DefaultCacheOptions_def keep_def bind_eq_Some_conv cache_Add_def cache_Add_locked_def ensureInitialized_def
      NewStore_def newLRUCache_def storeOpts_def store_Set_def lru_Set_def lru_SetWithExpiration_def Let_def evict_def
      wset_def env0_def GetAllLocalKeys_def cache_Keys_def store_Keys_def lru_Keys_def GetLocalKeyValue_def
      cache_GetRawValue_def store_GetValue_def lru_GetValue_def bv_Len_def ByteSLice_def evict_size.simps minute_def deref_def)

lemma lru_opts_ok: "\<forall>opt \<in> set [WithCacheOptions lru_opts]. option_ok opt"
  by (simp add: option_ok_cases opts_ok_def storeOpts_def lru_opts_def DefaultCacheOptions_def)

definition some_world :: "(string, string) world" where
  "some_world = \<lparr>senv = env0, now_at = 0, until_at = 0, took = 0, source = \<lambda>_. Inl ''none'',
     picker = \<lparr>PickPeer = \<lambda>_. (None, False, False), PickPeerWithFallback = None, GetAllPeers = None\<rparr>,
     peer_reply = \<lambda>p g k. Inl ''down''\<rparr>"

lemma holding_registry:
  "\<exists>r g. reg_reach r \<and> GetGroup r ''g'' = Some 0 \<and> objects r 0 = Some g \<and> GetAllLocalKeys wset g = Some [''k''] \<and>
     GetLocalKeyValue wset g ''k'' = Some (''w'', True)"
proof -
  obtain g where g: "group_Set wset Background lru_group ''k'' ''w'' = Some (g, None)"
     "GetAllLocalKeys wset g = Some [''k'']" "GetLocalKeyValue wset g ''k'' = Some (''w'', True)"
    using lru_group_holds by blast
  let ?r = "no_groups\<lparr>objects := [0 \<mapsto> lru_group], next_object := 1, groups := [(''g'', 0)]\<rparr>"
  have "NewGroup True ''g'' 100 [WithCacheOptions lru_opts] no_groups = Some (?r, 0)"
    by (simp add: NewGroup_def no_groups_def lru_group_def)
  from reg_new [OF reg_start lru_opts_ok this] have r: "reg_reach ?r" .
  have ok: "world_ok some_world" using env0_for by (simp add: world_ok_def some_world_def picker_ok_def)
  have same: "group_Set some_world Background lru_group ''k'' ''w'' = Some (g, None)"
  proof -
    have "keep some_world lru_group k v = keep wset lru_group k v" for k v
      by (simp add: keep_def wset_def some_world_def)
    then have "group_Set some_world Background lru_group ''k'' ''w'' = group_Set wset Background lru_group ''k'' ''w''"
      by (simp only: group_Set_def)
    with g(1) show ?thesis by simp
  qed
  have "group_step lru_group (PutOp ''k'' (ByteView ''w'')) g"
    unfolding group_step_def using ok put_set [of some_world Background lru_group "''k''" "ByteView ''w''" g] same by auto
  from reg_use [OF r _ this, of 0] have "reg_reach (?r\<lparr>objects := (objects ?r)(0 \<mapsto> g)\<rparr>)" by simp
  then show ?thesis using g(2,3)
    by (intro exI [of _ "?r\<lparr>objects := (objects ?r)(0 \<mapsto> g)\<rparr>"] exI [of _ g]) (simp add: GetGroup_def)
qed

theorem migration_delivers_witness:
  "\<exists>r sent c q1 q2. reg_reach r \<and> MigrateDataAway wset id picker2 r = Some sent \<and> c_addr c = ''a'' \<and>
     RpcSet c migration_ctx ''g'' ''k'' ''w'' \<in> set sent \<and>
     deliver wset reg1 (RpcSet c migration_ctx ''g'' ''k'' ''w'') = Some q1 \<and> server_Get wset q1 ''g'' ''k'' = Some (q2, Inr ''w'', [])"
proof -
  obtain r g where r: "reg_reach r" "GetGroup r ''g'' = Some 0" "objects r 0 = Some g" "GetAllLocalKeys wset g = Some [''k'']"
     "GetLocalKeyValue wset g ''k'' = Some (''w'', True)" using holding_registry by blast
  have v: "visits id" using visits_id by (simp add: id_def)
  have k: "''k'' \<in> set [''k'']" "''k'' \<noteq> []" "''w'' \<noteq> []" "''a'' \<noteq> []" by simp_all
  have p: "consHash picker2 = ring2" "''a'' \<noteq> selfAddr picker2"
    "map_of (clients picker2) ''a'' = Some \<lparr>c_addr = ''a'', c_svcName = defaultSvcName\<rparr>" by (simp_all add: picker2_def)
  from GetN_facts [OF ring2_facts(1) k(2), of 2] ring2_facts(2)
  have "card (set (GetN ring2 ''k'' 2)) = 2" "set (GetN ring2 ''k'' 2) \<subseteq> {''a'', ''b''}" by (auto simp: distinct_card)
  then have "set (GetN ring2 ''k'' 2) = {''a'', ''b''}" by (intro card_subset_eq) simp_all
  then have d: "''a'' \<in> set (GetN (consHash picker2) ''k'' 2)" by (simp add: p)
  from migration_delivers [OF r(1) wset_ok v r(2-4) k(1) r(5) k(2,3) d k(4) p(2,3) reg1_receives] obtain sent q1 q2 where
    "MigrateDataAway wset id picker2 r = Some sent"
    "RpcSet \<lparr>c_addr = ''a'', c_svcName = defaultSvcName\<rparr> migration_ctx ''g'' ''k'' ''w'' \<in> set sent"
    "deliver wset reg1 (RpcSet \<lparr>c_addr = ''a'', c_svcName = defaultSvcName\<rparr> migration_ctx ''g'' ''k'' ''w'') = Some q1"
    "server_Get wset q1 ''g'' ''k'' = Some (q2, Inr ''w'', [])" by (elim exE conjE) (rule that)
  with r(1) show ?thesis
    by (intro exI [of _ r] exI [of _ sent] exI [of _ "\<lparr>c_addr = ''a'', c_svcName = defaultSvcName\<rparr>"] exI [of _ q1] exI [of _ q2]) simp
qed

end
