(* ===== verification/Cluster.thy ===== *)
theory Cluster
  imports ClusterProps
begin

text \<open>
  The whole system: any number of nodes, each with its registry of groups, that write, load, copy and
  migrate values between each other. Messages may be lost, delayed, reordered and delivered more
  than once, nodes may close and create groups at any time, and the pickers may be in any state.
  The state is the registries with the write calls posted so far (\<open>cl_posted\<close>), the loads that have
  brought a value (\<open>cl_fetched\<close>), what the servers have answered to Gets (\<open>cl_answers\<close>: address,
  group, key, value), and, as a ghost, the clients' writes (\<open>cl_wrote\<close>). A load asks other nodes for
  what their servers have answered at any time, or the data source, whose values are \<open>truth\<close>.
\<close>

section \<open>Steps\<close>

record cluster_state =
  cl_regs :: "string \<Rightarrow> registry"
  cl_posted :: "Client rpc set"
  cl_fetched :: "(string \<times> nat \<times> string \<times> ByteView) set"
  cl_answers :: "(string \<times> string \<times> string \<times> string) set"
  cl_wrote :: "(string \<times> string \<times> string) set"

definition cl_start :: cluster_state where
  "cl_start = \<lparr>cl_regs = (\<lambda>_. no_groups), cl_posted = {}, cl_fetched = {}, cl_answers = {}, cl_wrote = {}\<rparr>"

abbreviation group_at :: "cluster_state \<Rightarrow> string \<Rightarrow> nat \<Rightarrow> Group option" where
  "group_at x n a \<equiv> objects (cl_regs x n) a"

abbreviation set_reg :: "string \<Rightarrow> registry \<Rightarrow> cluster_state \<Rightarrow> cluster_state" where
  "set_reg n r x \<equiv> x\<lparr>cl_regs := (cl_regs x)(n := r)\<rparr>"

abbreviation set_group :: "string \<Rightarrow> nat \<Rightarrow> Group \<Rightarrow> cluster_state \<Rightarrow> cluster_state" where
  "set_group n a g x \<equiv> set_reg n (put_group (cl_regs x n) a g) x"

text \<open>What a load of the group \<open>name\<close> may see: peers repeat what their servers have answered.\<close>

definition honest :: "(string \<times> string \<times> string) set \<Rightarrow> cluster_state \<Rightarrow> string \<Rightarrow> (Client, string) world \<Rightarrow> bool" where
  "honest truth x name W \<longleftrightarrow> world_ok W \<and>
     (\<forall>key bytes. source W key = Inr bytes \<longrightarrow> (name, key, bytes) \<in> truth) \<and>
     (\<forall>p key bytes. peer_reply W p name key = Inr bytes \<longrightarrow> (c_addr p, name, key, bytes) \<in> cl_answers x)"

inductive cl_step :: "(string \<times> string \<times> string) set \<Rightarrow> cluster_state \<Rightarrow> cluster_state \<Rightarrow> bool"
  for truth
where
  cl_new: "\<forall>opt \<in> set opts. option_ok opt \<Longrightarrow> NewGroup True name cacheBytes opts (cl_regs x n) = Some (r, a) \<Longrightarrow>
    cl_step truth x (set_reg n r x)"
| cl_close: "group_Close False (cl_regs x n) a = Some (Returns r) \<Longrightarrow> cl_step truth x (set_reg n r x)"
| cl_write: "group_at x n a = Some g \<Longrightarrow> world_ok (W :: (Client, string) world) \<Longrightarrow>
    group_Set W ctx g key value = Some (g', None) \<Longrightarrow>
    cl_step truth x ((set_group n a g' x)\<lparr>cl_wrote := insert (g_name g, key, value) (cl_wrote x)\<rparr>)"
| cl_deliver: "call \<in> cl_posted x \<Longrightarrow> world_ok (W :: (Client, string) world) \<Longrightarrow>
    deliver W (cl_regs x (c_addr (rpc_target call))) call = Some r \<Longrightarrow>
    cl_step truth x (set_reg (c_addr (rpc_target call)) r x)"
| cl_found: "group_at x n a = Some g \<Longrightarrow> world_ok (W :: (Client, string) world) \<Longrightarrow>
    group_lookup W g key = Some (g', Some (Inr v)) \<Longrightarrow>
    cl_step truth x ((set_group n a g' x)\<lparr>cl_answers := insert (n, g_name g, key, ByteSLice v) (cl_answers x)\<rparr>)"
| cl_fetch: "group_at x n a = Some g \<Longrightarrow> honest truth x (g_name g) W \<Longrightarrow> loadData W g key = Some (g', Inr v, sent) \<Longrightarrow>
    cl_step truth x ((set_group n a g' x)\<lparr>cl_fetched := insert (n, a, key, v) (cl_fetched x)\<rparr>)"
| cl_store: "(n, a, key, v) \<in> cl_fetched x \<Longrightarrow> group_at x n a = Some g \<Longrightarrow> world_ok (W :: (Client, string) world) \<Longrightarrow>
    load_rest W g key (Some (Inr v)) = Some (g', Inr v') \<Longrightarrow>
    cl_step truth x ((set_group n a g' x)\<lparr>cl_answers := insert (n, g_name g, key, ByteSLice v') (cl_answers x)\<rparr>)"
| cl_beside: "group_at x n a = Some g \<Longrightarrow> group_step g opn g' \<Longrightarrow> (\<forall>k v. opn \<noteq> PutOp k v) \<Longrightarrow> opn \<noteq> ClearOp \<Longrightarrow>
    cl_step truth x (set_group n a g' x)"
| cl_work: "group_at x n a = Some g \<Longrightarrow> world_ok (W :: (Client, string) world) \<Longrightarrow> worker_take W g = Some (g', sent) \<Longrightarrow>
    cl_step truth x ((set_group n a g' x)\<lparr>cl_posted := cl_posted x \<union> set sent\<rparr>)"
| cl_away: "world_ok (W :: (Client, string) world) \<Longrightarrow> visits ord \<Longrightarrow> MigrateDataAway W ord p (cl_regs x n) = Some sent \<Longrightarrow>
    cl_step truth x (x\<lparr>cl_posted := cl_posted x \<union> set sent\<rparr>)"
| cl_join: "world_ok (W :: (Client, string) world) \<Longrightarrow> visits ord \<Longrightarrow>
    migrateDataToNewNode W accepts ord (cl_regs x n) p newAddr = Some (p', sent) \<Longrightarrow>
    cl_step truth x (x\<lparr>cl_posted := cl_posted x \<union> set sent\<rparr>)"

section \<open>Good values\<close>

definition good_value :: "(string \<times> string \<times> string) set \<Rightarrow> cluster_state \<Rightarrow> string \<Rightarrow> string \<Rightarrow> string \<Rightarrow> bool" where
  "good_value truth x name key bytes \<longleftrightarrow> (name, key, bytes) \<in> cl_wrote x \<union> truth"

definition good_group :: "(string \<Rightarrow> string \<Rightarrow> string \<Rightarrow> bool) \<Rightarrow> Group \<Rightarrow> bool" where
  "good_group ok g \<longleftrightarrow> (\<forall>k v. v \<in> group_can g k \<longrightarrow> ok (g_name g) k (b v)) \<and>
     (\<forall>t \<in> set (syncTasks g). t_op t = ''set'' \<longrightarrow> ok (g_name g) (t_key t) (t_value t))"

fun good_call :: "(string \<Rightarrow> string \<Rightarrow> string \<Rightarrow> bool) \<Rightarrow> 'p rpc \<Rightarrow> bool" where
  "good_call ok (RpcSet c ctx name key bytes) = ok name key bytes"
| "good_call ok (RpcDelete c ctx name key) = True"
| "good_call ok (RpcGet c name key) = False"

definition good_reg :: "(string \<Rightarrow> string \<Rightarrow> string \<Rightarrow> bool) \<Rightarrow> registry \<Rightarrow> bool" where
  "good_reg ok r \<longleftrightarrow> registry_inv r \<and> (\<forall>a g. objects r a = Some g \<longrightarrow> good_group ok g)"

lemma good_groupD: "good_group ok g \<Longrightarrow> v \<in> group_can g k \<Longrightarrow> ok (g_name g) k (b v)"
  by (simp add: good_group_def)

lemma good_mono:
  assumes up: "\<And>n k v. ok n k v \<Longrightarrow> ok' n k v"
  shows "good_group ok g \<Longrightarrow> good_group ok' g" and "good_call ok call \<Longrightarrow> good_call ok' call"
    and "good_reg ok r \<Longrightarrow> good_reg ok' r"
  using up by (auto simp: good_group_def good_reg_def) (cases call; auto)

section \<open>What the operations do to a good group\<close>

text \<open>The tasks of the queue that carry a value.\<close>

definition set_tasks :: "Group \<Rightarrow> syncTask set" where
  "set_tasks g = {t \<in> set (syncTasks g). t_op t = ''set''}"

lemma good_shrink:
  assumes "good_group ok g" and "g_name g' = g_name g" and "\<And>k. group_can g' k \<subseteq> group_can g k" and "set_tasks g' \<subseteq> set_tasks g"
  shows "good_group ok g'"
  using assms(1,3,4) unfolding good_group_def set_tasks_def assms(2) by (intro conjI allI ballI impI) blast+

lemma Set_good:
  assumes good: "good_group ok g" and inv: "group_inv g" and W: "world_ok W"
    and run: "group_Set W ctx g key value = Some (g', e)" and ok: "ok (g_name g) key value"
  shows "good_group ok g' \<and> group_inv g' \<and> same_id g g'"
proof -
  from group_Set_law [OF inv W, of ctx key "value"] run have l: "group_inv g'" "e \<noteq> None \<longrightarrow> g' = g"
    "\<And>k. group_can g' k \<subseteq> remember (PutOp key (ByteView value)) (group_can g) k" by auto
  have id: "same_id g g'" by (rule Set_id [OF run])
  then have name: "g_name g' = g_name g" by (simp add: same_id_def)
  have can: "ok (g_name g') k (b v)" if "v \<in> group_can g' k" for k v
    using subsetD [OF l(3) that] good_groupD [OF good] ok unfolding name by (auto split: if_split_asm)
  have "t_op t = ''set'' \<longrightarrow> ok (g_name g') (t_key t) (t_value t)" if t: "t \<in> set (syncTasks g')" for t
  proof (cases e)
    case None
    then obtain g0 where g0: "keep W g key (ByteView value) = Some g0" "g' = (if \<not> from_peer ctx \<and> \<not> from_migration ctx \<and> has_peers g0
       then enqueue g0 \<lparr>t_op = ''set'', t_key = key, t_value = value\<rparr> else g0)"
      using group_Set_keep [of W ctx g key "value" g'] run by blast
    have "syncTasks g0 = syncTasks g" using keep_law [OF inv W, of key "ByteView value"] g0(1) by auto
    then have "t \<in> set (syncTasks g) \<or> t = \<lparr>t_op = ''set'', t_key = key, t_value = value\<rparr>"
      using t g0(2) by (auto simp: enqueue_tasks split: if_split_asm)
    then show ?thesis using good ok unfolding name good_group_def by auto
  next
    case (Some y)
    then show ?thesis using l(2) t good by (simp add: good_group_def)
  qed
  with can l(1) id show ?thesis by (simp add: good_group_def)
qed

lemma Delete_tasks: "group_Delete W ctx g k = Some (g', e) \<Longrightarrow> set_tasks g' \<subseteq> set_tasks g"
  by (auto simp: group_Delete_def bind_eq_Some_conv Let_def set_tasks_def enqueue_tasks split: if_split_asm)

lemma core_tasks: "same_core g g' \<Longrightarrow> set_tasks g' = set_tasks g"
  by (simp add: same_core_def set_tasks_def)

lemma lookup_tasks: "group_lookup W g k = Some (g', r) \<Longrightarrow> set_tasks g' = set_tasks g"
  by (auto simp: group_lookup_def bind_eq_Some_conv Let_def set_tasks_def add_localHits_def add_localMisses_def split: if_split_asm)

lemma worker_tasks: "worker_take W g = Some (g', cs) \<Longrightarrow> set_tasks g' \<subseteq> set_tasks g"
  by (auto simp: worker_take_def bind_eq_Some_conv set_tasks_def split: list.splits if_split_asm)

lemma tidy_tasks:
  assumes inv: "group_inv g" and W: "world_ok W" and st: "group_tidy W g g'"
  shows "set_tasks g' \<subseteq> set_tasks g"
  using st
proof cases
  case (loading k r cs)
  then show ?thesis using loadData_loaded [OF loading] core_tasks by blast
next
  case (load_failed k e r)
  then have "same_core g g'" using load_rest_law [OF inv W, of k "Inl e"] by auto
  then show ?thesis using core_tasks by blast
next
  case (set_refused ctx k v e)
  then show ?thesis using group_Set_law [OF inv W, of ctx k v] by auto
next
  case (delete_refused ctx k e)
  then show ?thesis by (rule Delete_tasks)
next
  case (working cs)
  then show ?thesis by (rule worker_tasks)
qed (auto simp: set_tasks_def worker_return_def RegisterPeers_def split: if_split_asm)

lemma beside_good:
  assumes good: "good_group ok g" and inv: "group_inv g" and st: "group_step g opn g'"
    and op: "\<forall>k v. opn \<noteq> PutOp k v" "opn \<noteq> ClearOp"
  shows "good_group ok g' \<and> group_inv g' \<and> same_id g g'"
proof -
  note l = group_step_law [OF inv st]
  have id: "same_id g g'" by (rule group_step_id [OF st op(2)])
  obtain W where W: "world_ok W" and c: "case opn of
     PutOp k v \<Rightarrow> group_put W k v g g'
   | GetOp k \<Rightarrow> \<exists>r. group_lookup W g k = Some (g', r)
   | DelOp k \<Rightarrow> group_remove W k g g'
   | ClearOp \<Rightarrow> \<exists>d. close_group g = Some (g', d)
   | TidyOp \<Rightarrow> group_tidy W g g'"
    by (rule group_step_world [OF st])
  have "set_tasks g' \<subseteq> set_tasks g"
  proof (cases opn)
    case (DelOp k)
    then have "group_remove W k g g'" using c by simp
    then show ?thesis by cases (auto simp: set_tasks_def dest: Delete_tasks [unfolded set_tasks_def])
  next
    case (GetOp k)
    then obtain r where "group_lookup W g k = Some (g', r)" using c by auto
    from lookup_tasks [OF this] show ?thesis by simp
  next
    case TidyOp
    then show ?thesis using tidy_tasks [OF inv W] c by simp
  qed (use op in simp_all)
  moreover have "group_can g' k \<subseteq> group_can g k" for k
  proof -
    have "remember opn (group_can g) k \<subseteq> group_can g k" using op by (cases opn) auto
    then show ?thesis using l by blast
  qed
  ultimately show ?thesis using good_shrink [OF good _ _, of g'] id l by (simp add: same_id_def)
qed

lemma stored_good:
  assumes good: "good_group ok g" and inv: "group_inv g" and W: "world_ok W"
    and run: "load_rest W g key (Some (Inr v)) = Some (g', r)" and ok: "ok (g_name g) key (b v)"
  shows "good_group ok g' \<and> group_inv g' \<and> same_id g g' \<and> r = Inr v"
proof -
  from load_rest_law [OF inv W, of key "Inr v"] run have l: "r = Inr v" "group_inv g'"
    "\<And>k. group_can g' k \<subseteq> remember (PutOp key v) (group_can g) k" "keep W (add_loads (took W) g) key v = Some g'" by auto
  have id: "same_id g g'" by (rule load_rest_id [OF run])
  have "group_inv (add_loads (took W) g)" using same_core_inv [OF counters_core(1)] inv by blast
  from keep_law [OF this W, of key v] l(4) have "syncTasks g' = syncTasks (add_loads (took W) g)" by auto
  also have "\<dots> = syncTasks g" using counters_core(1) [of g "took W"] by (simp add: same_core_def)
  finally have q: "syncTasks g' = syncTasks g" .
  have name: "g_name g' = g_name g" using id by (simp add: same_id_def)
  have "ok (g_name g) k (b u)" if "u \<in> group_can g' k" for k u
    using subsetD [OF l(3) that] good_groupD [OF good] ok by (auto split: if_split_asm)
  then show ?thesis using good l(1,2) id unfolding good_group_def name q by blast
qed

section \<open>What nodes send\<close>

lemma replica_values:
  assumes "syncToPeersWithReplica W g oper key value = Some sent" and "call \<in> set sent"
  shows "(\<exists>p. oper = ''set'' \<and> call = RpcSet p peer_ctx (g_name g) key value) \<or> (\<exists>p. call = RpcDelete p peer_ctx (g_name g) key)"
  using assms
  by (auto simp: syncToPeersWithReplica_def syncToPeers_def send_def Let_def split: if_split_asm option.splits prod.splits)

lemma task_values:
  assumes "processSyncTask W g task = Some sent" and "call \<in> set sent"
  shows "(\<exists>p. t_op task = ''set'' \<and> call = RpcSet p peer_ctx (g_name g) (t_key task) (t_value task)) \<or>
    (\<exists>p. call = RpcDelete p peer_ctx (g_name g) (t_key task))"
proof (cases "t_op task = ''set'' \<or> t_op task = ''delete''")
  case True
  then show ?thesis using replica_values [of W g "t_op task" "t_key task" "t_value task" sent call] assms
    by (auto simp: processSyncTask_def)
next
  case False
  then show ?thesis using replica_values [of W g "''delete''" "t_key task" "[]" sent call] assms
    by (auto simp: processSyncTask_def broadcastDelete_def split: if_split_asm option.splits)
qed

lemma work_good:
  assumes good: "good_group ok g" and run: "worker_take W g = Some (g', sent)" and call: "call \<in> set sent"
  shows "good_call ok call"
proof -
  obtain t where t: "t \<in> set (syncTasks g)" "processSyncTask W g t = Some sent"
    using run call by (auto simp: worker_take_def bind_eq_Some_conv split: list.splits if_split_asm)
  show ?thesis using task_values [OF t(2) call] t(1) good by (auto simp: good_group_def)
qed

lemma local_good:
  fixes W :: "('p, 'e) world"
  assumes good: "good_group ok g" and inv: "group_inv g" and W: "world_ok W" and l: "GetLocalKeyValue W g k = Some (v, True)"
  shows "ok (g_name g) k v"
proof -
  let ?W = "\<lparr>senv = senv W, now_at = 0, until_at = 0, took = 0, source = \<lambda>_. Inl [],
     picker = \<lparr>PickPeer = \<lambda>_. (None, False, False), PickPeerWithFallback = None, GetAllPeers = None\<rparr>,
     peer_reply = \<lambda>p g k. Inl []\<rparr> :: (string, string) world"
  have "world_ok ?W" using W by (simp add: world_ok_def picker_ok_def)
  moreover have "GetLocalKeyValue ?W g k = Some (b (ByteView v), True)" using l by (simp add: GetLocalKeyValue_def)
  ultimately have "group_reply g k (ByteView v)" unfolding group_reply_def by blast
  from good_groupD [where ok = ok, OF good group_reply_law [OF inv this]] show ?thesis by simp
qed

lemma away_good:
  fixes W :: "(Client, 'e) world"
  assumes good: "good_reg ok r" and W: "world_ok W" and ord: "visits ord"
    and run: "MigrateDataAway W ord p r = Some sent" and call: "call \<in> set sent"
  shows "good_call ok call"
proof -
  have inv: "registry_inv r" using good by (simp add: good_reg_def)
  obtain name a g where g: "GetGroup r name = Some a" "objects r a = Some g" "call \<in> away_calls W p name g"
    using migrate_away_value [OF inv W ord, of p "ord (map fst (groups r))"] run call
    unfolding MigrateDataAway_def by auto
  have gg: "good_group ok g" "group_inv g" "g_name g = name"
    using good g(1,2) registeredD(1) [OF inv, of name a g] by (auto simp: good_reg_def registry_inv_def GetGroup_def)
  obtain c k v where "call = RpcSet c migration_ctx name k v" "local_value W g k = Some v"
    using g(3) unfolding away_calls_def by blast
  moreover from this(2) have "GetLocalKeyValue W g k = Some (v, True)"
    by (auto simp: local_value_def split: option.splits prod.splits bool.splits)
  ultimately show ?thesis using local_good [OF gg(1,2) W] gg(3) by auto
qed

lemma migrate_groups_good:
  fixes W :: "(Client, 'e) world"
  assumes good: "good_reg ok r" and W: "world_ok W"
  shows "migrate_groups W accepts p target newAddr r names = Some sent \<Longrightarrow> call \<in> set sent \<Longrightarrow> good_call ok call"
proof (induction names arbitrary: sent)
  case (Cons name names)
  have inv: "registry_inv r" using good by (simp add: good_reg_def)
  show ?case
  proof (cases "do { a \<leftarrow> GetGroup r name; objects r a }")
    case None
    then show ?thesis using Cons by simp
  next
    case (Some g)
    then obtain a where g: "GetGroup r name = Some a" "objects r a = Some g" by (auto simp: bind_eq_Some_conv)
    have gg: "good_group ok g" "group_inv g" "g_name g = name"
      using good g registeredD(1) [OF inv, of name a g] by (auto simp: good_reg_def registry_inv_def GetGroup_def)
    obtain ks sent1 n m sent2 where s: "migrate_keys W accepts p target newAddr g name ks [] [] = Some (sent1, n, m)"
      "migrate_groups W accepts p target newAddr r names = Some sent2" "sent = sent1 @ sent2"
      using Cons.prems(1) Some by (auto simp: bind_eq_Some_conv)
    have s1: "sent1 = map (migrate_call target name) (migrated W p newAddr g ks)"
      using migrate_keys_value [OF gg(2) W, of "[]" "[]" accepts p target newAddr name ks] s(1) by auto
    have "(k, v) \<in> set (migrated W p newAddr g ks) \<Longrightarrow> local_value W g k = Some v" for k v
      by (induction ks) (auto split: option.splits if_split_asm)
    then have "(k, v) \<in> set (migrated W p newAddr g ks) \<Longrightarrow> ok name k v" for k v
      using local_good [OF gg(1,2) W, of k v] gg(3) by (fastforce simp: local_value_def split: option.splits prod.splits bool.splits)
    then have "call \<in> set sent1 \<Longrightarrow> good_call ok call" unfolding s1 by auto
    with Cons.IH [OF s(2)] Cons.prems(2) s(3) show ?thesis by auto
  qed
qed simp

section \<open>The invariant of the cluster\<close>

definition cl_inv :: "(string \<times> string \<times> string) set \<Rightarrow> cluster_state \<Rightarrow> bool" where
  "cl_inv truth x \<longleftrightarrow> (\<forall>n. good_reg (good_value truth x) (cl_regs x n)) \<and>
     (\<forall>call \<in> cl_posted x. good_call (good_value truth x) call) \<and>
     (\<forall>n a key v. (n, a, key, v) \<in> cl_fetched x \<longrightarrow>
        (\<exists>g. group_at x n a = Some g \<and> good_value truth x (g_name g) key (b v))) \<and>
     (\<forall>n name key bytes. (n, name, key, bytes) \<in> cl_answers x \<longrightarrow> good_value truth x name key bytes)"

text \<open>No step takes a group object away or renames it.\<close>

definition reg_keeps :: "registry \<Rightarrow> registry \<Rightarrow> bool" where
  "reg_keeps r r' \<longleftrightarrow> (\<forall>a g. objects r a = Some g \<longrightarrow> (\<exists>g'. objects r' a = Some g' \<and> g_name g' = g_name g))"

lemma put_good:
  assumes r: "good_reg ok r" and a: "objects r a = Some g" and g': "good_group ok g' \<and> group_inv g' \<and> same_id g g'"
  shows "good_reg ok (put_group r a g') \<and> reg_keeps r (put_group r a g')"
proof -
  have inv: "registry_inv r" using r by (simp add: good_reg_def)
  have "map_of (groups r) name = Some a \<Longrightarrow> g_name g = name \<and> \<not> g_closed g" for name
    using registeredD(1) [OF inv] a by blast
  then have "registry_inv (put_group r a g')"
    using inv a g' by (auto simp: registry_inv_def same_id_def put_group_def)
  then show ?thesis using r a g' by (auto simp: good_reg_def reg_keeps_def put_group_def same_id_def)
qed

lemma new_good:
  assumes r: "good_reg ok r" and opts: "\<forall>opt \<in> set opts. option_ok opt"
    and run: "NewGroup True name cacheBytes opts r = Some (r', a)"
  shows "good_reg ok r' \<and> reg_keeps r r'"
proof -
  have inv: "registry_inv r" using r by (simp add: good_reg_def)
  let ?g = "make_group name cacheBytes opts"
  have r': "objects r' = (objects r)(a \<mapsto> ?g)" "a = next_object r" using run by (auto simp: NewGroup_def Let_def)
  have fresh: "objects r a = None" using inv r'(2) by (metis less_irrefl not_None_eq registry_inv_def)
  have "good_group ok ?g"
    using make_group_inv(2) [OF opts] make_group_new [OF opts, of name cacheBytes] by (simp add: good_group_def new_ok_def)
  then show ?thesis using r registry_inv_new(1) [OF inv opts run] fresh by (auto simp: good_reg_def reg_keeps_def r'(1))
qed

lemma close_good:
  assumes r: "good_reg ok r" and run: "group_Close False r a = Some (Returns r')"
  shows "good_reg ok r' \<and> reg_keeps r r'"
proof -
  have inv: "registry_inv r" using r by (simp add: good_reg_def)
  obtain g g' d where g: "objects r a = Some g" "close_group g = Some (g', d)"
    "r' = (if \<not> d then r else r\<lparr>objects := (objects r)(a \<mapsto> g'), groups := AList.delete (g_name g) (groups r)\<rparr>)"
    using run by (auto simp: group_Close_def bind_eq_Some_conv split: if_split_asm)
  have gi: "group_inv g" "good_group ok g" using r g(1) by (auto simp: good_reg_def registry_inv_def)
  from close_group_law [OF gi(1)] g(2) have c: "\<And>k. group_can g' k = {}" "syncTasks g' = syncTasks g" "g_name g' = g_name g" by auto
  have "good_group ok g'" using gi(2) c by (simp add: good_group_def)
  then show ?thesis using r registry_inv_close [OF inv run] g c(3) by (auto simp: good_reg_def reg_keeps_def)
qed

lemma group_of_good:
  assumes "good_reg ok r" and "group_of r name = Some (a, g)"
  shows "objects r a = Some g \<and> g_name g = name \<and> group_inv g \<and> good_group ok g"
  using assms registeredD(1) [of r name a g]
  by (auto simp: group_of_def GetGroup_def good_reg_def registry_inv_def split: option.splits)

lemma deliver_Set_good:
  assumes r: "good_reg ok r" and W: "world_ok W" and ok: "ok name key bytes"
    and run: "deliver W r (RpcSet c ctx name key bytes) = Some r'"
  shows "good_reg ok r' \<and> reg_keeps r r'"
proof (cases "group_of r name")
  case None
  then have "r' = r" using run by (simp add: deliver_def server_Set_def Let_def)
  then show ?thesis using r by (simp add: reg_keeps_def)
next
  case (Some p)
  then obtain a g where p: "group_of r name = Some (a, g)" by (cases p) auto
  then obtain g' e where s: "group_Set W ctx g key bytes = Some (g', e)" "r' = put_group r a g'"
    using run by (auto simp: deliver_def server_Set_def decorate_propagate Let_def bind_eq_Some_conv)
  note g = group_of_good [OF r p]
  have "good_group ok g' \<and> group_inv g' \<and> same_id g g'"
    using Set_good [OF _ _ W s(1), where ok = ok] g ok by simp
  then show ?thesis unfolding s(2) using put_good [OF r] g by blast
qed

lemma deliver_Delete_good:
  assumes r: "good_reg ok r" and W: "world_ok W" and run: "deliver W r (RpcDelete c ctx name key) = Some r'"
  shows "good_reg ok r' \<and> reg_keeps r r'"
proof (cases "group_of r name")
  case None
  then have "r' = r" using run by (simp add: deliver_def server_Delete_def Let_def)
  then show ?thesis using r by (simp add: reg_keeps_def)
next
  case (Some p)
  then obtain a g where p: "group_of r name = Some (a, g)" by (cases p) auto
  then obtain g' e where s: "group_Delete W ctx g key = Some (g', e)" "r' = put_group r a g'"
    using run by (auto simp: deliver_def server_Delete_def decorate_propagate Let_def bind_eq_Some_conv)
  note g = group_of_good [OF r p]
  have sh: "group_inv g'" "\<And>k. group_can g' k \<subseteq> group_can g k"
    using group_Delete_law [OF _ W, of g ctx key] g s(1) by (cases e; auto split: if_split_asm)+
  have id: "same_id g g'" by (rule Delete_id [OF s(1)])
  have "good_group ok g'"
    using good_shrink [of ok g g', OF _ _ sh(2) Delete_tasks [OF s(1)]] g id by (simp add: same_id_def)
  then show ?thesis unfolding s(2) using put_good [OF r] g sh(1) id by blast
qed

lemma deliver_good:
  assumes r: "good_reg ok r" and W: "world_ok W" and call: "good_call ok call" and run: "deliver W r call = Some r'"
  shows "good_reg ok r' \<and> reg_keeps r r'"
proof (cases call)
  case (RpcSet c ctx name key bytes)
  with call have "ok name key bytes" by simp
  with run show ?thesis unfolding RpcSet by (intro deliver_Set_good [OF r W])
next
  case (RpcDelete c ctx name key)
  with run show ?thesis by (intro deliver_Delete_good [OF r W]) simp
qed (use call in simp)

text \<open>A step of one registry, with what it adds to the rest of the state.\<close>

lemma cl_move:
  assumes inv: "cl_inv truth x" and r: "good_reg (good_value truth y) r \<and> reg_keeps (cl_regs x n) r"
    and regs: "cl_regs y = (cl_regs x)(n := r)" and wrote: "cl_wrote x \<subseteq> cl_wrote y"
    and posted: "\<And>call. call \<in> cl_posted y \<Longrightarrow> call \<in> cl_posted x \<or> good_call (good_value truth y) call"
    and fetched: "\<And>m a key v. (m, a, key, v) \<in> cl_fetched y \<Longrightarrow> (m, a, key, v) \<in> cl_fetched x \<or>
      (\<exists>g. group_at y m a = Some g \<and> good_value truth y (g_name g) key (b v))"
    and answers: "\<And>m name key bytes. (m, name, key, bytes) \<in> cl_answers y \<Longrightarrow> (m, name, key, bytes) \<in> cl_answers x \<or>
      good_value truth y name key bytes"
  shows "cl_inv truth y"
  unfolding cl_inv_def
proof (intro conjI allI ballI impI)
  have up: "good_value truth x n k v \<Longrightarrow> good_value truth y n k v" for n k v using wrote by (auto simp: good_value_def)
  show "good_reg (good_value truth y) (cl_regs y m)" for m
    using inv r good_mono(3) [where r = "cl_regs x m", OF up] by (cases "m = n") (simp_all add: regs cl_inv_def)
  show "good_call (good_value truth y) call" if "call \<in> cl_posted y" for call
    using posted [OF that] inv good_mono(2) [where call = call, OF up] by (auto simp: cl_inv_def)
  show "good_value truth y name key bytes" if "(m, name, key, bytes) \<in> cl_answers y" for m name key bytes
    using answers [OF that] inv up unfolding cl_inv_def by blast
  fix m a key v assume "(m, a, key, v) \<in> cl_fetched y"
  from fetched [OF this] show "\<exists>g. group_at y m a = Some g \<and> good_value truth y (g_name g) key (b v)"
  proof
    assume "(m, a, key, v) \<in> cl_fetched x"
    then obtain g where g: "group_at x m a = Some g" "good_value truth x (g_name g) key (b v)" using inv unfolding cl_inv_def by blast
    obtain g' where "group_at y m a = Some g'" "g_name g' = g_name g"
      using g(1) r by (cases "m = n") (auto simp: regs reg_keeps_def)
    then show ?thesis using up [OF g(2)] by auto
  qed
qed

lemma cl_stay:
  assumes inv: "cl_inv truth x" and sent: "\<And>call. call \<in> set sent \<Longrightarrow> good_call (good_value truth x) call"
  shows "cl_inv truth (x\<lparr>cl_posted := cl_posted x \<union> set sent\<rparr>)"
proof -
  have "good_value truth (x\<lparr>cl_posted := cl_posted x \<union> set sent\<rparr>) = good_value truth x" by (simp add: good_value_def [abs_def])
  then show ?thesis using inv sent by (auto simp: cl_inv_def)
qed

text \<open>A step of one group.\<close>

lemma cl_put:
  assumes inv: "cl_inv truth x" and a: "group_at x n a = Some g"
    and g': "good_group (good_value truth y) g' \<and> group_inv g' \<and> same_id g g'"
    and regs: "cl_regs y = (cl_regs x)(n := put_group (cl_regs x n) a g')" and wrote: "cl_wrote x \<subseteq> cl_wrote y"
    and posted: "\<And>call. call \<in> cl_posted y \<Longrightarrow> call \<in> cl_posted x \<or> good_call (good_value truth y) call"
    and fetched: "\<And>m a' key v. (m, a', key, v) \<in> cl_fetched y \<Longrightarrow> (m, a', key, v) \<in> cl_fetched x \<or>
      m = n \<and> a' = a \<and> good_value truth y (g_name g) key (b v)"
    and answers: "\<And>m name key bytes. (m, name, key, bytes) \<in> cl_answers y \<Longrightarrow> (m, name, key, bytes) \<in> cl_answers x \<or>
      good_value truth y name key bytes"
  shows "cl_inv truth y"
proof -
  have up: "good_value truth x n k v \<Longrightarrow> good_value truth y n k v" for n k v using wrote by (auto simp: good_value_def)
  have "good_reg (good_value truth x) (cl_regs x n)" using inv by (simp add: cl_inv_def)
  from put_good [OF good_mono(3) [OF up this] a g']
  have r: "good_reg (good_value truth y) (put_group (cl_regs x n) a g') \<and> reg_keeps (cl_regs x n) (put_group (cl_regs x n) a g')" .
  have new: "group_at y n a = Some g'" "g_name g' = g_name g" using g' by (simp_all add: regs put_group_def same_id_def)
  show ?thesis
    by (rule cl_move [OF inv r regs wrote posted _ answers]) (use fetched new in fastforce)+
qed

lemma cl_groups:
  assumes "cl_inv truth x" and "group_at x n a = Some g"
  shows "good_group (good_value truth x) g \<and> group_inv g"
  using assms by (auto simp: cl_inv_def good_reg_def registry_inv_def)

lemma good_same: "cl_wrote y = cl_wrote x \<Longrightarrow> good_value truth y = good_value truth x"
  by (simp add: good_value_def [abs_def])

text \<open>The steps that bring values in.\<close>

lemma write_inv:
  assumes inv: "cl_inv truth x" and a: "group_at x n a = Some g" and W: "world_ok W"
    and run: "group_Set W ctx g key v = Some (g', e)"
  shows "cl_inv truth ((set_group n a g' x)\<lparr>cl_wrote := insert (g_name g, key, v) (cl_wrote x)\<rparr>)"
    (is "cl_inv truth ?y")
proof -
  have up: "good_value truth x m k u \<Longrightarrow> good_value truth ?y m k u" for m k u by (auto simp: good_value_def)
  note g = cl_groups [OF inv a]
  have gg: "good_group (good_value truth ?y) g" by (rule good_mono(1) [OF up conjunct1 [OF g]])
  have ok: "good_value truth ?y (g_name g) key v" by (simp add: good_value_def)
  show ?thesis by (rule cl_put [OF inv a Set_good [where ok = "good_value truth ?y", OF gg conjunct2 [OF g] W run ok]]) auto
qed

lemma found_inv:
  assumes inv: "cl_inv truth x" and a: "group_at x n a = Some g" and W: "world_ok W"
    and run: "group_lookup W g key = Some (g', Some (Inr v))"
  shows "cl_inv truth ((set_group n a g' x)\<lparr>cl_answers := insert (n, g_name g, key, ByteSLice v) (cl_answers x)\<rparr>)"
    (is "cl_inv truth ?y")
proof -
  have same: "good_value truth ?y = good_value truth x" by (rule good_same) simp
  note g = cl_groups [OF inv a]
  have l: "group_inv g'" "\<And>k. group_can g' k \<subseteq> group_can g k" "g_name g' = g_name g" "v \<in> group_can g key"
    using group_lookup_law [OF conjunct2 [OF g] W, of key] run by auto
  have "good_group (good_value truth x) g'"
    by (rule good_shrink [OF conjunct1 [OF g] l(3,2)]) (simp add: lookup_tasks [OF run])
  then have g': "good_group (good_value truth ?y) g' \<and> group_inv g' \<and> same_id g g'"
    unfolding same using l(1) lookup_id [OF run] by blast
  have "good_value truth ?y (g_name g) key (b v)" unfolding same by (rule good_groupD [OF conjunct1 [OF g] l(4)])
  then show ?thesis by (intro cl_put [OF inv a g']) (auto simp: ByteSLice_def)
qed

lemma brings_inv:
  assumes inv: "cl_inv truth x" and a: "group_at x n a = Some g" and W: "honest truth x (g_name g) W"
    and run: "loadData W g key = Some (g', Inr v, sent)"
  shows "cl_inv truth ((set_group n a g' x)\<lparr>cl_fetched := insert (n, a, key, v) (cl_fetched x)\<rparr>)"
    (is "cl_inv truth ?y")
proof -
  have same: "good_value truth ?y = good_value truth x" by (rule good_same) simp
  note g = cl_groups [OF inv a]
  note ld = loadData_loaded [OF run]
  have core: "same_core g g'" using ld by blast
  have name: "g_name g' = g_name g" using core by (simp add: same_core_def)
  have "good_group (good_value truth x) g'"
    by (rule good_shrink [OF conjunct1 [OF g] name]) (simp_all add: same_core_inv [OF core] core_tasks [OF core])
  then have g': "good_group (good_value truth ?y) g' \<and> group_inv g' \<and> same_id g g'"
    unfolding same using same_core_inv [OF core] g core_id [OF core] by blast
  have "loaded W g key = Inr v" using ld by simp
  then have "source W key = Inr (b v) \<or> (\<exists>p. peer_reply W p (g_name g) key = Inr (b v))"
    unfolding loaded_def by (auto split: option.splits sum.splits)
  then have "good_value truth ?y (g_name g) key (b v)"
    unfolding same
  proof
    assume "source W key = Inr (b v)"
    then show "good_value truth x (g_name g) key (b v)" using W by (simp add: honest_def good_value_def)
  next
    assume "\<exists>p. peer_reply W p (g_name g) key = Inr (b v)"
    then obtain p where "peer_reply W p (g_name g) key = Inr (b v)" by (rule exE)
    then have "(c_addr p, g_name g, key, b v) \<in> cl_answers x" using W by (simp add: honest_def)
    then show "good_value truth x (g_name g) key (b v)" using inv unfolding cl_inv_def by blast
  qed
  then show ?thesis by (intro cl_put [OF inv a g']) auto
qed

lemma store_inv:
  assumes inv: "cl_inv truth x" and f: "(n, a, key, v) \<in> cl_fetched x" and a: "group_at x n a = Some g" and W: "world_ok W"
    and run: "load_rest W g key (Some (Inr v)) = Some (g', Inr v')"
  shows "cl_inv truth ((set_group n a g' x)\<lparr>cl_answers := insert (n, g_name g, key, ByteSLice v') (cl_answers x)\<rparr>)"
    (is "cl_inv truth ?y")
proof -
  have same: "good_value truth ?y = good_value truth x" by (rule good_same) simp
  note g = cl_groups [OF inv a]
  have v: "good_value truth x (g_name g) key (b v)" using inv f a unfolding cl_inv_def by fastforce
  from stored_good [where ok = "good_value truth x", OF conjunct1 [OF g] conjunct2 [OF g] W run v]
  have s: "good_group (good_value truth ?y) g' \<and> group_inv g' \<and> same_id g g'" "v' = v" unfolding same by simp_all
  have "good_value truth ?y (g_name g) key (b v)" unfolding same by (rule v)
  then show ?thesis using s(2) by (intro cl_put [OF inv a s(1)]) (auto simp: ByteSLice_def)
qed

lemma worker_id: "worker_take W g = Some (g', cs) \<Longrightarrow> same_id g g'"
  by (auto simp: worker_take_def bind_eq_Some_conv same_id_def split: list.splits if_split_asm)

lemma work_inv:
  assumes inv: "cl_inv truth x" and a: "group_at x n a = Some g" and W: "world_ok W"
    and run: "worker_take W g = Some (g', sent)"
  shows "cl_inv truth ((set_group n a g' x)\<lparr>cl_posted := cl_posted x \<union> set sent\<rparr>)" (is "cl_inv truth ?y")
proof -
  have same: "good_value truth ?y = good_value truth x" by (rule good_same) simp
  note g = cl_groups [OF inv a]
  have w: "group_inv g'" "group_can g' = group_can g" using worker_law(1) [OF conjunct2 [OF g] W] run by auto
  have name: "g_name g' = g_name g" using worker_id [OF run] by (simp add: same_id_def)
  have "good_group (good_value truth x) g'"
    by (rule good_shrink [OF conjunct1 [OF g] name]) (use w(2) worker_tasks [OF run] in simp_all)
  then have g': "good_group (good_value truth ?y) g' \<and> group_inv g' \<and> same_id g g'"
    unfolding same using w(1) worker_id [OF run] by blast
  have "good_call (good_value truth ?y) call" if "call \<in> set sent" for call
    unfolding same by (rule work_good [OF conjunct1 [OF g] run that])
  then show ?thesis by (intro cl_put [OF inv a g']) auto
qed

lemma cl_step_inv:
  assumes st: "cl_step truth x y" and inv: "cl_inv truth x"
  shows "cl_inv truth y"
proof -
  have regs: "good_reg (good_value truth x) (cl_regs x n)" for n using inv by (simp add: cl_inv_def)
  have one: "cl_inv truth (set_reg n r x)" if "good_reg (good_value truth x) r \<and> reg_keeps (cl_regs x n) r" for n r
  proof -
    have "good_value truth (set_reg n r x) = good_value truth x" by (rule good_same) simp
    then show ?thesis using that by (intro cl_move [OF inv, where n = n and r = r]) simp_all
  qed
  from st show ?thesis
  proof cases
    case (cl_new opts name cacheBytes n r a)
    then show ?thesis using one [OF new_good [OF regs cl_new(2,3)]] by simp
  next
    case (cl_close n a r)
    then show ?thesis using one [OF close_good [OF regs cl_close(2)]] by simp
  next
    case (cl_write n a g W ctx key v g')
    then show ?thesis using write_inv [OF inv cl_write(2-4)] by simp
  next
    case (cl_deliver call W r)
    have "good_call (good_value truth x) call" using inv cl_deliver(2) by (simp add: cl_inv_def)
    then show ?thesis using one [OF deliver_good [OF regs cl_deliver(3) _ cl_deliver(4)]] cl_deliver(1) by simp
  next
    case (cl_found n a g W key g' v)
    then show ?thesis using found_inv [OF inv cl_found(2-4)] by simp
  next
    case (cl_fetch n a g W key g' v sent)
    then show ?thesis using brings_inv [OF inv cl_fetch(2-4)] by simp
  next
    case (cl_store n a key v g W g' v')
    then show ?thesis using store_inv [OF inv cl_store(2-5)] by simp
  next
    case (cl_beside n a g opn g')
    note g = cl_groups [OF inv cl_beside(2)]
    from put_good [OF regs cl_beside(2) beside_good [OF conjunct1 [OF g] conjunct2 [OF g] cl_beside(3-5)]]
    show ?thesis unfolding cl_beside(1) by (rule one)
  next
    case (cl_work n a g W g' sent)
    then show ?thesis using work_inv [OF inv cl_work(2-4)] by simp
  next
    case (cl_away W ord p n sent)
    show ?thesis unfolding cl_away(1) by (rule cl_stay [OF inv away_good [OF regs cl_away(2-4)]])
  next
    case (cl_join W ord accepts n p newAddr p' sent)
    have "good_call (good_value truth x) call" if "call \<in> set sent" for call
      using cl_join(4) that migrate_groups_good [OF regs [of n] cl_join(2)]
      by (auto simp: migrateDataToNewNode_def bind_eq_Some_conv split: option.splits)
    then show ?thesis unfolding cl_join(1) by (rule cl_stay [OF inv])
  qed
qed

lemma cl_start_inv: "cl_inv truth cl_start"
  by (simp add: cl_inv_def cl_start_def good_reg_def registry_inv_def no_groups_def)

lemma cl_reach_inv: "(cl_step truth)\<^sup>*\<^sup>* cl_start x \<Longrightarrow> cl_inv truth x"
  by (induction rule: rtranclp_induct) (auto intro: cl_start_inv cl_step_inv)

section \<open>What the cluster answers\<close>

text \<open>C2: Across the whole cluster no value ever gets under another key or into another group: in every run
  of any number of nodes (writes, loads through peers, replication, migration both ways, deletions,
  evictions, closing, with messages lost, late, reordered or repeated and pickers in any state), a
  value that a server answers to a Get, that a node holds in its cache, or that a node sends to
  another was written by a client under that key of that group, or comes from the data source.\<close>
theorem cluster_runs_authentic:
  assumes "(cl_step truth)\<^sup>*\<^sup>* cl_start x"
  shows "((n, name, key, bytes) \<in> cl_answers x \<longrightarrow> (name, key, bytes) \<in> cl_wrote x \<union> truth) \<and>
    (group_at x n a = Some g \<and> world_ok W \<and> GetLocalKeyValue W g key = Some (bytes, True) \<longrightarrow>
      (g_name g, key, bytes) \<in> cl_wrote x \<union> truth) \<and>
    (RpcSet c ctx name key bytes \<in> cl_posted x \<longrightarrow> (name, key, bytes) \<in> cl_wrote x \<union> truth)"
proof (intro conjI impI)
  have inv: "cl_inv truth x" by (rule cl_reach_inv [OF assms])
  show "(name, key, bytes) \<in> cl_wrote x \<union> truth" if "(n, name, key, bytes) \<in> cl_answers x"
    using inv that unfolding cl_inv_def good_value_def by blast
  show "(name, key, bytes) \<in> cl_wrote x \<union> truth" if "RpcSet c ctx name key bytes \<in> cl_posted x"
    using inv that unfolding cl_inv_def good_value_def by fastforce
  assume h: "group_at x n a = Some g \<and> world_ok W \<and> GetLocalKeyValue W g key = Some (bytes, True)"
  then have "good_group (good_value truth x) g" "group_inv g" using cl_groups [OF inv] by blast+
  from local_good [OF this] h show "(g_name g, key, bytes) \<in> cl_wrote x \<union> truth" by (auto simp: good_value_def)
qed

theorem cluster_runs_authentic_witness:
  "\<exists>x. (cl_step {})\<^sup>*\<^sup>* cl_start x \<and> (''n'', ''g'', ''k'', ''w'') \<in> cl_answers x \<and> (''g'', ''k'', ''w'') \<in> cl_wrote x"
proof -
  let ?g = "make_group ''g'' 100 []"
  have inv: "group_inv ?g" by (rule default_group_inv)
  have f: "\<not> g_closed ?g" "g_name ?g = ''g''" by (simp_all add: make_group_def)
  obtain g1 g2 where s: "group_Set wset Background ?g ''k'' ''w'' = Some (g1, None)"
      "group_Get wset g1 ''k'' = Some (g2, Inr (ByteView ''w''), [])"
    using set_then_get [OF inv wset_ok wset_ok f(1), of "''k''" "''w''" Background]
    by (auto simp: make_group_def NewCache_def DefaultCacheOptions_def lifetime_def wset_def env0_def default_expiration_def)
  have i1: "group_inv g1" using group_Set_law [OF inv wset_ok, of Background "''k''" "''w''"] s(1) by auto
  obtain g3 where l: "group_lookup wset g1 ''k'' = Some (g3, Some (Inr (ByteView ''w'')))"
  proof (rule group_Get_cases [OF i1 wset_ok, of "''k''"])
    fix g r assume "group_lookup wset g1 ''k'' = Some (g, Some r)" "group_Get wset g1 ''k'' = Some (g, r, [])"
    then show thesis using s(2) that by simp
  next
    fix g g' assume "group_Get wset g1 ''k'' = Some (g', loaded wset g1 ''k'', map (\<lambda>p. RpcGet p (g_name g1) ''k'') (asked wset g1 ''k''))"
    then have "loaded wset g1 ''k'' = Inr (ByteView ''w'')" "asked wset g1 ''k'' = []" using s(2) by simp_all
    then show thesis by (auto simp: loaded_def asked_def wset_def split: option.splits)
  qed
  let ?x1 = "set_reg ''n'' reg1 cl_start"
  let ?x2 = "(set_group ''n'' 0 g1 ?x1)\<lparr>cl_wrote := insert (g_name ?g, ''k'', ''w'') (cl_wrote ?x1)\<rparr>"
  let ?x3 = "(set_group ''n'' 0 g3 ?x2)\<lparr>cl_answers := insert (''n'', g_name g1, ''k'', ByteSLice (ByteView ''w'')) (cl_answers ?x2)\<rparr>"
  have 1: "cl_step {} cl_start ?x1" by (rule cl_new [of "[]" "''g''" 100 _ _ _ 0]) (use new_reg1 in \<open>simp_all add: cl_start_def\<close>)
  have 2: "cl_step {} ?x1 ?x2" by (rule cl_write [OF _ wset_ok s(1)]) (simp add: reg1_def)
  have 3: "cl_step {} ?x2 ?x3" by (rule cl_found [OF _ wset_ok l]) (simp add: put_group_def)
  have r: "(cl_step {})\<^sup>*\<^sup>* cl_start ?x3" using 1 2 3 by (meson r_into_rtranclp rtranclp.rtrancl_into_rtrancl)
  have "g_name g1 = ''g''" using Set_id [OF s(1)] f(2) by (simp add: same_id_def)
  then have a: "(''n'', ''g'', ''k'', ''w'') \<in> cl_answers ?x3" by (simp add: ByteSLice_def)
  from cluster_runs_authentic [OF r, of "''n''" "''g''" "''k''" "''w''"] a r show ?thesis by blast
qed

end
